(* ===== verification/Go_Prelude.thy ===== *)
theory Go_Prelude
  imports Main "HOL-Library.Monad_Syntax"
begin

text \<open>
  Shared vocabulary of the development: how Go values and Go failures are represented, and the
  list, option and arithmetic facts the component theories rest on.

  \<^item> A Go slice is a list; \<open>go_index\<close>, \<open>go_set\<close>, \<open>go_slice_to\<close> and \<open>go_slice_from\<close> are
    \<^verbatim>\<open>s[i]\<close>, \<^verbatim>\<open>s[i] = v\<close>, \<^verbatim>\<open>s[:k]\<close> and \<^verbatim>\<open>s[k:]\<close>. An index or bound that Go refuses at run time
    gives \<open>None\<close>: the goroutine panics and, since nothing recovers, the process is gone. A
    function of the model that can reach such an expression returns an \<open>option\<close>, and
    ``never panics'' is the claim that it returns \<open>Some\<close>.
  \<^item> A Go \<^verbatim>\<open>int\<close> used as a term, an index, a counter or an identifier is an \<open>int\<close>; none of the
    theorems depends on wrapping at 64 bits.
  \<^item> \<^verbatim>\<open>make(map)\<close> objects are maps or association lists, as the component says.
\<close>

named_theorems go_slice_simps \<open>reading and cutting Go slices\<close>

subsection \<open>Slices\<close>

definition go_index :: "'a list \<Rightarrow> int \<Rightarrow> 'a option" where
  "go_index xs i = (if 0 \<le> i \<and> i < int (length xs) then Some (xs ! nat i) else None)"

definition go_set :: "'a list \<Rightarrow> int \<Rightarrow> 'a \<Rightarrow> 'a list option" where
  "go_set xs i v = (if 0 \<le> i \<and> i < int (length xs) then Some (xs[nat i := v]) else None)"

text \<open>
  \<^verbatim>\<open>s[:k]\<close> is legal up to the capacity of \<open>s\<close>; the model stops at its length. Every cut the
  program makes stays within the length, which the theories prove where they use it.
\<close>

definition go_slice_to :: "'a list \<Rightarrow> int \<Rightarrow> 'a list option" where
  "go_slice_to xs k = (if 0 \<le> k \<and> k \<le> int (length xs) then Some (take (nat k) xs) else None)"

definition go_slice_from :: "'a list \<Rightarrow> int \<Rightarrow> 'a list option" where
  "go_slice_from xs k = (if 0 \<le> k \<and> k \<le> int (length xs) then Some (drop (nat k) xs) else None)"

lemma go_index_in [go_slice_simps]:
  "0 \<le> i \<Longrightarrow> i < int (length xs) \<Longrightarrow> go_index xs i = Some (xs ! nat i)"
  by (simp add: go_index_def)

lemma go_index_nat [simp]: "n < length xs \<Longrightarrow> go_index xs (int n) = Some (xs ! n)"
  by (simp add: go_index_def)

lemma go_index_eq_Some:
  "go_index xs i = Some x \<longleftrightarrow> 0 \<le> i \<and> i < int (length xs) \<and> x = xs ! nat i"
  by (auto simp: go_index_def)

lemma go_set_in [go_slice_simps]:
  "0 \<le> i \<Longrightarrow> i < int (length xs) \<Longrightarrow> go_set xs i v = Some (xs[nat i := v])"
  by (simp add: go_set_def)

lemma go_set_eq_Some:
  "go_set xs i v = Some ys \<longleftrightarrow> 0 \<le> i \<and> i < int (length xs) \<and> ys = xs[nat i := v]"
  by (auto simp: go_set_def)

lemma go_slice_to_in [go_slice_simps]:
  "0 \<le> k \<Longrightarrow> k \<le> int (length xs) \<Longrightarrow> go_slice_to xs k = Some (take (nat k) xs)"
  by (simp add: go_slice_to_def)

lemma go_slice_to_eq_Some:
  "go_slice_to xs k = Some ys \<longleftrightarrow> 0 \<le> k \<and> k \<le> int (length xs) \<and> ys = take (nat k) xs"
  by (auto simp: go_slice_to_def)

lemma go_slice_from_in [go_slice_simps]:
  "0 \<le> k \<Longrightarrow> k \<le> int (length xs) \<Longrightarrow> go_slice_from xs k = Some (drop (nat k) xs)"
  by (simp add: go_slice_from_def)

lemma go_slice_from_eq_Some:
  "go_slice_from xs k = Some ys \<longleftrightarrow> 0 \<le> k \<and> k \<le> int (length xs) \<and> ys = drop (nat k) xs"
  by (auto simp: go_slice_from_def)

lemmas go_slice_eqs = go_index_eq_Some go_set_eq_Some go_slice_to_eq_Some go_slice_from_eq_Some

lemma drop_take_drop: "k \<le> i \<Longrightarrow> drop k (take i xs) @ drop i xs = drop k xs"
  by (metis append_take_drop_id drop_take le_add_diff_inverse2 drop_drop)

lemma nat_int_minus_one [simp]: "nat (int n - 1) = n - Suc 0"
  by (cases n) auto

subsection \<open>Options\<close>

lemma bind_total:
  "\<lbrakk>\<exists>x. m = Some x; \<And>x. m = Some x \<Longrightarrow> \<exists>y. f x = Some y\<rbrakk> \<Longrightarrow> \<exists>y. Option.bind m f = Some y"
  by auto

subsection \<open>Time and randomness\<close>

text \<open>
  What a critical section reads from its surroundings: \<^verbatim>\<open>time.Now()\<close> in milliseconds and the value
  \<^verbatim>\<open>rand.Int63()\<close> returned. Both are arguments of the definitions that use them.
\<close>

record env =
  now :: int
  rnd :: int

end
