(* ===== verification/Raft_Node.thy ===== *)
theory Raft_Node
  imports Go_Prelude
begin

text \<open>
  One Raft peer: the state of \<^verbatim>\<open>src/src/raft/raft.go\<close>, its persister
  (\<^verbatim>\<open>src/src/raft/persister.go\<close>) and every handler, reply continuation and background step of
  the peer, as functions from the peer's state to its next state.

  Each function is one critical section of \<^verbatim>\<open>rf.mu\<close>. A remote call made by a goroutine is the
  value the section hands to the network: the arguments it was started with. What the goroutine
  does with the reply is a section of its own, with the values it captured as arguments.
\<close>

subsection \<open>Data\<close>

datatype server_state = follower | leader | candidate

record 'c LogEntry =
  Term :: int
  Index :: int
  Command :: 'c

record ('c, 'b) ApplyMsg =
  msg_Index :: int
  msg_Command :: "'c option"
  UseSnapshot :: bool
  msg_Snapshot :: 'b

text \<open>
  A gob stream is the sequence of values that were encoded into it, each with its Go type;
  \<^verbatim>\<open>Decode\<close> takes the next value and fails at the end of the stream or on another type.
  A snapshot is opaque to Raft: the type \<open>'b\<close>.
\<close>

datatype 'c gob = GInt int | GLog "'c LogEntry list"

fun gob_int :: "'c gob list \<Rightarrow> (int \<times> 'c gob list) option" where
  "gob_int (GInt i # s) = Some (i, s)"
| "gob_int _ = None"

fun gob_log :: "'c gob list \<Rightarrow> ('c LogEntry list \<times> 'c gob list) option" where
  "gob_log (GLog l # s) = Some (l, s)"
| "gob_log _ = None"

record ('c, 'b) Persister =
  raftstate :: "'c gob list"
  snapshot :: 'b

record ('c, 'b) Raft =
  peers :: nat
  persister :: "('c, 'b) Persister"
  me :: int
  dead :: bool
  currentTerm :: int
  votedFor :: int
  log :: "'c LogEntry list"
  commitIndex :: int
  lastApplied :: int
  lastIncludedIndex :: int
  lastIncludedTerm :: int
  serverState :: server_state
  nextIndex :: "int list"
  matchIndex :: "int list"
  electionDeadline :: "int option"
  votesReceived :: int

record RequestVoteArgs =
  rv_Term :: int
  CandidateId :: int
  LastLogIndex :: int
  LastLogTerm :: int

record RequestVoteReply =
  rvr_Term :: int
  VoteGranted :: bool

record 'c AppendEntriesArgs =
  ae_Term :: int
  PrevLogIndex :: int
  PrevLogTerm :: int
  Entries :: "'c LogEntry list"
  LeaderCommit :: int

record AppendEntriesReply =
  aer_Term :: int
  Success :: bool
  XTerm :: int
  XIndex :: int
  XLen :: int

record 'b InstallSnapshotArgs =
  is_Term :: int
  LeaderId :: int
  is_LastIncludedIndex :: int
  is_LastIncludedTerm :: int
  Data :: 'b

record InstallSnapshotReply =
  isr_Term :: int

subsection \<open>The persister\<close>

definition MakePersister :: "'b \<Rightarrow> ('c, 'b) Persister" where
  "MakePersister nil = \<lparr>raftstate = [], snapshot = nil\<rparr>"

definition Persister_Copy :: "('c, 'b) Persister \<Rightarrow> ('c, 'b) Persister" where
  "Persister_Copy ps = (MakePersister (snapshot ps))\<lparr>raftstate := raftstate ps, snapshot := snapshot ps\<rparr>"

definition SaveRaftState :: "'c gob list \<Rightarrow> ('c, 'b) Persister \<Rightarrow> ('c, 'b) Persister" where
  "SaveRaftState data ps = ps\<lparr>raftstate := data\<rparr>"

definition ReadRaftState :: "('c, 'b) Persister \<Rightarrow> 'c gob list" where
  "ReadRaftState ps = raftstate ps"

text \<open>The length of the encoded bytes is the encoder's business: \<open>bytes\<close> stands for it.\<close>

definition RaftStateSize :: "('c gob list \<Rightarrow> int) \<Rightarrow> ('c, 'b) Persister \<Rightarrow> int" where
  "RaftStateSize bytes ps = bytes (raftstate ps)"

definition SaveSnapshot :: "'b \<Rightarrow> ('c, 'b) Persister \<Rightarrow> ('c, 'b) Persister" where
  "SaveSnapshot s ps = ps\<lparr>snapshot := s\<rparr>"

definition ReadSnapshot :: "('c, 'b) Persister \<Rightarrow> 'b" where
  "ReadSnapshot ps = snapshot ps"

subsection \<open>Persisting the peer's state\<close>

definition persist :: "('c, 'b) Raft \<Rightarrow> ('c, 'b) Raft" where
  "persist rf = rf\<lparr>persister :=
     SaveRaftState
       [GInt (votedFor rf), GInt (currentTerm rf), GLog (log rf),
        GInt (lastIncludedIndex rf), GInt (lastIncludedTerm rf)]
       (persister rf)\<rparr>"

definition readPersist :: "'c gob list \<Rightarrow> ('c, 'b) Raft \<Rightarrow> ('c, 'b) Raft" where
  "readPersist data rf =
     (if data = [] then rf
      else case
        do { (v, d1) \<leftarrow> gob_int data;
             (t, d2) \<leftarrow> gob_int d1;
             (l, d3) \<leftarrow> gob_log d2;
             (i, d4) \<leftarrow> gob_int d3;
             (lt, d5) \<leftarrow> gob_int d4;
             Some (v, t, l, i, lt) }
      of None \<Rightarrow> rf
       | Some (v, t, l, i, lt) \<Rightarrow>
           rf\<lparr>votedFor := v, currentTerm := t, log := l,
              lastIncludedIndex := i, lastIncludedTerm := lt\<rparr>)"

subsection \<open>Small readers\<close>

definition NumPeers :: "('c, 'b) Raft \<Rightarrow> nat" where
  "NumPeers rf = peers rf"

definition RaftSize :: "('c gob list \<Rightarrow> int) \<Rightarrow> ('c, 'b) Raft \<Rightarrow> int" where
  "RaftSize bytes rf = RaftStateSize bytes (persister rf)"

definition GetState :: "('c, 'b) Raft \<Rightarrow> int \<times> bool" where
  "GetState rf = (currentTerm rf, serverState rf = leader)"

definition randomElectionTimeout :: "int \<Rightarrow> int" where
  "randomElectionTimeout r = 250 + r mod 300"

text \<open>\<^verbatim>\<open>rf.electionDeadline = time.Now().Add(randomElectionTimeout() ms)\<close>, as every section writes it.\<close>

definition resetDeadline :: "env \<Rightarrow> ('c, 'b) Raft \<Rightarrow> ('c, 'b) Raft" where
  "resetDeadline e rf = rf\<lparr>electionDeadline := Some (now e + randomElectionTimeout (rnd e))\<rparr>"

definition lastLogIndex :: "('c, 'b) Raft \<Rightarrow> int" where
  "lastLogIndex rf = lastIncludedIndex rf + int (length (log rf))"

definition lastLogTerm :: "('c, 'b) Raft \<Rightarrow> int" where
  "lastLogTerm rf =
     (if length (log rf) = 0 then lastIncludedTerm rf
      else Term (log rf ! (length (log rf) - 1)))"

definition killed :: "('c, 'b) Raft \<Rightarrow> bool" where
  "killed rf = dead rf"

definition Kill :: "('c, 'b) Raft \<Rightarrow> ('c, 'b) Raft" where
  "Kill rf = rf\<lparr>dead := True\<rparr>"

subsection \<open>Committing\<close>

text \<open>The inner loop of \<^verbatim>\<open>advanceCommit\<close> over \<^verbatim>\<open>range rf.peers\<close>.\<close>

fun nAgree :: "int list \<Rightarrow> nat list \<Rightarrow> int \<Rightarrow> nat option" where
  "nAgree m [] n = Some 0"
| "nAgree m (i # is) n =
     do { v \<leftarrow> go_index m (int i);
          k \<leftarrow> nAgree m is n;
          Some (if v \<ge> n then Suc k else k) }"

text \<open>The term test at the head of the outer loop; \<open>False\<close> is its \<^verbatim>\<open>continue\<close>.\<close>

definition ofCurrentTerm :: "('c, 'b) Raft \<Rightarrow> int \<Rightarrow> bool option" where
  "ofCurrentTerm rf n =
     (if n \<le> lastIncludedIndex rf then Some (lastIncludedTerm rf = currentTerm rf)
      else do { e \<leftarrow> go_index (log rf) (n - lastIncludedIndex rf - 1);
                Some (Term e = currentTerm rf) })"

function advanceCommit_from :: "('c, 'b) Raft \<Rightarrow> int \<Rightarrow> ('c, 'b) Raft option" where
  "advanceCommit_from rf n =
     (if n > commitIndex rf then
        do { cur \<leftarrow> ofCurrentTerm rf n;
             if \<not> cur then advanceCommit_from rf (n - 1)
             else do { k \<leftarrow> nAgree (matchIndex rf) [0..<peers rf] n;
                       if k > peers rf div 2 then Some (rf\<lparr>commitIndex := n\<rparr>)
                       else advanceCommit_from rf (n - 1) } }
      else Some rf)"
  by pat_completeness auto
termination
  by (relation "measure (\<lambda>(rf, n). nat (n - commitIndex rf))") auto

declare advanceCommit_from.simps [simp del]

definition advanceCommit :: "('c, 'b) Raft \<Rightarrow> ('c, 'b) Raft option" where
  "advanceCommit rf = advanceCommit_from rf (lastLogIndex rf)"


subsection \<open>Replication: the leader's side\<close>

text \<open>The downward search of \<^verbatim>\<open>processAppendEntriesReply\<close> for the last entry of term \<open>xt\<close>.\<close>

fun lastWithTerm :: "'c LogEntry list \<Rightarrow> int \<Rightarrow> int \<Rightarrow> nat \<Rightarrow> int" where
  "lastWithTerm l xt dflt 0 = dflt"
| "lastWithTerm l xt dflt (Suc i) =
     (if Term (l ! Suc i) = xt then int (Suc i) + 1 else lastWithTerm l xt dflt i)"

definition stepDown :: "env \<Rightarrow> int \<Rightarrow> ('c, 'b) Raft \<Rightarrow> ('c, 'b) Raft" where
  "stepDown e t rf =
     persist (resetDeadline e
       (rf\<lparr>currentTerm := t, serverState := follower, votedFor := -1\<rparr>))"

definition processAppendEntriesReply ::
  "env \<Rightarrow> ('c, 'b) Raft \<Rightarrow> int \<Rightarrow> int \<Rightarrow> int \<Rightarrow> 'c LogEntry list \<Rightarrow> AppendEntriesReply
     \<Rightarrow> ('c, 'b) Raft option" where
  "processAppendEntriesReply e rf peer rpcTerm prevI ent reply =
     (if currentTerm rf \<noteq> rpcTerm \<or> serverState rf \<noteq> leader then Some rf
      else if aer_Term reply > currentTerm rf then Some (stepDown e (aer_Term reply) rf)
      else if Success reply then
        do { let newMatch = (if length ent > 0 then prevI + int (length ent) else prevI);
             old \<leftarrow> go_index (matchIndex rf) peer;
             mi \<leftarrow> (if newMatch > old then go_set (matchIndex rf) peer newMatch
                    else Some (matchIndex rf));
             ni \<leftarrow> go_set (nextIndex rf) peer (newMatch + 1);
             advanceCommit (rf\<lparr>matchIndex := mi, nextIndex := ni\<rparr>) }
      else
        do { let next =
               (if XTerm reply = -1 then XLen reply
                else lastWithTerm (log rf) (XTerm reply) (XIndex reply) (length (log rf) - 1));
             ni \<leftarrow> go_set (nextIndex rf) peer (if next < 1 then 1 else next);
             Some (rf\<lparr>nextIndex := ni\<rparr>) })"

text \<open>
  What a critical section leaves to goroutines it starts: an \<^verbatim>\<open>AppendEntries\<close> call whose arguments
  are already fixed, or \<^verbatim>\<open>handleSendInstallSnapshot(peer)\<close>, which reads the state when it runs.
\<close>

datatype 'c goroutine = GoAppendEntries int "'c AppendEntriesArgs" | GoInstallSnapshot int

definition replicateTo :: "('c, 'b) Raft \<Rightarrow> int \<Rightarrow> 'c goroutine option" where
  "replicateTo rf peer =
     do { next \<leftarrow> go_index (nextIndex rf) peer;
          if next \<le> lastIncludedIndex rf then Some (GoInstallSnapshot peer)
          else do {
            let prevIdx = next - 1;
            prevTerm \<leftarrow>
              (if prevIdx > lastIncludedIndex rf
               then map_option Term (go_index (log rf) (prevIdx - lastIncludedIndex rf - 1))
               else Some (lastIncludedTerm rf));
            entries \<leftarrow> go_slice_from (log rf) (next - lastIncludedIndex rf - 1);
            Some (GoAppendEntries peer
              \<lparr>ae_Term = currentTerm rf, PrevLogIndex = prevIdx, PrevLogTerm = prevTerm,
               Entries = entries, LeaderCommit = commitIndex rf\<rparr>) } }"

fun replicateAll :: "('c, 'b) Raft \<Rightarrow> nat list \<Rightarrow> 'c goroutine list option" where
  "replicateAll rf [] = Some []"
| "replicateAll rf (i # is) =
     (if int i = me rf then replicateAll rf is
      else do { g \<leftarrow> replicateTo rf (int i);
                gs \<leftarrow> replicateAll rf is;
                Some (g # gs) })"

definition Start ::
  "('c, 'b) Raft \<Rightarrow> 'c \<Rightarrow> (('c, 'b) Raft \<times> (int \<times> int \<times> bool) \<times> 'c goroutine list) option" where
  "Start rf command =
     (if serverState rf \<noteq> leader then Some (rf, (-1, currentTerm rf, False), [])
      else do {
        let rf1 = rf\<lparr>log := log rf @ [\<lparr>Term = currentTerm rf, Index = 0, Command = command\<rparr>]\<rparr>;
        let index = lastLogIndex rf1;
        mi \<leftarrow> go_set (matchIndex rf1) (me rf1) index;
        let rf2 = rf1\<lparr>matchIndex := mi\<rparr>;
        gs \<leftarrow> replicateAll rf2 [0..<peers rf2];
        Some (persist rf2, (index, currentTerm rf2, True), gs) })"

text \<open>
  The leader's iteration of \<^verbatim>\<open>ticker\<close>: a heartbeat, or the missing entries, to every other peer.
  \<^verbatim>\<open>ticker\<close> reads \<^verbatim>\<open>serverState\<close> in a critical section of its own (\<open>ticker_read\<close>) and does not read
  it again in this one.
\<close>

definition ticker_read :: "('c, 'b) Raft \<Rightarrow> server_state" where
  "ticker_read rf = serverState rf"

definition ticker_leader :: "('c, 'b) Raft \<Rightarrow> 'c goroutine list option" where
  "ticker_leader rf = replicateAll rf [0..<peers rf]"

subsection \<open>Replication: the follower's side\<close>

function xIndex_from :: "('c, 'b) Raft \<Rightarrow> int \<Rightarrow> int \<Rightarrow> int option" where
  "xIndex_from rf xTerm xIndex =
     (if xIndex > lastIncludedIndex rf + 1 then
        do { e \<leftarrow> go_index (log rf) (xIndex - 1 - lastIncludedIndex rf - 1);
             if Term e \<noteq> xTerm then Some xIndex
             else xIndex_from rf xTerm (xIndex - 1) }
      else Some xIndex)"
  by pat_completeness auto
termination
  by (relation "measure (\<lambda>(rf, xTerm, xIndex). nat (xIndex - lastIncludedIndex rf))") auto

declare xIndex_from.simps [simp del]

text \<open>The head of \<^verbatim>\<open>AppendEntries\<close>: adopt a newer term and become a follower.\<close>

definition adoptTerm :: "int \<Rightarrow> ('c, 'b) Raft \<Rightarrow> ('c, 'b) Raft" where
  "adoptTerm t rf =
     (if t > currentTerm rf then persist (rf\<lparr>currentTerm := t, votedFor := -1\<rparr>) else rf)
       \<lparr>serverState := follower\<rparr>"

text \<open>The success tail of \<^verbatim>\<open>AppendEntries\<close>: replace the suffix, follow the leader's commit index, clamp.\<close>

definition acceptEntries :: "env \<Rightarrow> 'c AppendEntriesArgs \<Rightarrow> ('c, 'b) Raft \<Rightarrow> ('c, 'b) Raft option" where
  "acceptEntries e args rf =
     do { let cut = PrevLogIndex args - lastIncludedIndex rf;
          l \<leftarrow> (if length (Entries args) > 0
                then map_option (\<lambda>l. l @ Entries args) (go_slice_to (log rf) cut)
                else if lastLogIndex rf > PrevLogIndex args then go_slice_to (log rf) cut
                else Some (log rf));
          let rf1 = rf\<lparr>log := l\<rparr>;
          let rf2 = (if LeaderCommit args > commitIndex rf1
                     then rf1\<lparr>commitIndex := LeaderCommit args\<rparr> else rf1);
          let lastNew = lastLogIndex rf2;
          let rf3 = (if commitIndex rf2 > lastNew then rf2\<lparr>commitIndex := lastNew\<rparr> else rf2);
          let rf4 = (if lastApplied rf3 > lastNew then rf3\<lparr>lastApplied := lastNew\<rparr> else rf3);
          Some (resetDeadline e (persist rf4)) }"

definition AppendEntries ::
  "env \<Rightarrow> ('c, 'b) Raft \<Rightarrow> 'c AppendEntriesArgs \<Rightarrow> (('c, 'b) Raft \<times> AppendEntriesReply) option" where
  "AppendEntries e rf args =
     (let reply = \<lparr>aer_Term = currentTerm rf, Success = False, XTerm = 0, XIndex = 0, XLen = 0\<rparr> in
      if ae_Term args < currentTerm rf then Some (rf, reply)
      else
        let rf1 = adoptTerm (ae_Term args) rf; last = lastLogIndex rf1 in
        if PrevLogIndex args > last then
          Some (resetDeadline e rf1, reply\<lparr>XTerm := -1, XLen := last + 1\<rparr>)
        else if PrevLogIndex args < lastIncludedIndex rf1 then Some (resetDeadline e rf1, reply)
        else do {
          prevTerm \<leftarrow>
            (if PrevLogIndex args > lastIncludedIndex rf1
             then map_option Term
               (go_index (log rf1) (PrevLogIndex args - lastIncludedIndex rf1 - 1))
             else Some (lastIncludedTerm rf1));
          if prevTerm \<noteq> PrevLogTerm args then
            (if PrevLogIndex args \<le> lastIncludedIndex rf1 then Some (resetDeadline e rf1, reply)
             else do {
               xe \<leftarrow> go_index (log rf1) (PrevLogIndex args - lastIncludedIndex rf1 - 1);
               x \<leftarrow> xIndex_from rf1 (Term xe) (PrevLogIndex args);
               Some (resetDeadline e rf1, reply\<lparr>XTerm := Term xe, XIndex := x\<rparr>) })
          else do {
            rf2 \<leftarrow> acceptEntries e args rf1;
            Some (rf2, reply\<lparr>aer_Term := currentTerm rf2, Success := True\<rparr>) } })"

subsection \<open>Snapshots\<close>

text \<open>
  \<^verbatim>\<open>InstallSnapshot\<close> up to its last \<^verbatim>\<open>Unlock\<close>; the third component is the data it is about to send on
  \<^verbatim>\<open>applyCh\<close>. That message is built after the lock is released, from the \<^verbatim>\<open>lastApplied\<close> of that
  moment: \<open>InstallSnapshot_msg\<close>.
\<close>

definition InstallSnapshot ::
  "('c, 'b) Raft \<Rightarrow> 'b InstallSnapshotArgs \<Rightarrow> ('c, 'b) Raft \<times> InstallSnapshotReply \<times> 'b option" where
  "InstallSnapshot rf args =
     (let reply = \<lparr>isr_Term = currentTerm rf\<rparr> in
      if is_Term args < currentTerm rf then (rf, reply, None)
      else
        let rf1 = adoptTerm (is_Term args) rf in
        if is_LastIncludedIndex args \<le> lastIncludedIndex rf1 then (rf1, reply, None)
        else
          let rf2 = rf1\<lparr>lastIncludedIndex := is_LastIncludedIndex args,
                        lastIncludedTerm := is_LastIncludedTerm args\<rparr>;
              rf3 = (if lastApplied rf2 < is_LastIncludedIndex args
                     then rf2\<lparr>lastApplied := is_LastIncludedIndex args\<rparr> else rf2);
              rf4 = (if commitIndex rf3 < is_LastIncludedIndex args
                     then rf3\<lparr>commitIndex := is_LastIncludedIndex args\<rparr> else rf3);
              rf5 = persist (rf4\<lparr>log := []\<rparr>)
          in (rf5\<lparr>persister := SaveSnapshot (Data args) (persister rf5)\<rparr>,
              \<lparr>isr_Term = currentTerm rf4\<rparr>, Some (Data args)))"

definition InstallSnapshot_msg :: "('c, 'b) Raft \<Rightarrow> 'b \<Rightarrow> ('c, 'b) ApplyMsg" where
  "InstallSnapshot_msg rf d =
     \<lparr>msg_Index = lastApplied rf, msg_Command = None, UseSnapshot = True, msg_Snapshot = d\<rparr>"

definition Snapshot :: "('c, 'b) Raft \<Rightarrow> int \<Rightarrow> 'b \<Rightarrow> ('c, 'b) Raft option" where
  "Snapshot rf index snap =
     (if index > lastApplied rf \<or> index \<le> lastIncludedIndex rf then Some rf
      else do {
        let rf1 = rf\<lparr>persister := SaveSnapshot snap (persister rf)\<rparr>;
        let cutIdx = index - lastIncludedIndex rf1;
        let rf2 = rf1\<lparr>lastIncludedIndex := index\<rparr>;
        t \<leftarrow> (if cutIdx > 0 then map_option Term (go_index (log rf2) (cutIdx - 1))
              else Some (currentTerm rf2));
        l \<leftarrow> go_slice_from (log rf2) cutIdx;
        Some (persist (rf2\<lparr>lastIncludedTerm := t, log := l\<rparr>)) })"

text \<open>\<^verbatim>\<open>handleSendInstallSnapshot\<close> before and after its remote call.\<close>

definition sendInstallSnapshot_args :: "('c, 'b) Raft \<Rightarrow> 'b InstallSnapshotArgs option" where
  "sendInstallSnapshot_args rf =
     (if serverState rf \<noteq> leader then None
      else Some \<lparr>is_Term = currentTerm rf, LeaderId = me rf,
                 is_LastIncludedIndex = lastIncludedIndex rf,
                 is_LastIncludedTerm = lastIncludedTerm rf,
                 Data = ReadSnapshot (persister rf)\<rparr>)"

definition sendInstallSnapshot_reply ::
  "env \<Rightarrow> ('c, 'b) Raft \<Rightarrow> int \<Rightarrow> 'b InstallSnapshotArgs \<Rightarrow> InstallSnapshotReply
     \<Rightarrow> ('c, 'b) Raft option" where
  "sendInstallSnapshot_reply e rf peer args reply =
     (let term = is_Term args; lastIdx = is_LastIncludedIndex args in
      if currentTerm rf \<noteq> term \<or> serverState rf \<noteq> leader then Some rf
      else if isr_Term reply > currentTerm rf then Some (stepDown e (isr_Term reply) rf)
      else if isr_Term reply < currentTerm rf then Some rf
      else do {
        m \<leftarrow> go_index (matchIndex rf) peer;
        mi \<leftarrow> (if lastIdx > m then go_set (matchIndex rf) peer lastIdx else Some (matchIndex rf));
        n \<leftarrow> go_index (nextIndex rf) peer;
        ni \<leftarrow> (if n < lastIdx + 1 then go_set (nextIndex rf) peer (lastIdx + 1)
              else Some (nextIndex rf));
        rf1 \<leftarrow> advanceCommit (rf\<lparr>matchIndex := mi, nextIndex := ni\<rparr>);
        Some (persist rf1) })"

subsection \<open>Elections\<close>

definition RequestVote ::
  "env \<Rightarrow> ('c, 'b) Raft \<Rightarrow> RequestVoteArgs \<Rightarrow> ('c, 'b) Raft \<times> RequestVoteReply" where
  "RequestVote e rf args =
     (if rv_Term args < currentTerm rf
      then (rf, \<lparr>rvr_Term = currentTerm rf, VoteGranted = False\<rparr>)
      else
        let rf1 = (if rv_Term args > currentTerm rf
                   then rf\<lparr>currentTerm := rv_Term args, votedFor := -1, serverState := follower\<rparr>
                   else rf);
            lastIdx = lastLogIndex rf1;
            lastTerm = lastLogTerm rf1;
            upToDate = (LastLogTerm args > lastTerm \<or>
                        LastLogTerm args = lastTerm \<and> LastLogIndex args \<ge> lastIdx);
            grant = ((votedFor rf1 = -1 \<or> votedFor rf1 = CandidateId args) \<and> upToDate);
            rf2 = (if grant then resetDeadline e (rf1\<lparr>votedFor := CandidateId args\<rparr>) else rf1);
            rf3 = persist rf2
        in (rf3, \<lparr>rvr_Term = currentTerm rf3, VoteGranted = grant\<rparr>))"

text \<open>
  \<^verbatim>\<open>doElection\<close> up to \<^verbatim>\<open>Unlock\<close>. The second component is what its goroutines send: one copy of the
  arguments to each other peer, or nothing when no election started.
\<close>

definition doElection ::
  "env \<Rightarrow> ('c, 'b) Raft \<Rightarrow> ('c, 'b) Raft \<times> (int \<times> RequestVoteArgs) list" where
  "doElection e rf =
     (if serverState rf = leader then (rf, [])
      else case electionDeadline rf of
        None \<Rightarrow> (resetDeadline e rf, [])
      | Some d \<Rightarrow>
          if \<not> now e > d then (rf, [])
          else
            let rf1 = rf\<lparr>currentTerm := currentTerm rf + 1, serverState := candidate,
                         votedFor := me rf, votesReceived := 1\<rparr>;
                args = \<lparr>rv_Term = currentTerm rf1, CandidateId = me rf1,
                        LastLogIndex = lastLogIndex rf1, LastLogTerm = lastLogTerm rf1\<rparr>
            in (resetDeadline e (persist rf1),
                map (\<lambda>i. (int i, args)) (filter (\<lambda>i. int i \<noteq> me rf1) [0..<peers rf1])))"

fun setAll :: "int list \<Rightarrow> nat list \<Rightarrow> int \<Rightarrow> int list option" where
  "setAll xs [] v = Some xs"
| "setAll xs (j # js) v = do { ys \<leftarrow> go_set xs (int j) v; setAll ys js v }"

definition initLeaderIndex :: "('c, 'b) Raft \<Rightarrow> ('c, 'b) Raft option" where
  "initLeaderIndex rf =
     do { let last = lastLogIndex rf;
          ni \<leftarrow> setAll (nextIndex rf) [0..<peers rf] (last + 1);
          m0 \<leftarrow> setAll (matchIndex rf) [0..<peers rf] 0;
          mi \<leftarrow> go_set m0 (me rf) last;
          Some (rf\<lparr>nextIndex := ni, matchIndex := mi\<rparr>) }"

text \<open>What a vote goroutine does when \<^verbatim>\<open>sendRequestVote\<close> returns; \<open>None\<close> for \<open>ok = false\<close>.\<close>

definition handleVoteReply ::
  "env \<Rightarrow> ('c, 'b) Raft \<Rightarrow> int \<Rightarrow> RequestVoteReply option \<Rightarrow> ('c, 'b) Raft option" where
  "handleVoteReply e rf term ok =
     (if currentTerm rf \<noteq> term \<or> serverState rf \<noteq> candidate then Some rf
      else case ok of
        None \<Rightarrow> Some rf
      | Some reply \<Rightarrow>
          if rvr_Term reply > currentTerm rf then Some (stepDown e (rvr_Term reply) rf)
          else if VoteGranted reply then
            let rf1 = rf\<lparr>votesReceived := votesReceived rf + 1\<rparr> in
            if votesReceived rf1 > int (peers rf1 div 2)
            then initLeaderIndex (rf1\<lparr>serverState := leader\<rparr>)
            else Some rf1
          else Some rf)"

text \<open>\<^verbatim>\<open>tickFollower\<close>: the new state and whether it goes on to \<^verbatim>\<open>doElection\<close>.\<close>

definition tickFollower :: "env \<Rightarrow> ('c, 'b) Raft \<Rightarrow> ('c, 'b) Raft \<times> bool" where
  "tickFollower e rf =
     (case electionDeadline rf of
        None \<Rightarrow> (resetDeadline e rf, False)
      | Some d \<Rightarrow> (rf, (serverState rf = follower \<or> serverState rf = candidate) \<and> now e > d))"

subsection \<open>Applying and starting\<close>

datatype ('c, 'b) apply_result =
  ApplyExit
| ApplyIdle
| Applied "('c, 'b) Raft" "('c, 'b) ApplyMsg"

text \<open>
  One pass of \<^verbatim>\<open>BackgroundApplyRoutine\<close>: it exits once the peer is killed, has nothing to do, or
  takes the next entry and the message it sends on \<^verbatim>\<open>applyCh\<close>. The zero snapshot of the message
  is \<open>nil\<close>.
\<close>

definition BackgroundApply :: "'b \<Rightarrow> ('c, 'b) Raft \<Rightarrow> ('c, 'b) apply_result option" where
  "BackgroundApply nil rf =
     (if killed rf then Some ApplyExit
      else if lastApplied rf \<ge> commitIndex rf then Some ApplyIdle
      else if lastLogIndex rf = lastIncludedIndex rf then Some ApplyIdle
      else do {
        let rf1 = rf\<lparr>lastApplied := lastApplied rf + 1\<rparr>;
        let idx = lastApplied rf1;
        ent \<leftarrow> go_index (log rf1) (idx - lastIncludedIndex rf1 - 1);
        Some (Applied rf1 \<lparr>msg_Index = idx, msg_Command = Some (Command ent),
                           UseSnapshot = False, msg_Snapshot = nil\<rparr>) })"

definition Make :: "nat \<Rightarrow> int \<Rightarrow> ('c, 'b) Persister \<Rightarrow> ('c, 'b) Raft \<times> ('c, 'b) ApplyMsg" where
  "Make n i ps =
     (let rf0 = \<lparr>peers = n, persister = ps, me = i, dead = False, currentTerm = 0, votedFor = -1,
                 log = [], commitIndex = 0, lastApplied = 0, lastIncludedIndex = 0,
                 lastIncludedTerm = 0, serverState = follower, nextIndex = replicate n 0,
                 matchIndex = replicate n 0, electionDeadline = None, votesReceived = 0\<rparr>;
          rf1 = readPersist (ReadRaftState ps) rf0;
          rf2 = rf1\<lparr>lastApplied := lastIncludedIndex rf1, commitIndex := lastIncludedIndex rf1\<rparr>
      in (rf2, \<lparr>msg_Index = lastApplied rf2, msg_Command = None, UseSnapshot = True,
                msg_Snapshot = snapshot (persister rf2)\<rparr>))"

end
