(* ===== verification/Raft_Handlers.thy ===== *)
theory Raft_Handlers
  imports Raft_Node
begin

text \<open>
  What every critical section of a peer keeps: the persisted copy of the peer's durable state, the
  shape of its arrays and the order of its indices, and its part in elections. Also which sections
  can panic.
\<close>

subsection \<open>Frames of the small updates\<close>

lemma persist_fields [simp]:
  "peers (persist rf) = peers rf"
  "me (persist rf) = me rf"
  "dead (persist rf) = dead rf"
  "currentTerm (persist rf) = currentTerm rf"
  "votedFor (persist rf) = votedFor rf"
  "log (persist rf) = log rf"
  "commitIndex (persist rf) = commitIndex rf"
  "lastApplied (persist rf) = lastApplied rf"
  "lastIncludedIndex (persist rf) = lastIncludedIndex rf"
  "lastIncludedTerm (persist rf) = lastIncludedTerm rf"
  "serverState (persist rf) = serverState rf"
  "nextIndex (persist rf) = nextIndex rf"
  "matchIndex (persist rf) = matchIndex rf"
  "electionDeadline (persist rf) = electionDeadline rf"
  "votesReceived (persist rf) = votesReceived rf"
  by (simp_all add: persist_def)

lemma resetDeadline_fields [simp]:
  "peers (resetDeadline e rf) = peers rf"
  "me (resetDeadline e rf) = me rf"
  "dead (resetDeadline e rf) = dead rf"
  "currentTerm (resetDeadline e rf) = currentTerm rf"
  "votedFor (resetDeadline e rf) = votedFor rf"
  "log (resetDeadline e rf) = log rf"
  "commitIndex (resetDeadline e rf) = commitIndex rf"
  "lastApplied (resetDeadline e rf) = lastApplied rf"
  "lastIncludedIndex (resetDeadline e rf) = lastIncludedIndex rf"
  "lastIncludedTerm (resetDeadline e rf) = lastIncludedTerm rf"
  "serverState (resetDeadline e rf) = serverState rf"
  "nextIndex (resetDeadline e rf) = nextIndex rf"
  "matchIndex (resetDeadline e rf) = matchIndex rf"
  "votesReceived (resetDeadline e rf) = votesReceived rf"
  "persister (resetDeadline e rf) = persister rf"
  by (simp_all add: resetDeadline_def)

lemma adoptTerm_fields [simp]:
  "peers (adoptTerm t rf) = peers rf"
  "me (adoptTerm t rf) = me rf"
  "dead (adoptTerm t rf) = dead rf"
  "log (adoptTerm t rf) = log rf"
  "commitIndex (adoptTerm t rf) = commitIndex rf"
  "lastApplied (adoptTerm t rf) = lastApplied rf"
  "lastIncludedIndex (adoptTerm t rf) = lastIncludedIndex rf"
  "lastIncludedTerm (adoptTerm t rf) = lastIncludedTerm rf"
  "nextIndex (adoptTerm t rf) = nextIndex rf"
  "matchIndex (adoptTerm t rf) = matchIndex rf"
  "electionDeadline (adoptTerm t rf) = electionDeadline rf"
  "votesReceived (adoptTerm t rf) = votesReceived rf"
  "currentTerm (adoptTerm t rf) = max t (currentTerm rf)"
  "votedFor (adoptTerm t rf) = (if t > currentTerm rf then -1 else votedFor rf)"
  "serverState (adoptTerm t rf) = follower"
  by (simp_all add: adoptTerm_def)

lemma stepDown_fields [simp]:
  "peers (stepDown e t rf) = peers rf"
  "me (stepDown e t rf) = me rf"
  "dead (stepDown e t rf) = dead rf"
  "log (stepDown e t rf) = log rf"
  "commitIndex (stepDown e t rf) = commitIndex rf"
  "lastApplied (stepDown e t rf) = lastApplied rf"
  "lastIncludedIndex (stepDown e t rf) = lastIncludedIndex rf"
  "lastIncludedTerm (stepDown e t rf) = lastIncludedTerm rf"
  "nextIndex (stepDown e t rf) = nextIndex rf"
  "matchIndex (stepDown e t rf) = matchIndex rf"
  "votesReceived (stepDown e t rf) = votesReceived rf"
  "currentTerm (stepDown e t rf) = t" "votedFor (stepDown e t rf) = -1"
  "serverState (stepDown e t rf) = follower"
  by (simp_all add: stepDown_def)

lemma lastLogIndex_frame [simp]:
  "lastLogIndex (persist rf) = lastLogIndex rf"
  "lastLogIndex (resetDeadline e rf) = lastLogIndex rf"
  "lastLogIndex (adoptTerm t rf) = lastLogIndex rf"
  "lastLogIndex (stepDown e t rf) = lastLogIndex rf"
  by (simp_all add: lastLogIndex_def)

text \<open>The \<^verbatim>\<open>if x > rf.f { rf.f = x }\<close> idiom is a maximum or a minimum.\<close>

lemma commitIndex_raise:
  "(if commitIndex rf < c then rf\<lparr>commitIndex := c\<rparr> else rf) =
     rf\<lparr>commitIndex := max c (commitIndex rf)\<rparr>"
  by (simp add: max_def)

lemma commitIndex_clamp:
  "(if c < commitIndex rf then rf\<lparr>commitIndex := c\<rparr> else rf) =
     rf\<lparr>commitIndex := min (commitIndex rf) c\<rparr>"
  by (simp add: min_def)

lemma lastApplied_raise:
  "(if lastApplied rf < c then rf\<lparr>lastApplied := c\<rparr> else rf) =
     rf\<lparr>lastApplied := max c (lastApplied rf)\<rparr>"
  by (simp add: max_def)

lemma lastApplied_clamp:
  "(if c < lastApplied rf then rf\<lparr>lastApplied := c\<rparr> else rf) =
     rf\<lparr>lastApplied := min (lastApplied rf) c\<rparr>"
  by (simp add: min_def)

lemmas raise_clamp = commitIndex_raise commitIndex_clamp lastApplied_raise lastApplied_clamp

subsection \<open>Crash recovery\<close>

definition persistent :: "('c, 'b) Raft \<Rightarrow> int \<times> int \<times> 'c LogEntry list \<times> int \<times> int" where
  "persistent rf =
     (votedFor rf, currentTerm rf, log rf, lastIncludedIndex rf, lastIncludedTerm rf)"

text \<open>A peer is durable when starting again from its persister gives back its persistent fields.\<close>

definition durable :: "('c, 'b) Raft \<Rightarrow> bool" where
  "durable rf \<longleftrightarrow> persistent (fst (Make (peers rf) (me rf) (persister rf))) = persistent rf"

lemma durable_persist [simp, intro]: "durable (persist rf)"
  by (simp add: durable_def persistent_def Make_def readPersist_def ReadRaftState_def persist_def
      SaveRaftState_def Let_def)

text \<open>Fields outside the persistent ones do not matter to durability.\<close>

lemma Make_persistent_cong:
  "raftstate ps = raftstate ps' \<Longrightarrow>
     persistent (fst (Make n i ps)) = persistent (fst (Make n' i' ps'))"
  by (simp add: persistent_def Make_def readPersist_def ReadRaftState_def Let_def
      split: option.splits)

lemma durable_cong:
  assumes "persistent rf' = persistent rf" "raftstate (persister rf') = raftstate (persister rf)"
  shows "durable rf' = durable rf"
  using assms Make_persistent_cong [of "persister rf'" "persister rf"]
  unfolding durable_def by metis

lemma durable_volatile [simp]:
  "durable (rf\<lparr>serverState := ss\<rparr>) = durable rf"
  "durable (rf\<lparr>electionDeadline := dl\<rparr>) = durable rf"
  "durable (rf\<lparr>nextIndex := ni\<rparr>) = durable rf"
  "durable (rf\<lparr>matchIndex := mi\<rparr>) = durable rf"
  "durable (rf\<lparr>votesReceived := vr\<rparr>) = durable rf"
  "durable (rf\<lparr>commitIndex := ci\<rparr>) = durable rf"
  "durable (rf\<lparr>lastApplied := la\<rparr>) = durable rf"
  "durable (rf\<lparr>dead := b\<rparr>) = durable rf"
  "durable (rf\<lparr>persister := (persister rf)\<lparr>snapshot := s\<rparr>\<rparr>) = durable rf"
  by (rule durable_cong; simp add: persistent_def)+

lemma durable_resetDeadline [simp]: "durable (resetDeadline e rf) = durable rf"
  by (simp add: resetDeadline_def)

lemma durable_adoptTerm [simp]: "durable rf \<Longrightarrow> durable (adoptTerm t rf)"
  by (simp add: adoptTerm_def)

lemma durable_stepDown [simp]: "durable (stepDown e t rf)"
  by (simp add: stepDown_def)

lemma advanceCommit_from_commit:
  "advanceCommit_from rf n = Some rf' \<Longrightarrow> \<exists>c \<ge> commitIndex rf. rf' = rf\<lparr>commitIndex := c\<rparr>"
proof (induction rf n rule: advanceCommit_from.induct)
  case (1 rf n)
  note step = "1.prems" [unfolded advanceCommit_from.simps [of rf n]]
  consider (stop) "rf' = rf" | (found) "n > commitIndex rf" "rf' = rf\<lparr>commitIndex := n\<rparr>"
    | (skip) "n > commitIndex rf" "ofCurrentTerm rf n = Some False"
        "advanceCommit_from rf (n - 1) = Some rf'"
    | (few) k where "n > commitIndex rf" "ofCurrentTerm rf n = Some True"
        "nAgree (matchIndex rf) [0..<peers rf] n = Some k" "\<not> k > peers rf div 2"
        "advanceCommit_from rf (n - 1) = Some rf'"
    using step by (auto split: if_splits bind_splits)
  then show ?case
  proof cases
    case stop
    then show ?thesis by (intro exI [of _ "commitIndex rf"]) simp
  next
    case found
    then show ?thesis by (intro exI [of _ n]) simp
  next
    case skip
    then show ?thesis using "1.IH"(1) [of False] by simp
  next
    case few
    then show ?thesis using "1.IH"(2) [of True k] by simp
  qed
qed

lemma advanceCommit_commit:
  "advanceCommit rf = Some rf' \<Longrightarrow> \<exists>c \<ge> commitIndex rf. rf' = rf\<lparr>commitIndex := c\<rparr>"
  unfolding advanceCommit_def by (rule advanceCommit_from_commit)

lemma durable_advanceCommit: "advanceCommit rf = Some rf' \<Longrightarrow> durable rf' = durable rf"
  by (auto dest!: advanceCommit_commit)

text \<open>The accepting tail of \<^verbatim>\<open>AppendEntries\<close> in closed form.\<close>

lemma acceptEntries_eq:
  assumes "lastIncludedIndex rf \<le> PrevLogIndex args" "PrevLogIndex args \<le> lastLogIndex rf"
  shows "acceptEntries e args rf =
    (let l = take (nat (PrevLogIndex args - lastIncludedIndex rf)) (log rf) @ Entries args;
         lastNew = lastIncludedIndex rf + int (length l)
     in Some (resetDeadline e (persist (rf\<lparr>log := l,
          commitIndex := min (max (LeaderCommit args) (commitIndex rf)) lastNew,
          lastApplied := min (lastApplied rf) lastNew\<rparr>))))"
proof -
  let ?cut = "PrevLogIndex args - lastIncludedIndex rf"
  have cut: "0 \<le> ?cut" "?cut \<le> int (length (log rf))"
    using assms by (simp_all add: lastLogIndex_def)
  have "lastLogIndex rf > PrevLogIndex args \<or> nat ?cut = length (log rf)"
    using assms by (auto simp: lastLogIndex_def)
  then have "(if length (Entries args) > 0
      then map_option (\<lambda>l. l @ Entries args) (go_slice_to (log rf) ?cut)
      else if lastLogIndex rf > PrevLogIndex args then go_slice_to (log rf) ?cut
      else Some (log rf)) = Some (take (nat ?cut) (log rf) @ Entries args)"
    using cut by (auto simp: go_slice_to_in)
  then show ?thesis
    by (simp add: acceptEntries_def Let_def lastLogIndex_def raise_clamp)
qed

lemma acceptEntries_fields:
  assumes "lastIncludedIndex rf \<le> PrevLogIndex args" "PrevLogIndex args \<le> lastLogIndex rf"
    and "acceptEntries e args rf = Some rf'"
  shows "me rf' = me rf" "peers rf' = peers rf" "currentTerm rf' = currentTerm rf"
    "votedFor rf' = votedFor rf" "serverState rf' = serverState rf"
    "votesReceived rf' = votesReceived rf" "lastIncludedIndex rf' = lastIncludedIndex rf"
    "lastIncludedTerm rf' = lastIncludedTerm rf" "nextIndex rf' = nextIndex rf"
    "matchIndex rf' = matchIndex rf" "durable rf'"
    "log rf' = take (nat (PrevLogIndex args - lastIncludedIndex rf)) (log rf) @ Entries args"
    "commitIndex rf' = min (max (LeaderCommit args) (commitIndex rf)) (lastLogIndex rf')"
    "lastApplied rf' = min (lastApplied rf) (lastLogIndex rf')"
  using assms(3) unfolding acceptEntries_eq [OF assms(1,2)]
  by (auto simp: Let_def lastLogIndex_def)

text \<open>Every outcome of \<^verbatim>\<open>AppendEntries\<close>: stale, rejected, accepted.\<close>

lemma AppendEntries_cases [consumes 1, case_names stale rejected accepted]:
  assumes "AppendEntries e rf args = Some (rf', r)"
  obtains "ae_Term args < currentTerm rf" "rf' = rf" "\<not> Success r" "aer_Term r = currentTerm rf"
      "XTerm r = 0" "XIndex r = 0" "XLen r = 0"
  | rf1 where "rf1 = adoptTerm (ae_Term args) rf" "\<not> ae_Term args < currentTerm rf"
      "rf' = resetDeadline e rf1" "\<not> Success r" "aer_Term r = currentTerm rf"
  | rf1 where "rf1 = adoptTerm (ae_Term args) rf" "\<not> ae_Term args < currentTerm rf"
      "lastIncludedIndex rf1 \<le> PrevLogIndex args" "PrevLogIndex args \<le> lastLogIndex rf1"
      "PrevLogIndex args = lastIncludedIndex rf1 \<Longrightarrow> lastIncludedTerm rf1 = PrevLogTerm args"
      "PrevLogIndex args > lastIncludedIndex rf1 \<Longrightarrow>
         Term (log rf1 ! nat (PrevLogIndex args - lastIncludedIndex rf1 - 1)) = PrevLogTerm args"
      "acceptEntries e args rf1 = Some rf'" "Success r" "aer_Term r = currentTerm rf'"
  using assms
  by (simp add: AppendEntries_def Let_def go_index_eq_Some split: if_splits bind_splits) auto

lemma durable_AppendEntries:
  assumes "AppendEntries e rf args = Some (rf', r)" and "durable rf"
  shows "durable rf'"
  using assms(1)
proof (cases rule: AppendEntries_cases)
  case (accepted rf1)
  then show ?thesis by (blast intro: acceptEntries_fields(11))
qed (use assms(2) in simp_all)

lemma durable_InstallSnapshot:
  "InstallSnapshot rf args = (rf', r, d) \<Longrightarrow> durable rf \<Longrightarrow> durable rf'"
  by (auto simp: InstallSnapshot_def Let_def SaveSnapshot_def split: if_splits)

lemma durable_Snapshot: "Snapshot rf i s = Some rf' \<Longrightarrow> durable rf \<Longrightarrow> durable rf'"
  by (auto simp: Snapshot_def Let_def split: if_splits bind_splits)

lemma durable_Start: "Start rf c = Some (rf', r, gs) \<Longrightarrow> durable rf \<Longrightarrow> durable rf'"
  by (auto simp: Start_def Let_def split: if_splits bind_splits)

lemma durable_RequestVote: "RequestVote e rf args = (rf', r) \<Longrightarrow> durable rf \<Longrightarrow> durable rf'"
  by (auto simp: RequestVote_def Let_def split: if_splits)

lemma durable_doElection: "doElection e rf = (rf', ms) \<Longrightarrow> durable rf \<Longrightarrow> durable rf'"
  by (auto simp: doElection_def Let_def split: if_splits option.splits)

lemma initLeaderIndex_arrays:
  "initLeaderIndex rf = Some rf' \<Longrightarrow> \<exists>ni mi. rf' = rf\<lparr>nextIndex := ni, matchIndex := mi\<rparr>"
  by (auto simp: initLeaderIndex_def Let_def split: bind_splits)

lemma durable_handleVoteReply:
  "handleVoteReply e rf t ok = Some rf' \<Longrightarrow> durable rf \<Longrightarrow> durable rf'"
  by (auto simp: handleVoteReply_def Let_def split: if_splits option.splits
      dest!: initLeaderIndex_arrays)

lemma durable_processAppendEntriesReply:
  "processAppendEntriesReply e rf p t pi ent reply = Some rf' \<Longrightarrow> durable rf \<Longrightarrow> durable rf'"
  by (auto simp: processAppendEntriesReply_def Let_def durable_advanceCommit
      split: if_splits bind_splits)

lemma durable_sendInstallSnapshot_reply:
  "sendInstallSnapshot_reply e rf p args reply = Some rf' \<Longrightarrow> durable rf \<Longrightarrow> durable rf'"
  by (auto simp: sendInstallSnapshot_reply_def Let_def split: if_splits bind_splits)

lemma durable_BackgroundApply:
  "BackgroundApply nil rf = Some (Applied rf' m) \<Longrightarrow> durable rf \<Longrightarrow> durable rf'"
  by (auto simp: BackgroundApply_def Let_def split: if_splits bind_splits)

lemma durable_Make: "durable (fst (Make n i ps))"
  unfolding durable_def
  by (rule Make_persistent_cong)
     (simp add: Make_def readPersist_def Let_def split: option.splits)

lemmas durable_steps =
  durable_AppendEntries durable_InstallSnapshot durable_Snapshot durable_Start durable_RequestVote
  durable_doElection durable_handleVoteReply durable_processAppendEntriesReply
  durable_sendInstallSnapshot_reply durable_BackgroundApply

subsection \<open>A peer's part in elections\<close>

text \<open>
  Seen from the elections, every section other than granting a vote, starting an election and
  counting a vote is \<open>silent\<close>: it keeps the term and the vote, at most becoming a follower, or
  moves to a later term as a follower that has not voted.
\<close>

definition silent :: "('c, 'b) Raft \<Rightarrow> ('c, 'b) Raft \<Rightarrow> bool" where
  "silent rf rf' \<longleftrightarrow> me rf' = me rf \<and> peers rf' = peers rf \<and>
     (currentTerm rf' = currentTerm rf \<and> votedFor rf' = votedFor rf \<and>
        (serverState rf' = serverState rf \<and> votesReceived rf' = votesReceived rf \<or>
         serverState rf' = follower) \<or>
      currentTerm rf < currentTerm rf' \<and> votedFor rf' = -1 \<and> serverState rf' = follower)"

lemma silent_refl [simp, intro]: "silent rf rf"
  by (simp add: silent_def)

lemma silent_stepDown: "currentTerm rf < t \<Longrightarrow> silent rf (stepDown e t rf)"
  by (simp add: silent_def)

lemma silent_adoptTerm: "\<not> t < currentTerm rf \<Longrightarrow> silent rf (adoptTerm t rf)"
  by (simp add: silent_def)

lemma silent_AppendEntries:
  assumes "AppendEntries e rf args = Some (rf', r)"
  shows "silent rf rf'"
  using assms
proof (cases rule: AppendEntries_cases)
  case (accepted rf1)
  then show ?thesis
    using acceptEntries_fields [OF accepted(3,4,7)] by (simp add: silent_def)
qed (simp_all add: silent_def)

lemma silent_InstallSnapshot: "InstallSnapshot rf args = (rf', r, d) \<Longrightarrow> silent rf rf'"
  by (auto simp: InstallSnapshot_def silent_def SaveSnapshot_def Let_def split: if_splits)

lemma silent_Snapshot: "Snapshot rf i s = Some rf' \<Longrightarrow> silent rf rf'"
  by (auto simp: Snapshot_def silent_def SaveSnapshot_def Let_def split: if_splits bind_splits)

lemma silent_Start: "Start rf c = Some (rf', r, gs) \<Longrightarrow> silent rf rf'"
  by (auto simp: Start_def silent_def SaveSnapshot_def Let_def split: if_splits bind_splits)

lemma silent_processAppendEntriesReply:
  "processAppendEntriesReply e rf p t pi ent reply = Some rf' \<Longrightarrow> silent rf rf'"
  by (auto simp: processAppendEntriesReply_def silent_stepDown Let_def
      split: if_splits bind_splits dest!: advanceCommit_commit)
     (simp_all add: silent_def)

lemma silent_sendInstallSnapshot_reply:
  "sendInstallSnapshot_reply e rf p args reply = Some rf' \<Longrightarrow> silent rf rf'"
  by (auto simp: sendInstallSnapshot_reply_def silent_stepDown Let_def
      split: if_splits bind_splits dest!: advanceCommit_commit)
     (simp_all add: silent_def)

lemma silent_BackgroundApply: "BackgroundApply nil rf = Some (Applied rf' m) \<Longrightarrow> silent rf rf'"
  by (auto simp: BackgroundApply_def silent_def Let_def split: if_splits bind_splits)

lemma Make_fields [simp]:
  "peers (fst (Make n i ps)) = n" "me (fst (Make n i ps)) = i"
  "serverState (fst (Make n i ps)) = follower" "persister (fst (Make n i ps)) = ps"
  by (simp_all add: Make_def readPersist_def Let_def split: option.splits)

lemma silent_restart:
  assumes "durable rf"
  shows "silent rf (fst (Make (peers rf) (me rf) (persister rf)))"
  using assms by (simp add: durable_def silent_def persistent_def)

end
