(* ===== verification/Raft_Cluster.thy ===== *)
theory Raft_Cluster
  imports Raft_Handlers "HOL-Library.Multiset"
begin

text \<open>
  A cluster of \<open>N\<close> Raft peers and the remote calls between them.

  The network is the multiset of calls under way, each a request not yet executed or a reply not
  yet returned. \<^verbatim>\<open>labrpc\<close> executes a request at most once and returns at most one reply per call, in
  any order and after any delay, or loses either: a delivery removes the call, and any call may be
  dropped at any time. A section that panics has no step: its process is gone, and the peer goes on
  only by being restarted from its persister.

  Every peer may take every step at any time (timers, client commands, snapshots of the service,
  crashes). In particular the leader's heartbeat section runs whatever the peer's state is by then,
  because \<^verbatim>\<open>ticker\<close> does not look again after taking the lock.
\<close>

datatype ('c, 'b) rpc =
  VoteCall int int RequestVoteArgs
| VoteReturn int int RequestVoteArgs RequestVoteReply
| AppendCall int int "'c AppendEntriesArgs"
| AppendReturn int int "'c AppendEntriesArgs" AppendEntriesReply
| SnapshotTask int int
| SnapshotCall int int "'b InstallSnapshotArgs"
| SnapshotReturn int int "'b InstallSnapshotArgs" InstallSnapshotReply

text \<open>
  \<open>cast\<close> and \<open>elected\<close> are history: every (voter, term, candidate) some peer ever held as its vote,
  and every (term, peer) such that the peer was ever leader of the term. No step reads them.
\<close>

record ('c, 'b) cluster =
  nodes :: "int \<Rightarrow> ('c, 'b) Raft"
  calls :: "('c, 'b) rpc multiset"
  cast :: "(int \<times> int \<times> int) set"
  elected :: "(int \<times> int) set"

definition put :: "int \<Rightarrow> ('c, 'b) Raft \<Rightarrow> ('c, 'b) rpc multiset \<Rightarrow> ('c, 'b) cluster \<Rightarrow> ('c, 'b) cluster" where
  "put n rf cs w =
     w\<lparr>nodes := (nodes w)(n := rf), calls := cs,
       cast := (if votedFor rf = -1 then cast w
                else insert (n, currentTerm rf, votedFor rf) (cast w)),
       elected := (if serverState rf = leader then insert (currentTerm rf, n) (elected w)
                   else elected w)\<rparr>"

fun task :: "int \<Rightarrow> 'c goroutine \<Rightarrow> ('c, 'b) rpc" where
  "task n (GoAppendEntries p args) = AppendCall n p args"
| "task n (GoInstallSnapshot p) = SnapshotTask n p"

definition init_cluster :: "nat \<Rightarrow> 'b \<Rightarrow> ('c, 'b) cluster" where
  "init_cluster N nil =
     \<lparr>nodes = (\<lambda>n. fst (Make N n (MakePersister nil))), calls = {#}, cast = {}, elected = {}\<rparr>"

abbreviation peer_ids :: "nat \<Rightarrow> int set" where
  "peer_ids N \<equiv> {0..<int N}"

inductive cluster_step :: "nat \<Rightarrow> ('c, 'b) cluster \<Rightarrow> ('c, 'b) cluster \<Rightarrow> bool" for N where
  tick_follower: "n \<in> peer_ids N \<Longrightarrow> tickFollower e (nodes w n) = (rf', b) \<Longrightarrow>
     cluster_step N w (put n rf' (calls w) w)"
| election: "n \<in> peer_ids N \<Longrightarrow> doElection e (nodes w n) = (rf', ms) \<Longrightarrow>
     cluster_step N w (put n rf' (calls w + mset (map (\<lambda>(p, a). VoteCall n p a) ms)) w)"
| vote_request: "VoteCall f t a \<in># calls w \<Longrightarrow> RequestVote e (nodes w t) a = (rf', r) \<Longrightarrow>
     cluster_step N w (put t rf' (calls w - {#VoteCall f t a#} + {#VoteReturn f t a r#}) w)"
| vote_reply: "VoteReturn f t a r \<in># calls w \<Longrightarrow>
     handleVoteReply e (nodes w f) (rv_Term a) (Some r) = Some rf' \<Longrightarrow>
     cluster_step N w (put f rf' (calls w - {#VoteReturn f t a r#}) w)"
| start: "n \<in> peer_ids N \<Longrightarrow> Start (nodes w n) c = Some (rf', res, gs) \<Longrightarrow>
     cluster_step N w (put n rf' (calls w + mset (map (task n) gs)) w)"
| heartbeat: "n \<in> peer_ids N \<Longrightarrow> ticker_leader (nodes w n) = Some gs \<Longrightarrow>
     cluster_step N w (put n (nodes w n) (calls w + mset (map (task n) gs)) w)"
| append_request: "AppendCall f t a \<in># calls w \<Longrightarrow> t \<in> peer_ids N \<Longrightarrow>
     AppendEntries e (nodes w t) a = Some (rf', r) \<Longrightarrow>
     cluster_step N w (put t rf' (calls w - {#AppendCall f t a#} + {#AppendReturn f t a r#}) w)"
| append_reply: "AppendReturn f t a r \<in># calls w \<Longrightarrow> f \<in> peer_ids N \<Longrightarrow>
     processAppendEntriesReply e (nodes w f) t (ae_Term a) (PrevLogIndex a) (Entries a) r = Some rf' \<Longrightarrow>
     cluster_step N w (put f rf' (calls w - {#AppendReturn f t a r#}) w)"
| snapshot_send: "SnapshotTask n p \<in># calls w \<Longrightarrow> n \<in> peer_ids N \<Longrightarrow>
     sendInstallSnapshot_args (nodes w n) = Some a \<Longrightarrow>
     cluster_step N w (put n (nodes w n) (calls w - {#SnapshotTask n p#} + {#SnapshotCall n p a#}) w)"
| snapshot_request: "SnapshotCall f t a \<in># calls w \<Longrightarrow> t \<in> peer_ids N \<Longrightarrow>
     InstallSnapshot (nodes w t) a = (rf', r, d) \<Longrightarrow>
     cluster_step N w (put t rf' (calls w - {#SnapshotCall f t a#} + {#SnapshotReturn f t a r#}) w)"
| snapshot_reply: "SnapshotReturn f t a r \<in># calls w \<Longrightarrow> f \<in> peer_ids N \<Longrightarrow>
     sendInstallSnapshot_reply e (nodes w f) t a r = Some rf' \<Longrightarrow>
     cluster_step N w (put f rf' (calls w - {#SnapshotReturn f t a r#}) w)"
| compact: "n \<in> peer_ids N \<Longrightarrow> Snapshot (nodes w n) i s = Some rf' \<Longrightarrow>
     cluster_step N w (put n rf' (calls w) w)"
| apply_entry: "n \<in> peer_ids N \<Longrightarrow> BackgroundApply nil (nodes w n) = Some (Applied rf' m) \<Longrightarrow>
     cluster_step N w (put n rf' (calls w) w)"
| kill: "n \<in> peer_ids N \<Longrightarrow> cluster_step N w (put n (Kill (nodes w n)) (calls w) w)"
| restart: "n \<in> peer_ids N \<Longrightarrow>
     cluster_step N w (put n (fst (Make N n (persister (nodes w n)))) (calls w) w)"
| lose: "m \<in># calls w \<Longrightarrow> cluster_step N w (w\<lparr>calls := calls w - {#m#}\<rparr>)"

inductive reachable :: "nat \<Rightarrow> ('c, 'b) cluster \<Rightarrow> bool" for N where
  init: "reachable N (init_cluster N nil)"
| step: "reachable N w \<Longrightarrow> cluster_step N w w' \<Longrightarrow> reachable N w'"

subsection \<open>Majorities\<close>

text \<open>The one fact about quorums that elections need: any two of them share a peer.\<close>

locale quorum_system =
  fixes members :: "'p set" and quorum :: "'p set \<Rightarrow> bool"
  assumes quorum_members: "quorum Q \<Longrightarrow> Q \<subseteq> members"
    and quorum_meet: "quorum Q \<Longrightarrow> quorum Q' \<Longrightarrow> Q \<inter> Q' \<noteq> {}"
begin

text \<open>Two choices backed by quorums of voters with one vote each are the same choice.\<close>

lemma backed_unique:
  assumes vote_once: "\<And>p c c'. (p, c) \<in> V \<Longrightarrow> (p, c') \<in> V \<Longrightarrow> c = c'"
    and "quorum Q" "\<forall>p\<in>Q. (p, c) \<in> V" and "quorum Q'" "\<forall>p\<in>Q'. (p, c') \<in> V"
  shows "c = c'"
  using quorum_meet [OF assms(2,4)] assms(1,3,5) by fastforce

lemma quorum_nonempty: "quorum Q \<Longrightarrow> Q \<noteq> {}"
  using quorum_meet [of Q Q] by auto

end

definition majority :: "nat \<Rightarrow> int set \<Rightarrow> bool" where
  "majority N Q \<longleftrightarrow> Q \<subseteq> peer_ids N \<and> card Q > N div 2"

lemma card_peer_ids [simp]: "card (peer_ids N) = N"
  by simp

interpretation maj: quorum_system "peer_ids N" "majority N" for N
proof
  show "majority N Q \<Longrightarrow> Q \<subseteq> peer_ids N" for Q
    by (simp add: majority_def)
next
  fix Q Q' assume m: "majority N Q" "majority N Q'"
  show "Q \<inter> Q' \<noteq> {}"
  proof
    assume "Q \<inter> Q' = {}"
    moreover have fin: "finite Q" "finite Q'"
      using m by (auto simp: majority_def intro: finite_subset)
    ultimately have "card (Q \<union> Q') = card Q + card Q'"
      by (simp add: card_Un_disjoint)
    moreover have "card (Q \<union> Q') \<le> N"
      using m card_mono [of "peer_ids N" "Q \<union> Q'"] by (auto simp: majority_def)
    ultimately show False
      using m by (auto simp: majority_def)
  qed
qed

end
