(* ===== verification/Raft_Election.thy ===== *)
theory Raft_Election
  imports Raft_Cluster
begin

text \<open>
  Election safety: over the whole history of a cluster, a term has at most one leader. The invariant
  follows each vote from the peer that grants it, through the reply in flight, to the candidate that
  counts it; \<open>C f T\<close> is the set of peers whose grants candidate \<open>f\<close> has counted in term \<open>T\<close>.
\<close>

fun vote_rpc :: "int \<Rightarrow> int \<Rightarrow> int \<Rightarrow> ('c, 'b) rpc \<Rightarrow> bool" where
  "vote_rpc f t T (VoteCall f' t' a) = (f' = f \<and> t' = t \<and> rv_Term a = T)"
| "vote_rpc f t T (VoteReturn f' t' a r) = (f' = f \<and> t' = t \<and> rv_Term a = T)"
| "vote_rpc f t T _ = False"

definition votes_under_way :: "int \<Rightarrow> int \<Rightarrow> int \<Rightarrow> ('c, 'b) rpc multiset \<Rightarrow> nat" where
  "votes_under_way f t T cs = size (filter_mset (vote_rpc f t T) cs)"

text \<open>Calls for votes name their candidate and a term it has reached; a grant in flight was cast.\<close>

fun vote_rpc_ok :: "nat \<Rightarrow> (int \<Rightarrow> int) \<Rightarrow> (int \<times> int \<times> int) set \<Rightarrow> ('c, 'b) rpc \<Rightarrow> bool" where
  "vote_rpc_ok N term V (VoteCall f t a) =
     (CandidateId a = f \<and> f \<in> peer_ids N \<and> t \<in> peer_ids N \<and> t \<noteq> f \<and> rv_Term a \<le> term f)"
| "vote_rpc_ok N term V (VoteReturn f t a r) =
     (CandidateId a = f \<and> f \<in> peer_ids N \<and> t \<in> peer_ids N \<and> t \<noteq> f \<and> rv_Term a \<le> term f \<and>
      (VoteGranted r \<longrightarrow> (t, rv_Term a, f) \<in> V))"
| "vote_rpc_ok N term V _ = True"

abbreviation terms :: "('c, 'b) cluster \<Rightarrow> int \<Rightarrow> int" where
  "terms w n \<equiv> currentTerm (nodes w n)"

definition calls_inv :: "nat \<Rightarrow> (int \<Rightarrow> int \<Rightarrow> int set) \<Rightarrow> ('c, 'b) cluster \<Rightarrow> bool" where
  "calls_inv N C w \<longleftrightarrow>
     (\<forall>m. m \<in># calls w \<longrightarrow> vote_rpc_ok N (terms w) (cast w) m) \<and>
     (\<forall>f t T. votes_under_way f t T (calls w) + (if t \<in> C f T then 1 else 0) \<le> 1)"

definition counted_inv :: "nat \<Rightarrow> (int \<Rightarrow> int \<Rightarrow> int set) \<Rightarrow> ('c, 'b) cluster \<Rightarrow> bool" where
  "counted_inv N C w \<longleftrightarrow>
     (\<forall>f T p. p \<in> C f T \<longrightarrow> (p, T, f) \<in> cast w \<and> p \<noteq> f \<and> p \<in> peer_ids N \<and> T \<le> terms w f)"

definition cast_inv :: "nat \<Rightarrow> ('c, 'b) cluster \<Rightarrow> bool" where
  "cast_inv N w \<longleftrightarrow>
     (\<forall>n T c. (n, T, c) \<in> cast w \<longrightarrow> c \<noteq> -1 \<and> n \<in> peer_ids N \<and> T \<le> terms w n \<and>
        (T = terms w n \<longrightarrow> votedFor (nodes w n) = c)) \<and>
     (\<forall>n T c c'. (n, T, c) \<in> cast w \<longrightarrow> (n, T, c') \<in> cast w \<longrightarrow> c = c')"

definition elected_inv :: "nat \<Rightarrow> ('c, 'b) cluster \<Rightarrow> bool" where
  "elected_inv N w \<longleftrightarrow>
     (\<forall>T n. (T, n) \<in> elected w \<longrightarrow> n \<in> peer_ids N \<and> T \<le> terms w n \<and>
        (\<exists>Q. majority N Q \<and> (\<forall>q\<in>Q. (q, T, n) \<in> cast w)))"

definition node_inv ::
  "nat \<Rightarrow> (int \<Rightarrow> int \<Rightarrow> int set) \<Rightarrow> ('c, 'b) cluster \<Rightarrow> int \<Rightarrow> bool" where
  "node_inv N C w n \<longleftrightarrow> (let rf = nodes w n in
     me rf = n \<and> peers rf = N \<and> durable rf \<and>
     (votedFor rf \<noteq> -1 \<longrightarrow> (n, currentTerm rf, votedFor rf) \<in> cast w) \<and>
     (serverState rf = candidate \<longrightarrow>
        votedFor rf = n \<and> (currentTerm rf, n) \<notin> elected w \<and>
        votesReceived rf = 1 + int (card (C n (currentTerm rf)))) \<and>
     (serverState rf = leader \<longrightarrow> (currentTerm rf, n) \<in> elected w))"

definition election_inv :: "nat \<Rightarrow> (int \<Rightarrow> int \<Rightarrow> int set) \<Rightarrow> ('c, 'b) cluster \<Rightarrow> bool" where
  "election_inv N C w \<longleftrightarrow>
     calls_inv N C w \<and> counted_inv N C w \<and> cast_inv N w \<and> elected_inv N w \<and>
     (\<forall>n \<in> peer_ids N. node_inv N C w n)"

lemmas election_inv_defs =
  election_inv_def calls_inv_def counted_inv_def cast_inv_def elected_inv_def

subsection \<open>The start\<close>

lemma Make_fresh:
  "votedFor (fst (Make N n (MakePersister nil))) = -1"
  "currentTerm (fst (Make N n (MakePersister nil))) = 0"
  by (simp_all add: Make_def readPersist_def MakePersister_def ReadRaftState_def Let_def)

lemma election_inv_init: "election_inv N (\<lambda>_ _. {}) (init_cluster N nil)"
  by (simp add: election_inv_defs node_inv_def init_cluster_def votes_under_way_def Make_fresh
      durable_Make)

subsection \<open>Silent steps\<close>

lemma put_simps [simp]:
  "nodes (put n rf cs w) = (nodes w)(n := rf)" "calls (put n rf cs w) = cs"
  "(T, x) \<in> elected (put n rf cs w) \<longleftrightarrow>
     (T, x) \<in> elected w \<or> serverState rf = leader \<and> T = currentTerm rf \<and> x = n"
  "(v, T, c) \<in> cast (put n rf cs w) \<longleftrightarrow>
     (v, T, c) \<in> cast w \<or> votedFor rf \<noteq> -1 \<and> v = n \<and> T = currentTerm rf \<and> c = votedFor rf"
  by (auto simp: put_def)

lemma vote_rpc_ok_mono:
  assumes "vote_rpc_ok N term V m" "\<And>n. term n \<le> term' n" "V \<subseteq> V'"
  shows "vote_rpc_ok N term' V' m"
  using assms by (cases m) (auto intro: order_trans)

lemma counted_inv_mono:
  assumes "counted_inv N C w" "\<And>n. terms w n \<le> terms w' n" "cast w \<subseteq> cast w'"
  shows "counted_inv N C w'"
  using assms unfolding counted_inv_def by (blast intro: order_trans)

lemma counted_finite: "counted_inv N C w \<Longrightarrow> finite (C f T)"
  by (rule finite_subset [of _ "peer_ids N"]) (auto simp: counted_inv_def)

text \<open>A peer that has not voted for another candidate in a term it has reached may vote in it.\<close>

lemma cast_inv_vote:
  assumes ci: "cast_inv N w" and n: "n \<in> peer_ids N" and T: "terms w n \<le> currentTerm rf'"
    and v: "votedFor rf' \<noteq> -1"
    and same: "terms w n = currentTerm rf' \<Longrightarrow> votedFor (nodes w n) \<in> {-1, votedFor rf'}"
  shows "cast_inv N (put n rf' cs w)"
proof -
  have old: "c \<noteq> -1" "x \<in> peer_ids N" "U \<le> terms w x" "U = terms w x \<Longrightarrow> votedFor (nodes w x) = c"
    "(x, U, c') \<in> cast w \<Longrightarrow> c = c'" if "(x, U, c) \<in> cast w" for x U c c'
    using ci that unfolding cast_inv_def by blast+
  have new: "c = votedFor rf'" if "(n, currentTerm rf', c) \<in> cast w" for c
    using old(1,3,4) [OF that] same T by force
  show ?thesis
    unfolding cast_inv_def
  proof (intro conjI allI impI)
    fix x U c assume "(x, U, c) \<in> cast (put n rf' cs w)"
    then consider "(x, U, c) \<in> cast w" | "x = n" "U = currentTerm rf'" "c = votedFor rf'" by auto
    note split = this
    show "c \<noteq> -1" using split old(1) v by cases auto
    show "x \<in> peer_ids N" using split old(2) n by cases auto
    show "U \<le> terms (put n rf' cs w) x" using split old(3) T by cases force+
    show "votedFor (nodes (put n rf' cs w) x) = c" if "U = terms (put n rf' cs w) x"
      using split that old(4) new by cases (auto split: if_splits)
  next
    fix x U c c' assume "(x, U, c) \<in> cast (put n rf' cs w)" "(x, U, c') \<in> cast (put n rf' cs w)"
    then show "c = c'" using old(5) new by auto
  qed
qed

lemma elected_inv_mono:
  assumes "elected_inv N w" "\<And>n. terms w n \<le> terms w' n" "cast w \<subseteq> cast w'"
    "elected w' = elected w"
  shows "elected_inv N w'"
  using assms unfolding elected_inv_def by (metis order_trans subsetD)

lemma node_inv_put_other:
  assumes "election_inv N C w" "x \<in> peer_ids N" "x \<noteq> n" "C' x = C x"
  shows "node_inv N C' (put n rf cs w) x"
proof -
  have "node_inv N C w x" using assms(1,2) by (simp add: election_inv_def)
  then show ?thesis using assms(3,4) by (simp add: node_inv_def Let_def)
qed

lemma silent_put_history:
  assumes inv: "election_inv N C w" and n: "n \<in> peer_ids N" and s: "silent (nodes w n) rf'"
  shows "cast (put n rf' cs w) = cast w" "elected (put n rf' cs w) = elected w"
    and "terms w x \<le> terms (put n rf' cs w) x"
proof -
  have ni: "node_inv N C w n" using inv n by (simp add: election_inv_def)
  show "cast (put n rf' cs w) = cast w"
    using s ni by (auto simp: put_def silent_def node_inv_def Let_def)
  show "elected (put n rf' cs w) = elected w"
    using s ni by (auto simp: put_def silent_def node_inv_def Let_def)
  show "terms w x \<le> terms (put n rf' cs w) x"
    using s by (auto simp: silent_def)
qed

lemma election_inv_silent:
  assumes inv: "election_inv N C w" and n: "n \<in> peer_ids N"
    and s: "silent (nodes w n) rf'" and d: "durable rf'"
    and ok: "\<And>m. m \<in># cs \<Longrightarrow> vote_rpc_ok N (terms w) (cast w) m"
    and cnt: "\<And>f t T. votes_under_way f t T cs \<le> votes_under_way f t T (calls w)"
  shows "election_inv N C (put n rf' cs w)"
proof -
  let ?w = "put n rf' cs w"
  note hist = silent_put_history [OF inv n s, where cs = cs]
  have ni: "node_inv N C w n" using inv n by (simp add: election_inv_def)
  have "calls_inv N C ?w"
    unfolding calls_inv_def
  proof (intro conjI allI impI)
    fix m assume "m \<in># calls ?w"
    then show "vote_rpc_ok N (terms ?w) (cast ?w) m"
      using ok [of m] hist by (auto intro: vote_rpc_ok_mono)
  next
    fix f t T
    have "votes_under_way f t T (calls w) + (if t \<in> C f T then 1 else 0) \<le> 1"
      using inv by (simp add: election_inv_defs)
    then show "votes_under_way f t T (calls ?w) + (if t \<in> C f T then 1 else 0) \<le> 1"
      using cnt [of f t T] by simp
  qed
  moreover have "counted_inv N C ?w"
    using inv hist by (auto simp: election_inv_def intro: counted_inv_mono)
  moreover have "cast_inv N ?w"
    using inv s unfolding election_inv_def cast_inv_def hist silent_def
    by auto fastforce+
  moreover have "elected_inv N ?w"
    using inv hist by (auto simp: election_inv_def intro: elected_inv_mono)
  moreover have "node_inv N C ?w x" if "x \<in> peer_ids N" for x
  proof (cases "x = n")
    case True
    then show ?thesis using ni s d hist(1,2) by (auto simp: node_inv_def silent_def Let_def)
  next
    case False
    then show ?thesis using node_inv_put_other [OF inv that] by simp
  qed
  ultimately show ?thesis by (simp add: election_inv_def)
qed

subsection \<open>Granting a vote\<close>

lemma RequestVote_cases [consumes 1, case_names refused granted]:
  assumes "RequestVote e rf a = (rf', r)"
  obtains "\<not> VoteGranted r" "silent rf rf'"
  | "VoteGranted r" "currentTerm rf \<le> rv_Term a" "currentTerm rf' = rv_Term a"
      "votedFor rf' = CandidateId a" "me rf' = me rf" "peers rf' = peers rf"
      "votesReceived rf' = votesReceived rf"
      "currentTerm rf = rv_Term a \<Longrightarrow>
         serverState rf' = serverState rf \<and> votedFor rf \<in> {-1, CandidateId a}"
      "currentTerm rf < rv_Term a \<Longrightarrow> serverState rf' = follower"
  using assms
  by (auto simp: RequestVote_def Let_def silent_def split: if_splits)

lemma votes_under_way_simps [simp]:
  "votes_under_way f t T (cs + cs') = votes_under_way f t T cs + votes_under_way f t T cs'"
  "votes_under_way f t T {#m#} = (if vote_rpc f t T m then 1 else 0)"
  "votes_under_way f t T {#} = 0"
  "votes_under_way f t T (add_mset m cs) =
     (if vote_rpc f t T m then Suc (votes_under_way f t T cs) else votes_under_way f t T cs)"
  by (simp_all add: votes_under_way_def)

lemma votes_under_way_remove:
  "m \<in># cs \<Longrightarrow> votes_under_way f t T cs =
     votes_under_way f t T (cs - {#m#}) + (if vote_rpc f t T m then 1 else 0)"
  by (subst insert_DiffM [symmetric, of m cs]) (simp_all del: insert_DiffM)

lemma votes_under_way_remove_le: "votes_under_way f t T (cs - cs') \<le> votes_under_way f t T cs"
  by (simp add: votes_under_way_def size_mset_mono multiset_filter_mono)

lemma election_inv_granted:
  assumes inv: "election_inv N C w" and call: "VoteCall f t a \<in># calls w"
    and rv: "RequestVote e (nodes w t) a = (rf', r)" and g: "VoteGranted r"
  shows "election_inv N C (put t rf' (calls w - {#VoteCall f t a#} + {#VoteReturn f t a r#}) w)"
    (is "election_inv N C ?w")
proof -
  have call_ok: "CandidateId a = f" "f \<in> peer_ids N" "t \<in> peer_ids N" "t \<noteq> f"
    "rv_Term a \<le> terms w f"
    using inv call by (auto simp: election_inv_defs)
  have ni: "node_inv N C w t" using inv call_ok(3) by (simp add: election_inv_def)
  have d: "durable rf'" using rv ni by (auto simp: node_inv_def Let_def dest: durable_RequestVote)
  from rv g have gr: "terms w t \<le> rv_Term a" "currentTerm rf' = rv_Term a" "votedFor rf' = f"
    "me rf' = me (nodes w t)" "peers rf' = peers (nodes w t)"
    "votesReceived rf' = votesReceived (nodes w t)"
    and same: "terms w t = rv_Term a \<Longrightarrow>
      serverState rf' = serverState (nodes w t) \<and> votedFor (nodes w t) \<in> {-1, f}"
    and later: "terms w t < rv_Term a \<Longrightarrow> serverState rf' = follower"
    using call_ok(1) by (auto elim!: RequestVote_cases)
  have f_valid: "f \<noteq> -1" using call_ok(2) by auto
  have state: "serverState rf' = follower \<or>
    terms w t = rv_Term a \<and> serverState rf' = serverState (nodes w t) \<and> serverState rf' \<noteq> candidate"
    using same later gr(1) ni call_ok(4) call_ok(3)
    by (cases "terms w t = rv_Term a") (auto simp: node_inv_def Let_def)
  have el: "elected ?w = elected w"
    using state ni gr(2) by (auto simp: put_def node_inv_def Let_def)
  have mono: "terms w x \<le> terms ?w x" for x
    using gr(1,2) by simp
  have casts: "(v, T, c) \<in> cast ?w \<longleftrightarrow> (v, T, c) \<in> cast w \<or> (v, T, c) = (t, rv_Term a, f)" for v T c
    using gr(2,3) f_valid by auto
  have "calls_inv N C ?w"
    unfolding calls_inv_def
  proof (intro conjI allI impI)
    fix m assume "m \<in># calls ?w"
    then consider "m \<in># calls w" | "m = VoteReturn f t a r" by (auto dest: in_diffD)
    then show "vote_rpc_ok N (terms ?w) (cast ?w) m"
    proof cases
      case 1
      then have "vote_rpc_ok N (terms w) (cast w) m" using inv by (simp add: election_inv_defs)
      then show ?thesis by (rule vote_rpc_ok_mono) (use mono casts in auto)
    next
      case 2
      then show ?thesis using call_ok casts mono [of f] by auto
    qed
  next
    fix f' t' T
    have "votes_under_way f' t' T (calls w) + (if t' \<in> C f' T then 1 else 0) \<le> 1"
      using inv by (simp add: election_inv_defs)
    then show "votes_under_way f' t' T (calls ?w) + (if t' \<in> C f' T then 1 else 0) \<le> 1"
      using votes_under_way_remove [OF call, of f' t' T] by (auto split: if_splits)
  qed
  moreover have "counted_inv N C ?w"
    by (rule counted_inv_mono [of N C w]) (use inv mono casts in \<open>auto simp: election_inv_def\<close>)
  moreover have "cast_inv N ?w"
    by (rule cast_inv_vote) (use inv call_ok(3) gr(1-3) same f_valid in \<open>simp_all add: election_inv_def\<close>)
  moreover have "elected_inv N ?w"
    by (rule elected_inv_mono [of N w]) (use inv mono casts el in \<open>auto simp: election_inv_def\<close>)
  moreover have "node_inv N C ?w x" if "x \<in> peer_ids N" for x
  proof (cases "x = t")
    case True
    then show ?thesis
      using ni d gr state by (auto simp: node_inv_def Let_def el)
  next
    case False
    then show ?thesis using node_inv_put_other [OF inv that] by simp
  qed
  ultimately show ?thesis by (simp add: election_inv_def)
qed

subsection \<open>Starting an election\<close>

lemma doElection_cases [consumes 1, case_names quiet started]:
  assumes "doElection e rf = (rf', ms)"
  obtains "ms = []" "silent rf rf'"
  | "currentTerm rf' = currentTerm rf + 1" "serverState rf' = candidate" "votedFor rf' = me rf"
      "votesReceived rf' = 1" "me rf' = me rf" "peers rf' = peers rf" "durable rf'"
      "ms = map (\<lambda>i. (int i, \<lparr>rv_Term = currentTerm rf + 1, CandidateId = me rf,
             LastLogIndex = lastLogIndex rf, LastLogTerm = lastLogTerm rf\<rparr>))
           (filter (\<lambda>i. int i \<noteq> me rf) [0..<peers rf])"
proof (cases "serverState rf = leader \<or> (\<forall>d. electionDeadline rf = Some d \<longrightarrow> \<not> now e > d)")
  case True
  then have "ms = []" "silent rf rf'"
    using assms by (auto simp: doElection_def silent_def split: option.splits if_splits)
  then show ?thesis using that(1) by blast
next
  case False
  let ?rf1 = "rf\<lparr>currentTerm := currentTerm rf + 1, serverState := candidate,
                 votedFor := me rf, votesReceived := 1\<rparr>"
  have "rf' = resetDeadline e (persist ?rf1)"
    and "ms = map (\<lambda>i. (int i, \<lparr>rv_Term = currentTerm rf + 1, CandidateId = me rf,
             LastLogIndex = lastLogIndex rf, LastLogTerm = lastLogTerm rf\<rparr>))
           (filter (\<lambda>i. int i \<noteq> me rf) [0..<peers rf])"
    using assms False by (auto simp: doElection_def Let_def lastLogIndex_def lastLogTerm_def)
  then show ?thesis using that(2) by simp
qed

lemma votes_under_way_started:
  "votes_under_way f t T (image_mset (\<lambda>i. VoteCall n (int i) a) (mset is)) =
     (if f = n \<and> rv_Term a = T then length (filter (\<lambda>i. int i = t) is) else 0)"
  by (induction "is") auto

lemma length_filter_eq_le: "distinct is \<Longrightarrow> length (filter (\<lambda>i. int i = t) is) \<le> 1"
proof (induction "is")
  case (Cons i "is")
  have "filter (\<lambda>j. int j = int i) is = []"
    using Cons.prems by (auto simp: filter_empty_conv)
  then show ?case using Cons by auto
qed simp

lemma election_inv_started:
  assumes inv: "election_inv N C w" and n: "n \<in> peer_ids N"
    and de: "doElection e (nodes w n) = (rf', ms)" and started: "\<not> silent (nodes w n) rf'"
  shows "election_inv N C (put n rf' (calls w + mset (map (\<lambda>(p, a). VoteCall n p a) ms)) w)"
    (is "election_inv N C ?w")
proof -
  let ?T = "terms w n + 1"
  have ni: "node_inv N C w n" and me: "me (nodes w n) = n" and pN: "peers (nodes w n) = N"
    using inv n by (auto simp: election_inv_def node_inv_def Let_def)
  define a where "a = \<lparr>rv_Term = ?T, CandidateId = n,
    LastLogIndex = lastLogIndex (nodes w n), LastLogTerm = lastLogTerm (nodes w n)\<rparr>"
  define "is" where "is = filter (\<lambda>i. int i \<noteq> n) [0..<N]"
  from de started have el: "currentTerm rf' = ?T" "serverState rf' = candidate" "votedFor rf' = n"
    "votesReceived rf' = 1" "me rf' = n" "peers rf' = N" "durable rf'"
    and ms: "ms = map (\<lambda>i. (int i, a)) is"
    using me pN by (auto simp: a_def is_def elim!: doElection_cases)
  have aT: "rv_Term a = ?T" by (simp add: a_def)
  have mono: "terms w x \<le> terms ?w x" for x
    using el(1) by simp
  have casts: "(v, T, c) \<in> cast ?w \<longleftrightarrow> (v, T, c) \<in> cast w \<or> (v, T, c) = (n, ?T, n)" for v T c
    using el n by auto
  have elw: "elected ?w = elected w"
    using el(2) by (simp add: put_def)
  have fresh: "C n ?T = {}" "(?T, n) \<notin> elected w" "(n, ?T, c) \<notin> cast w" for c
    using inv by (fastforce simp: election_inv_defs)+
  have quiet: "votes_under_way n t ?T (calls w) = 0" for t
  proof -
    have "\<not> vote_rpc n t ?T m" if "m \<in># calls w" for m
      using inv that by (cases m) (fastforce simp: election_inv_defs)+
    then show ?thesis
      by (simp add: votes_under_way_def filter_mset_eq_conv) 
  qed
  have "calls_inv N C ?w"
    unfolding calls_inv_def
  proof (intro conjI allI impI)
    fix m assume "m \<in># calls ?w"
    then consider "m \<in># calls w" | i where "m = VoteCall n (int i) a" "i \<in> set is"
      by (auto simp: ms)
    then show "vote_rpc_ok N (terms ?w) (cast ?w) m"
    proof cases
      case 1
      then have "vote_rpc_ok N (terms w) (cast w) m" using inv by (simp add: election_inv_defs)
      then show ?thesis by (rule vote_rpc_ok_mono) (use mono casts in auto)
    next
      case 2
      then show ?thesis using n el(1) by (auto simp: a_def is_def)
    qed
  next
    fix f t T
    have "votes_under_way f t T (calls w) + (if t \<in> C f T then 1 else 0) \<le> 1"
      using inv by (simp add: election_inv_defs)
    moreover have "length (filter (\<lambda>i. int i = t) is) \<le> 1"
      by (rule length_filter_eq_le) (simp add: is_def)
    ultimately show "votes_under_way f t T (calls ?w) + (if t \<in> C f T then 1 else 0) \<le> 1"
      using quiet [of t] fresh(1) aT
      by (cases "f = n \<and> T = ?T") (auto simp: ms multiset.map_comp comp_def votes_under_way_started)
  qed
  moreover have "counted_inv N C ?w"
    by (rule counted_inv_mono [of N C w]) (use inv mono casts in \<open>auto simp: election_inv_def\<close>)
  moreover have "cast_inv N ?w"
    by (rule cast_inv_vote) (use inv n el(1,3) in \<open>simp_all add: election_inv_def\<close>)
  moreover have "elected_inv N ?w"
    by (rule elected_inv_mono [of N w]) (use inv mono casts elw in \<open>auto simp: election_inv_def\<close>)
  moreover have "node_inv N C ?w x" if "x \<in> peer_ids N" for x
  proof (cases "x = n")
    case True
    then show ?thesis
      using el fresh(1,2) casts by (simp add: node_inv_def Let_def elw)
  next
    case False
    then show ?thesis using node_inv_put_other [OF inv that] by simp
  qed
  ultimately show ?thesis by (simp add: election_inv_def)
qed

subsection \<open>Counting a vote\<close>

lemma handleVoteReply_cases [consumes 1, case_names ignored counted]:
  assumes "handleVoteReply e rf T (Some r) = Some rf'"
  obtains "silent rf rf'"
  | "VoteGranted r" "currentTerm rf = T" "serverState rf = candidate"
      "currentTerm rf' = T" "votedFor rf' = votedFor rf" "me rf' = me rf" "peers rf' = peers rf"
      "votesReceived rf' = votesReceived rf + 1"
      "serverState rf' =
         (if votesReceived rf + 1 > int (peers rf div 2) then leader else candidate)"
  using assms
  by (auto simp: handleVoteReply_def Let_def silent_stepDown split: if_splits
      dest!: initLeaderIndex_arrays)

lemma votes_under_way_pos: "m \<in># cs \<Longrightarrow> vote_rpc f t T m \<Longrightarrow> votes_under_way f t T cs \<ge> 1"
  by (simp add: votes_under_way_remove)

text \<open>A candidate that has counted a majority holds a majority of the votes of its term.\<close>

lemma counted_majority:
  assumes "counted_inv N C w" "f \<in> peer_ids N" "(f, T, f) \<in> cast w"
    and "1 + int (card (C f T)) > int (N div 2)"
  shows "\<exists>Q. majority N Q \<and> (\<forall>q\<in>Q. (q, T, f) \<in> cast w)"
proof -
  have sub: "C f T \<subseteq> peer_ids N" "f \<notin> C f T" "\<forall>q\<in>C f T. (q, T, f) \<in> cast w"
    using assms(1) by (auto simp: counted_inv_def)
  have "finite (C f T)" using assms(1) by (rule counted_finite)
  then have "card (insert f (C f T)) > N div 2"
    using sub(2) assms(4) by simp
  then show ?thesis
    using sub assms(2,3) by (intro exI [of _ "insert f (C f T)"]) (auto simp: majority_def)
qed

lemma election_inv_counted:
  assumes inv: "election_inv N C w" and ret: "VoteReturn f t a r \<in># calls w"
    and h: "handleVoteReply e (nodes w f) (rv_Term a) (Some r) = Some rf'"
    and ns: "\<not> silent (nodes w f) rf'"
  shows "election_inv N (C(f := (C f)(rv_Term a := insert t (C f (rv_Term a)))))
           (put f rf' (calls w - {#VoteReturn f t a r#}) w)"
    (is "election_inv N ?C ?w")
proof -
  let ?T = "rv_Term a"
  have "vote_rpc_ok N (terms w) (cast w) (VoteReturn f t a r)"
    using inv ret by (auto simp: election_inv_def calls_inv_def)
  then have ret_ok: "f \<in> peer_ids N" "t \<in> peer_ids N" "t \<noteq> f"
    and voted: "VoteGranted r \<Longrightarrow> (t, ?T, f) \<in> cast w"
    by auto
  have ni: "node_inv N C w f" using inv ret_ok(1) by (simp add: election_inv_def)
  from h ns have c: "VoteGranted r" "terms w f = ?T" "serverState (nodes w f) = candidate"
    "currentTerm rf' = ?T" "votedFor rf' = votedFor (nodes w f)" "me rf' = me (nodes w f)"
    "peers rf' = peers (nodes w f)" "votesReceived rf' = votesReceived (nodes w f) + 1"
    and st: "serverState rf' =
      (if votesReceived (nodes w f) + 1 > int (peers (nodes w f) div 2) then leader else candidate)"
    by (auto elim!: handleVoteReply_cases)
  have d: "durable rf'" using h ni by (auto simp: node_inv_def Let_def dest: durable_handleVoteReply)
  have mine: "me (nodes w f) = f" "peers (nodes w f) = N" "votedFor (nodes w f) = f"
    "(f, ?T, f) \<in> cast w" "(?T, f) \<notin> elected w"
    "votesReceived (nodes w f) = 1 + int (card (C f ?T))"
    using ni c(2,3) ret_ok(1) by (auto simp: node_inv_def Let_def)
  have casts: "cast ?w = cast w"
    using c(4,5) mine(3,4) by (auto simp: put_def)
  have cnt: "votes_under_way f' t' T (calls w) + (if t' \<in> C f' T then 1 else 0) \<le> 1" for f' t' T
    using inv by (simp add: election_inv_defs)
  have new: "t \<notin> C f ?T" "votes_under_way f t ?T (calls w - {#VoteReturn f t a r#}) = 0"
    using cnt [of f t ?T] votes_under_way_remove [OF ret, of f t ?T] by (auto split: if_splits)
  have "finite (C f ?T)"
    using inv by (auto simp: election_inv_def intro: counted_finite)
  then have card': "card (?C f ?T) = Suc (card (C f ?T))"
    using new(1) by simp
  have old: "(p, U, g) \<in> cast w \<and> p \<noteq> g \<and> p \<in> peer_ids N \<and> U \<le> terms w g" if "p \<in> C g U" for p g U
    using inv that unfolding election_inv_def counted_inv_def by blast
  have cinv: "counted_inv N ?C ?w"
    unfolding counted_inv_def casts
    using old voted [OF c(1)] c(2,4) ret_ok by (auto split: if_splits dest: old)
  have "calls_inv N ?C ?w"
    unfolding calls_inv_def
  proof (intro conjI allI impI)
    fix m assume "m \<in># calls ?w"
    then have "vote_rpc_ok N (terms w) (cast w) m"
      using inv by (auto simp: election_inv_defs dest: in_diffD)
    then show "vote_rpc_ok N (terms ?w) (cast ?w) m"
      by (rule vote_rpc_ok_mono) (use c(2,4) casts in auto)
  next
    fix f' t' T
    show "votes_under_way f' t' T (calls ?w) + (if t' \<in> ?C f' T then 1 else 0) \<le> 1"
    proof (cases "f' = f \<and> t' = t \<and> T = ?T")
      case True
      then show ?thesis using new(2) by simp
    next
      case False
      then have "t' \<in> ?C f' T \<longleftrightarrow> t' \<in> C f' T" by auto
      then show ?thesis
        using cnt [of f' t' T] votes_under_way_remove_le [of f' t' T "calls w" "{#VoteReturn f t a r#}"]
        by simp
    qed
  qed
  moreover have "cast_inv N ?w"
    by (rule cast_inv_vote)
       (use inv c(2,4,5) ret_ok(1) mine(3) in \<open>auto simp: election_inv_def\<close>)
  moreover have "elected_inv N ?w"
  proof -
    have "\<exists>Q. majority N Q \<and> (\<forall>q\<in>Q. (q, ?T, f) \<in> cast ?w)" if "serverState rf' = leader"
      by (rule counted_majority [OF cinv ret_ok(1)])
         (use that st mine card' casts in \<open>auto split: if_splits\<close>)
    moreover have "x \<in> peer_ids N \<and> U \<le> terms w x \<and> (\<exists>Q. majority N Q \<and> (\<forall>q\<in>Q. (q, U, x) \<in> cast w))"
      if "(U, x) \<in> elected w" for U x
      using inv that unfolding election_inv_def elected_inv_def by blast
    ultimately show ?thesis
      using c(2,4) ret_ok(1) unfolding elected_inv_def casts by fastforce
  qed
  moreover have "node_inv N ?C ?w x" if "x \<in> peer_ids N" for x
  proof (cases "x = f")
    case True
    then show ?thesis
      using c mine d st card' by (auto simp: node_inv_def Let_def)
  next
    case False
    then show ?thesis using node_inv_put_other [OF inv that] by simp
  qed
  ultimately show ?thesis using cinv by (simp add: election_inv_def)
qed

subsection \<open>Every step\<close>

fun is_vote :: "('c, 'b) rpc \<Rightarrow> bool" where
  "is_vote (VoteCall f t a) = True"
| "is_vote (VoteReturn f t a r) = True"
| "is_vote _ = False"

lemma not_is_vote: "\<not> is_vote m \<Longrightarrow> \<not> vote_rpc f t T m \<and> vote_rpc_ok N term V m"
  by (cases m) auto

lemma not_is_vote_task [simp]: "\<not> is_vote (task n g)"
  by (cases g) simp_all

lemma votes_under_way_none: "(\<And>m. m \<in># cs \<Longrightarrow> \<not> is_vote m) \<Longrightarrow> votes_under_way f t T cs = 0"
  using not_is_vote [of _ f t T] by (fastforce simp: votes_under_way_def filter_mset_eq_conv)

text \<open>A silent step that takes calls \<open>R\<close> off the network and adds calls \<open>A\<close> other than votes.\<close>

lemma election_inv_silent_calls:
  assumes inv: "election_inv N C w" and n: "n \<in> peer_ids N"
    and s: "silent (nodes w n) rf'" and d: "durable (nodes w n) \<Longrightarrow> durable rf'"
    and A: "\<And>m. m \<in># A \<Longrightarrow> \<not> is_vote m"
  shows "election_inv N C (put n rf' (calls w - R + A) w)"
proof (rule election_inv_silent [OF inv n s])
  show "durable rf'"
    using inv n d by (simp add: election_inv_def node_inv_def Let_def)
  show "vote_rpc_ok N (terms w) (cast w) m" if "m \<in># calls w - R + A" for m
    using that inv A [of m] not_is_vote [of m] by (auto simp: election_inv_defs dest: in_diffD)
  show "votes_under_way f t T (calls w - R + A) \<le> votes_under_way f t T (calls w)" for f t T
    using votes_under_way_remove_le [of f t T "calls w" R] votes_under_way_none [OF A] by simp
qed

lemma election_inv_silent_same:
  assumes "election_inv N C w" "n \<in> peer_ids N" "silent (nodes w n) rf'"
    "durable (nodes w n) \<Longrightarrow> durable rf'"
  shows "election_inv N C (put n rf' (calls w) w)"
  using election_inv_silent_calls [OF assms, of "{#}" "{#}"] by simp

lemma election_inv_silent_add:
  assumes "election_inv N C w" "n \<in> peer_ids N" "silent (nodes w n) rf'"
    "durable (nodes w n) \<Longrightarrow> durable rf'"
  shows "election_inv N C (put n rf' (calls w + mset (map (task n) gs)) w)"
proof -
  have "\<not> is_vote m" if "m \<in># mset (map (task n) gs)" for m using that by auto
  then have "election_inv N C (put n rf' (calls w - {#} + mset (map (task n) gs)) w)"
    by (intro election_inv_silent_calls [OF assms])
  then show ?thesis by simp
qed

lemma election_inv_silent_drop:
  assumes "election_inv N C w" "n \<in> peer_ids N" "silent (nodes w n) rf'"
    "durable (nodes w n) \<Longrightarrow> durable rf'"
  shows "election_inv N C (put n rf' (calls w - R) w)"
  using election_inv_silent_calls [OF assms, of "{#}" R] by simp

lemma election_inv_refused:
  assumes inv: "election_inv N C w" and call: "VoteCall f t a \<in># calls w"
    and rv: "RequestVote e (nodes w t) a = (rf', r)"
    and s: "silent (nodes w t) rf'" and ng: "\<not> VoteGranted r"
  shows "election_inv N C (put t rf' (calls w - {#VoteCall f t a#} + {#VoteReturn f t a r#}) w)"
proof -
  have ok: "vote_rpc_ok N (terms w) (cast w) m" if "m \<in># calls w" for m
    using inv that by (auto simp: election_inv_def calls_inv_def)
  note call_ok = ok [OF call]
  then have t: "t \<in> peer_ids N" by simp
  show ?thesis
  proof (rule election_inv_silent [OF inv t s])
    show "durable rf'"
      using inv t rv by (auto simp: election_inv_def node_inv_def Let_def dest: durable_RequestVote)
    show "vote_rpc_ok N (terms w) (cast w) m"
      if "m \<in># calls w - {#VoteCall f t a#} + {#VoteReturn f t a r#}" for m
      using that ok [of m] call_ok ng by (auto dest: in_diffD)
    show "votes_under_way f' t' T (calls w - {#VoteCall f t a#} + {#VoteReturn f t a r#})
        \<le> votes_under_way f' t' T (calls w)" for f' t' T
      using votes_under_way_remove [OF call, of f' t' T] by simp
  qed
qed

lemma election_inv_lose:
  assumes "election_inv N C w"
  shows "election_inv N C (w\<lparr>calls := calls w - {#m#}\<rparr>)"
proof -
  have "votes_under_way f t T (calls w - {#m#}) + (if t \<in> C f T then 1 else 0) \<le> 1" for f t T
  proof -
    have "votes_under_way f t T (calls w) + (if t \<in> C f T then 1 else 0) \<le> 1"
      using assms by (simp add: election_inv_defs)
    then show ?thesis using votes_under_way_remove_le [of f t T "calls w" "{#m#}"] by simp
  qed
  then show ?thesis
    using assms unfolding election_inv_def calls_inv_def counted_inv_def cast_inv_def
      elected_inv_def node_inv_def by (auto dest: in_diffD)
qed

lemma silent_Kill: "silent rf (Kill rf)" "durable rf \<Longrightarrow> durable (Kill rf)"
  by (simp_all add: Kill_def silent_def)

lemma silent_tickFollower:
  "tickFollower e rf = (rf', b) \<Longrightarrow> silent rf rf'"
  "tickFollower e rf = (rf', b) \<Longrightarrow> durable rf \<Longrightarrow> durable rf'"
  by (auto simp: tickFollower_def silent_def split: option.splits)

lemmas silent_steps =
  silent_AppendEntries silent_InstallSnapshot silent_Snapshot silent_Start
  silent_processAppendEntriesReply silent_sendInstallSnapshot_reply silent_BackgroundApply
  silent_Kill silent_tickFollower

lemma election_inv_step:
  assumes "cluster_step N w w'" and inv: "election_inv N C w"
  shows "\<exists>C'. election_inv N C' w'"
  using assms(1)
proof cases
  case (tick_follower n e rf' b)
  show ?thesis
    unfolding tick_follower(1)
    using election_inv_silent_same [OF inv tick_follower(2) silent_tickFollower(1) [OF tick_follower(3)]
        silent_tickFollower(2) [OF tick_follower(3)]] by blast
next
  case (election n e rf' ms)
  show ?thesis
  proof (cases "silent (nodes w n) rf'")
    case True
    with election(3) have "ms = []" by (cases rule: doElection_cases) (auto simp: silent_def)
    with election_inv_silent_same [OF inv election(2) True durable_doElection [OF election(3)]]
    show ?thesis unfolding election(1) by auto
  next
    case False
    then show ?thesis using election election_inv_started [OF inv] by blast
  qed
next
  case (vote_request f t a e rf' r)
  show ?thesis
    using vote_request(3)
    by (cases rule: RequestVote_cases)
       (use vote_request election_inv_refused [OF inv] election_inv_granted [OF inv] in blast)+
next
  case (vote_reply f t a r e rf')
  show ?thesis
  proof (cases "silent (nodes w f) rf'")
    case True
    have "f \<in> peer_ids N"
      using inv vote_reply(2) by (auto simp: election_inv_defs)
    then show ?thesis
      using vote_reply election_inv_silent_drop [OF inv _ True] durable_handleVoteReply by metis
  next
    case False
    then show ?thesis using vote_reply election_inv_counted [OF inv] by blast
  qed
next
  case (start n c rf' res gs)
  show ?thesis
    unfolding start(1)
    using election_inv_silent_add [OF inv start(2) silent_Start [OF start(3)]
        durable_Start [OF start(3)]] by blast
next
  case (heartbeat n gs)
  show ?thesis
    unfolding heartbeat(1)
    using election_inv_silent_add [OF inv heartbeat(2) silent_refl] by blast
next
  case (append_request f t a e rf' r)
  have "\<not> is_vote m" if "m \<in># {#AppendReturn f t a r#}" for m using that by simp
  from election_inv_silent_calls [OF inv append_request(3) silent_AppendEntries durable_AppendEntries this,
      OF append_request(4,4)]
  show ?thesis unfolding append_request(1) by blast
next
  case (append_reply f t a r e rf')
  show ?thesis
    unfolding append_reply(1)
    using election_inv_silent_drop [OF inv append_reply(3) silent_processAppendEntriesReply
        durable_processAppendEntriesReply, OF append_reply(4,4)] by blast
next
  case (snapshot_send n p a)
  have "\<not> is_vote m" if "m \<in># {#SnapshotCall n p a#}" for m using that by simp
  from election_inv_silent_calls [OF inv snapshot_send(3) silent_refl _ this]
  show ?thesis unfolding snapshot_send(1) by blast
next
  case (snapshot_request f t a rf' r d)
  have "\<not> is_vote m" if "m \<in># {#SnapshotReturn f t a r#}" for m using that by simp
  from election_inv_silent_calls [OF inv snapshot_request(3) silent_InstallSnapshot
      durable_InstallSnapshot this, OF snapshot_request(4,4)]
  show ?thesis unfolding snapshot_request(1) by blast
next
  case (snapshot_reply f t a r e rf')
  show ?thesis
    unfolding snapshot_reply(1)
    using election_inv_silent_drop [OF inv snapshot_reply(3) silent_sendInstallSnapshot_reply
        durable_sendInstallSnapshot_reply, OF snapshot_reply(4,4)] by blast
next
  case (compact n i s rf')
  show ?thesis
    unfolding compact(1)
    using election_inv_silent_same [OF inv compact(2) silent_Snapshot durable_Snapshot,
        OF compact(3,3)] by blast
next
  case (apply_entry n nil rf' m)
  show ?thesis
    unfolding apply_entry(1)
    using election_inv_silent_same [OF inv apply_entry(2) silent_BackgroundApply
        durable_BackgroundApply, OF apply_entry(3,3)] by blast
next
  case (kill n)
  show ?thesis
    unfolding kill(1) using election_inv_silent_same [OF inv kill(2) silent_Kill] by blast
next
  case (restart n)
  have "me (nodes w n) = n" "peers (nodes w n) = N" "durable (nodes w n)"
    using inv restart(2) by (auto simp: election_inv_def node_inv_def Let_def)
  then have "silent (nodes w n) (fst (Make N n (persister (nodes w n))))"
    using silent_restart [of "nodes w n"] by simp
  from election_inv_silent_same [OF inv restart(2) this durable_Make]
  show ?thesis unfolding restart(1) by blast
next
  case (lose m)
  then show ?thesis using election_inv_lose [OF inv] by blast
qed

lemma election_inv_reachable: "reachable N w \<Longrightarrow> \<exists>C. election_inv N C w"
  by (induction rule: reachable.induct) (blast intro: election_inv_init election_inv_step)+

subsection \<open>Election safety\<close>

lemma elected_unique:
  assumes "election_inv N C w" "(T, a) \<in> elected w" "(T, b) \<in> elected w"
  shows "a = b"
proof -
  obtain Q Q' where "majority N Q" "\<forall>q\<in>Q. (q, T, a) \<in> cast w"
    and "majority N Q'" "\<forall>q\<in>Q'. (q, T, b) \<in> cast w"
    using assms unfolding election_inv_def elected_inv_def by blast
  moreover have "c = c'" if "(p, T, c) \<in> cast w" "(p, T, c') \<in> cast w" for p c c'
    using assms(1) that unfolding election_inv_def cast_inv_def by blast
  ultimately show ?thesis
    using maj.backed_unique [of "{(p, c). (p, T, c) \<in> cast w}" N Q a Q' b] by auto
qed

lemma put_elected_mono: "elected w \<subseteq> elected (put n rf cs w)"
  by (auto simp: put_def)

lemma cluster_step_elected: "cluster_step N w w' \<Longrightarrow> elected w \<subseteq> elected w'"
  by (cases rule: cluster_step.cases) (use put_elected_mono in fastforce)+

lemma cluster_steps_elected: "(cluster_step N)\<^sup>*\<^sup>* w w' \<Longrightarrow> elected w \<subseteq> elected w'"
  by (induction rule: rtranclp_induct) (blast dest: cluster_step_elected)+

lemma cluster_steps_reachable: "(cluster_step N)\<^sup>*\<^sup>* w w' \<Longrightarrow> reachable N w \<Longrightarrow> reachable N w'"
  by (induction rule: rtranclp_induct) (blast intro: reachable.step)+

lemma leader_elected:
  assumes "reachable N w" "n \<in> peer_ids N" "serverState (nodes w n) = leader"
  shows "(currentTerm (nodes w n), n) \<in> elected w"
proof -
  obtain C where "election_inv N C w" using election_inv_reachable [OF assms(1)] ..
  then show ?thesis using assms(2,3) by (auto simp: election_inv_def node_inv_def Let_def)
qed

lemma put_cast_mono: "cast w \<subseteq> cast (put n rf cs w)"
  by (auto simp: put_def)

lemma cluster_step_cast: "cluster_step N w w' \<Longrightarrow> cast w \<subseteq> cast w'"
  by (cases rule: cluster_step.cases) (use put_cast_mono in fastforce)+

lemma cluster_steps_cast: "(cluster_step N)\<^sup>*\<^sup>* w w' \<Longrightarrow> cast w \<subseteq> cast w'"
  by (induction rule: rtranclp_induct) (blast dest: cluster_step_cast)+

text \<open>A peer becomes leader only when a reply to a vote request is returned to it.\<close>

definition no_coup :: "('c, 'b) Raft \<Rightarrow> ('c, 'b) Raft \<Rightarrow> bool" where
  "no_coup rf rf' \<longleftrightarrow> (serverState rf' = leader \<longrightarrow> serverState rf = leader)"

lemma no_coup_silent: "silent rf rf' \<Longrightarrow> no_coup rf rf'"
  by (auto simp: silent_def no_coup_def)

lemma no_coup_votes:
  "RequestVote e rf a = (rf', r) \<Longrightarrow> no_coup rf rf'"
  "doElection e rf = (rf', ms) \<Longrightarrow> no_coup rf rf'"
  "no_coup rf (fst (Make n i ps))"
  by (auto simp: RequestVote_def doElection_def no_coup_def Let_def split: if_splits option.splits)

lemma new_leader:
  assumes "cluster_step N w w'" "serverState (nodes w' x) = leader" "serverState (nodes w x) \<noteq> leader"
  shows "\<exists>t a r. VoteReturn x t a r \<in># calls w"
proof -
  have put: "n = x \<and> \<not> no_coup (nodes w n) rf'" if "w' = put n rf' cs w" for n rf' cs
    using that assms(2,3) by (auto simp: no_coup_def split: if_splits)
  show ?thesis
    using assms(1)
  proof cases
    case (vote_reply f t a r e rf')
    then show ?thesis using put by blast
  next
    case (lose m)
    then show ?thesis using assms(2,3) by simp
  qed (metis put no_coup_silent no_coup_votes silent_refl silent_steps)+
qed

lemma vote_return_ids:
  "election_inv N C w \<Longrightarrow> VoteReturn f t a r \<in># calls w \<Longrightarrow>
     f \<in> peer_ids N \<and> t \<in> peer_ids N \<and> t \<noteq> f"
  by (auto simp: election_inv_def calls_inv_def)

text \<open>A leader now and a leader of the same term later are one peer.\<close>

lemma leader_unique:
  assumes "reachable N w" and "(cluster_step N)\<^sup>*\<^sup>* w w'"
    and "a \<in> peer_ids N" and "serverState (nodes w a) = leader"
    and "b \<in> peer_ids N" and "serverState (nodes w' b) = leader"
    and "currentTerm (nodes w a) = currentTerm (nodes w' b)"
  shows "a = b"
proof -
  have r': "reachable N w'" using cluster_steps_reachable [OF assms(2,1)] .
  obtain C where "election_inv N C w'" using election_inv_reachable [OF r'] ..
  moreover have "(currentTerm (nodes w' b), a) \<in> elected w'"
    using leader_elected [OF assms(1,3,4)] cluster_steps_elected [OF assms(2)] assms(7) by auto
  moreover have "(currentTerm (nodes w' b), b) \<in> elected w'"
    by (rule leader_elected [OF r' assms(5,6)])
  ultimately show ?thesis by (rule elected_unique)
qed

end
