(* ===== verification/Raft_Log_Matching.thy ===== *)
theory Raft_Log_Matching
  imports Raft_Election
begin

text \<open>
  Log matching: two peers whose logs hold an entry of the same term at the same index hold the same
  entries at every earlier index that both still keep.

  The invariant speaks of whole logs, compacted prefixes included: \<open>F n\<close> is the whole log of peer
  \<open>n\<close>, whose first \<^verbatim>\<open>lastIncludedIndex\<close> entries are no longer stored, and \<open>L T\<close> the log of the
  leader of term \<open>T\<close>, as far as that leader extended it. Every log, and every log a message was cut
  from, is at each of its entries a prefix of the log of the leader that created the entry.
\<close>

definition good ::
  "(int \<times> int) set \<Rightarrow> (int \<Rightarrow> 'c LogEntry list) \<Rightarrow> 'c LogEntry list \<Rightarrow> bool" where
  "good E L G \<longleftrightarrow>
     (\<forall>i < length G. take (Suc i) (L (Term (G ! i))) = take (Suc i) G \<and>
        (\<exists>l. (Term (G ! i), l) \<in> E))"

text \<open>A stored log is the whole log without its compacted prefix, whose last term is remembered.\<close>

definition stores :: "('c, 'b) Raft \<Rightarrow> 'c LogEntry list \<Rightarrow> bool" where
  "stores rf G \<longleftrightarrow>
     0 \<le> lastIncludedIndex rf \<and> lastIncludedIndex rf \<le> int (length G) \<and>
     log rf = drop (nat (lastIncludedIndex rf)) G \<and>
     lastIncludedTerm rf =
       (if lastIncludedIndex rf = 0 then 0 else Term (G ! nat (lastIncludedIndex rf - 1)))"

fun log_rpc_ok :: "(int \<times> int) set \<Rightarrow> (int \<Rightarrow> 'c LogEntry list) \<Rightarrow> ('c, 'b) rpc \<Rightarrow> bool" where
  "log_rpc_ok E L (AppendCall f t a) =
     (\<exists>G. good E L G \<and> 0 \<le> PrevLogIndex a \<and> PrevLogIndex a \<le> int (length G) \<and>
        Entries a = drop (nat (PrevLogIndex a)) G \<and>
        PrevLogTerm a =
          (if PrevLogIndex a = 0 then 0 else Term (G ! nat (PrevLogIndex a - 1))))"
| "log_rpc_ok E L (SnapshotCall f t a) =
     (\<exists>G. good E L G \<and> is_LastIncludedIndex a = int (length G) \<and>
        (G \<noteq> [] \<longrightarrow> is_LastIncludedTerm a = Term (last G)))"
| "log_rpc_ok E L _ = True"

definition log_inv ::
  "nat \<Rightarrow> (int \<Rightarrow> 'c LogEntry list) \<Rightarrow> (int \<Rightarrow> 'c LogEntry list) \<Rightarrow> ('c, 'b) cluster \<Rightarrow> bool" where
  "log_inv N L F w \<longleftrightarrow>
     (\<forall>T. good (elected w) L (L T)) \<and>
     (\<forall>n \<in> peer_ids N. good (elected w) L (F n) \<and> stores (nodes w n) (F n) \<and>
        (serverState (nodes w n) = leader \<longrightarrow> F n = L (currentTerm (nodes w n)))) \<and>
     (\<forall>m. m \<in># calls w \<longrightarrow> log_rpc_ok (elected w) L m)"

subsection \<open>Whole logs\<close>

lemma good_Nil [simp]: "good E L []"
  by (simp add: good_def)

lemma good_agree:
  assumes "good E L G" "good E L H" "i < length G" "i < length H" "Term (G ! i) = Term (H ! i)"
  shows "take (Suc i) G = take (Suc i) H"
  using assms unfolding good_def by metis

lemma good_take: "good E L G \<Longrightarrow> good E L (take k G)"
  by (auto simp: good_def min_def)

lemma good_mono:
  assumes "good E L G" "E \<subseteq> E'"
    and "\<And>T l k. (T, l) \<in> E \<Longrightarrow> k \<le> length (L T) \<Longrightarrow> take k (L' T) = take k (L T)"
  shows "good E' L' G"
  unfolding good_def
proof (intro allI impI conjI)
  fix i assume i: "i < length G"
  with assms(1) obtain l where g: "take (Suc i) (L (Term (G ! i))) = take (Suc i) G"
    and l: "(Term (G ! i), l) \<in> E" by (auto simp: good_def)
  from g i have "Suc i \<le> length (L (Term (G ! i)))"
    by (metis Suc_leI length_take min.absorb2 min.cobounded1)
  with assms(3) [OF l] g show "take (Suc i) (L' (Term (G ! i))) = take (Suc i) G" by metis
  from l assms(2) show "\<exists>l. (Term (G ! i), l) \<in> E'" by blast
qed

text \<open>A log extended by its term's leader, with the leader's own log extended alike.\<close>

lemma good_snoc:
  assumes "good E L G" "(T, l) \<in> E" "L T = G" "Term x = T"
  shows "good E (L(T := G @ [x])) (G @ [x])"
proof -
  have "good E (L(T := G @ [x])) G"
    using assms by (auto intro: good_mono)
  moreover have "take (Suc i) (G @ [x]) = take (Suc i) G" if "i < length G" for i
    using that by simp
  ultimately show ?thesis
    using assms(2,4) by (auto simp: good_def nth_append less_Suc_eq)
qed

lemma log_rpc_ok_mono:
  assumes "log_rpc_ok E L m" "\<And>G. good E L G \<Longrightarrow> good E' L' G"
  shows "log_rpc_ok E' L' m"
  using assms by (cases m) (auto, blast+)

subsection \<open>Cutting messages from a log and pasting them into one\<close>

lemma stores_nth:
  assumes "stores rf G" "lastIncludedIndex rf < i" "i \<le> lastLogIndex rf"
  shows "log rf ! nat (i - lastIncludedIndex rf - 1) = G ! nat (i - 1)" "nat (i - 1) < length G"
proof -
  let ?k = "nat (lastIncludedIndex rf)"
  have "nat (i - 1) = ?k + nat (i - lastIncludedIndex rf - 1)" "?k \<le> length G"
    using assms by (auto simp: stores_def)
  moreover have "nat (i - lastIncludedIndex rf - 1) < length G - ?k"
    using assms by (auto simp: stores_def lastLogIndex_def)
  ultimately show "log rf ! nat (i - lastIncludedIndex rf - 1) = G ! nat (i - 1)"
    "nat (i - 1) < length G"
    using assms(1) by (auto simp: stores_def)
qed

lemma stores_lastLogIndex: "stores rf G \<Longrightarrow> lastLogIndex rf = int (length G)"
  by (auto simp: stores_def lastLogIndex_def)

lemma replicateTo_ok:
  assumes "stores rf G" "good E L G" "replicateTo rf p = Some g"
  shows "log_rpc_ok E L (task n g)"
proof (cases g)
  case (GoAppendEntries q a)
  define i where "i = PrevLogIndex a"
  from assms(3) GoAppendEntries have i: "lastIncludedIndex rf \<le> i"
    and ents: "go_slice_from (log rf) (i - lastIncludedIndex rf) = Some (Entries a)"
    and pt: "(if i > lastIncludedIndex rf
       then map_option Term (go_index (log rf) (i - lastIncludedIndex rf - 1))
       else Some (lastIncludedTerm rf)) = Some (PrevLogTerm a)"
    by (auto simp: replicateTo_def Let_def i_def algebra_simps split: if_splits bind_splits)
  have "i - lastIncludedIndex rf \<le> int (length (log rf))"
    and es: "Entries a = drop (nat (i - lastIncludedIndex rf)) (log rf)"
    using ents by (auto simp: go_slice_from_eq_Some)
  then have le: "i \<le> lastLogIndex rf" by (simp add: lastLogIndex_def)
  have "Entries a = drop (nat i) G"
    using es assms(1) i by (simp add: stores_def nat_add_distrib [symmetric])
  moreover have "PrevLogTerm a = (if i = 0 then 0 else Term (G ! nat (i - 1)))"
    using pt i le stores_nth(1) [OF assms(1) _ le] assms(1)
    by (auto simp: go_index_eq_Some stores_def split: if_splits)
  ultimately show ?thesis
    using assms(1,2) i le stores_lastLogIndex [OF assms(1)]
    unfolding GoAppendEntries i_def by (auto simp: stores_def intro!: exI [of _ G])
qed simp

lemma replicateAll_ok:
  assumes "stores rf G" "good E L G" "replicateAll rf is = Some gs" "g \<in> set gs"
  shows "log_rpc_ok E L (task n g)"
  using assms(3,4)
  by (induction "is" arbitrary: gs)
     (auto split: if_splits bind_splits intro: replicateTo_ok [OF assms(1,2)])

lemma snapshot_args_ok:
  assumes "stores rf G" "good E L G" "sendInstallSnapshot_args rf = Some a"
  shows "log_rpc_ok E L (SnapshotCall n p a)"
proof -
  obtain k where k: "lastIncludedIndex rf = int k" "k \<le> length G"
    using assms(1) by (auto simp: stores_def elim: nonneg_int_cases)
  have "good E L (take k G)" using assms(2) by (rule good_take)
  then show ?thesis
    using assms(1,3) k
    by (auto simp: sendInstallSnapshot_args_def stores_def last_conv_nth
        split: if_splits intro!: exI [of _ "take k G"])
qed

lemma stores_cong:
  "log rf' = log rf \<Longrightarrow> lastIncludedIndex rf' = lastIncludedIndex rf \<Longrightarrow>
     lastIncludedTerm rf' = lastIncludedTerm rf \<Longrightarrow> stores rf' G = stores rf G"
  by (simp add: stores_def)

lemma AppendEntries_stores:
  assumes st: "stores rf G" and gG: "good E L G" and ok: "log_rpc_ok E L (AppendCall f t a)"
    and ae: "AppendEntries e rf a = Some (rf', r)"
  shows "\<exists>H. good E L H \<and> stores rf' H \<and> (serverState rf' = leader \<longrightarrow> rf' = rf \<and> H = G)"
  using ae
proof (cases rule: AppendEntries_cases)
  case stale
  then show ?thesis using st gG by blast
next
  case (rejected rf1)
  then have "stores rf' G" "serverState rf' = follower" using st by (simp_all add: stores_def)
  then show ?thesis using gG by auto
next
  case (accepted rf1)
  let ?i = "PrevLogIndex a" and ?k = "lastIncludedIndex rf"
  obtain H where H: "good E L H" "?i \<le> int (length H)" "Entries a = drop (nat ?i) H"
    and pt: "PrevLogTerm a = (if ?i = 0 then 0 else Term (H ! nat (?i - 1)))"
    using ok by auto
  have st1: "stores rf1 G" using st accepted(1) by (simp add: stores_def)
  have k: "0 \<le> ?k" "?k \<le> ?i" "?i \<le> int (length G)"
    using st accepted(1,3,4) stores_lastLogIndex [OF st1] by (auto simp: stores_def)
  have same: "take (nat ?i) G = take (nat ?i) H"
  proof (cases "?i = 0")
    case False
    have "PrevLogTerm a = Term (G ! nat (?i - 1))"
    proof (cases "?i = ?k")
      case True
      then show ?thesis using accepted(1,5) st False by (simp add: stores_def)
    next
      case neq: False
      then show ?thesis
        using accepted(1,4,6) k stores_nth(1) [OF st1, of ?i] by simp
    qed
    then have "Term (G ! nat (?i - 1)) = Term (H ! nat (?i - 1))" using pt False by simp
    moreover have "nat (?i - 1) < length G" "nat (?i - 1) < length H" "Suc (nat (?i - 1)) = nat ?i"
      using k H(2) False by auto
    ultimately show ?thesis using good_agree [OF gG H(1)] by metis
  qed simp
  note f = acceptEntries_fields [OF accepted(3,4,7)]
  have "log rf' = drop (nat ?k) (take (nat ?i) G) @ drop (nat ?i) H"
    using f(12) accepted(1) H(3) st k by (simp add: stores_def drop_take nat_diff_distrib)
  then have "log rf' = drop (nat ?k) H"
    unfolding same using k by (simp add: drop_take_drop)
  moreover have "?k = 0 \<or> G ! nat (?k - 1) = H ! nat (?k - 1)"
    using arg_cong [OF same, of "\<lambda>l. l ! nat (?k - 1)"] k by (cases "?k = 0") auto
  ultimately have "stores rf' H"
    using f(7,8) accepted(1) st k H(2) by (auto simp: stores_def)
  moreover have "serverState rf' = follower" using f(5) accepted(1) by simp
  ultimately show ?thesis using H(1) by auto
qed

lemma InstallSnapshot_stores:
  assumes st: "stores rf G" and gG: "good E L G" and ok: "log_rpc_ok E L (SnapshotCall f t a)"
    and snap: "InstallSnapshot rf a = (rf', r, d)"
  shows "\<exists>H. good E L H \<and> stores rf' H \<and> (serverState rf' = leader \<longrightarrow> rf' = rf \<and> H = G)"
proof -
  obtain H where H: "good E L H" "is_LastIncludedIndex a = int (length H)"
    "H \<noteq> [] \<longrightarrow> is_LastIncludedTerm a = Term (last H)"
    using ok by auto
  consider "rf' = rf" | "rf' = adoptTerm (is_Term a) rf"
    | "log rf' = []" "lastIncludedIndex rf' = is_LastIncludedIndex a"
      "lastIncludedTerm rf' = is_LastIncludedTerm a" "serverState rf' = follower"
      "is_LastIncludedIndex a > lastIncludedIndex rf"
    using snap by (auto simp: InstallSnapshot_def Let_def split: if_splits)
  then show ?thesis
  proof cases
    case 1
    then show ?thesis using st gG by blast
  next
    case 2
    then have "stores rf' G" "serverState rf' = follower" using st by (simp_all add: stores_def)
    then show ?thesis using gG by auto
  next
    case 3
    have "H \<noteq> []" using 3(5) H(2) st by (auto simp: stores_def)
    then have "stores rf' H"
      using 3 H(2,3) by (auto simp: stores_def last_conv_nth nat_diff_distrib)
    then show ?thesis using H(1) 3(4) by auto
  qed
qed

lemma Snapshot_stores:
  assumes "stores rf G" "Snapshot rf i s = Some rf'"
  shows "stores rf' G"
proof (cases "i > lastApplied rf \<or> i \<le> lastIncludedIndex rf")
  case True
  then show ?thesis using assms by (simp add: Snapshot_def)
next
  case False
  let ?k = "lastIncludedIndex rf"
  from assms(2) False have rf': "log rf' = drop (nat (i - ?k)) (log rf)" "lastIncludedIndex rf' = i"
    "lastIncludedTerm rf' = Term (log rf ! nat (i - ?k - 1))" and le: "i - ?k \<le> int (length (log rf))"
    by (auto simp: Snapshot_def Let_def SaveSnapshot_def go_slice_eqs split: if_splits bind_splits)
  have "i \<le> lastLogIndex rf" using le by (simp add: lastLogIndex_def)
  then show ?thesis
    using rf' False assms(1) stores_nth [OF assms(1), of i] stores_lastLogIndex [OF assms(1)]
    by (auto simp: stores_def nat_add_distrib [symmetric])
qed

subsection \<open>Steps\<close>

text \<open>Steps that leave the log alone and do not make a leader.\<close>

definition log_kept :: "('c, 'b) Raft \<Rightarrow> ('c, 'b) Raft \<Rightarrow> bool" where
  "log_kept rf rf' \<longleftrightarrow>
     log rf' = log rf \<and> lastIncludedIndex rf' = lastIncludedIndex rf \<and>
     lastIncludedTerm rf' = lastIncludedTerm rf \<and>
     (serverState rf' = leader \<longrightarrow> serverState rf = leader \<and> currentTerm rf' = currentTerm rf)"

lemma log_kept_steps:
  "log_kept rf rf"
  "tickFollower e rf = (rf', b) \<Longrightarrow> log_kept rf rf'"
  "doElection e rf = (rf', ms) \<Longrightarrow> log_kept rf rf'"
  "RequestVote e rf rv = (rf', r) \<Longrightarrow> log_kept rf rf'"
  "BackgroundApply nil rf = Some (Applied rf' m) \<Longrightarrow> log_kept rf rf'"
  "log_kept rf (Kill rf)"
  "durable rf \<Longrightarrow> log_kept rf (fst (Make (peers rf) (me rf) (persister rf)))"
  by (auto simp: log_kept_def tickFollower_def doElection_def RequestVote_def BackgroundApply_def
      Kill_def durable_def persistent_def Let_def split: option.splits if_splits bind_splits)

lemma log_kept_processAppendEntriesReply:
  "processAppendEntriesReply e rf p t pi ent reply = Some rf' \<Longrightarrow> log_kept rf rf'"
  by (auto simp: processAppendEntriesReply_def Let_def log_kept_def
      split: if_splits bind_splits dest!: advanceCommit_commit)

lemma log_kept_sendInstallSnapshot_reply:
  "sendInstallSnapshot_reply e rf p args reply = Some rf' \<Longrightarrow> log_kept rf rf'"
  by (auto simp: sendInstallSnapshot_reply_def Let_def log_kept_def
      split: if_splits bind_splits dest!: advanceCommit_commit)

text \<open>
  The general step of one peer: its new whole log is \<open>H\<close>, the leaders' logs become \<open>L'\<close>, which
  agrees with \<open>L\<close> wherever a good log looks.
\<close>

lemma log_inv_put:
  assumes inv: "log_inv N L F w"
    and keep: "\<And>G. good (elected w) L G \<Longrightarrow> good (elected (put n rf' cs w)) L' G"
    and LL: "\<And>T. L' T = L T \<or> good (elected (put n rf' cs w)) L' (L' T)"
    and H: "good (elected (put n rf' cs w)) L' H" "stores rf' H"
    and lead: "serverState rf' = leader \<Longrightarrow> H = L' (currentTerm rf')"
    and others: "\<And>x. x \<in> peer_ids N \<Longrightarrow> x \<noteq> n \<Longrightarrow> serverState (nodes w x) = leader \<Longrightarrow>
      L' (currentTerm (nodes w x)) = L (currentTerm (nodes w x))"
    and cs: "\<And>m. m \<in># cs \<Longrightarrow> m \<in># calls w \<or> log_rpc_ok (elected (put n rf' cs w)) L' m"
  shows "log_inv N L' (F(n := H)) (put n rf' cs w)"
  unfolding log_inv_def
proof (intro conjI ballI allI impI)
  fix T
  have "good (elected w) L (L T)" using inv by (simp add: log_inv_def)
  then show "good (elected (put n rf' cs w)) L' (L' T)" using keep LL [of T] by auto
next
  fix x assume "x \<in> peer_ids N"
  then show "good (elected (put n rf' cs w)) L' ((F(n := H)) x)"
    and "stores (nodes (put n rf' cs w) x) ((F(n := H)) x)"
    using inv keep H by (auto simp: log_inv_def)
next
  fix x assume "x \<in> peer_ids N" "serverState (nodes (put n rf' cs w) x) = leader"
  then show "(F(n := H)) x = L' (currentTerm (nodes (put n rf' cs w) x))"
    using inv lead others by (cases "x = n") (auto simp: log_inv_def)
next
  fix m assume "m \<in># calls (put n rf' cs w)"
  then show "log_rpc_ok (elected (put n rf' cs w)) L' m"
    using cs [of m] inv keep by (auto simp: log_inv_def intro: log_rpc_ok_mono)
qed

lemma put_elected: "elected w \<subseteq> elected (put n rf cs w)"
  by (auto simp: put_def)

lemma log_inv_same_leaders:
  assumes inv: "log_inv N L F w" and n: "n \<in> peer_ids N"
    and H: "good (elected w) L H" "stores rf' H"
    and lead: "serverState rf' = leader \<Longrightarrow>
      serverState (nodes w n) = leader \<and> currentTerm rf' = currentTerm (nodes w n) \<and> H = F n"
    and cs: "\<And>m. m \<in># cs \<Longrightarrow> m \<in># calls w \<or> log_rpc_ok (elected w) L m"
  shows "\<exists>L' F'. log_inv N L' F' (put n rf' cs w)"
proof -
  have keep: "good (elected (put n rf' cs w)) L G" if "good (elected w) L G" for G
    using that put_elected by (rule good_mono) simp
  have "log_inv N L (F(n := H)) (put n rf' cs w)"
  proof (rule log_inv_put [OF inv keep])
    show "serverState rf' = leader \<Longrightarrow> H = L (currentTerm rf')"
      using lead inv n by (auto simp: log_inv_def)
    show "m \<in># calls w \<or> log_rpc_ok (elected (put n rf' cs w)) L m" if "m \<in># cs" for m
      using cs [OF that] keep by (auto intro: log_rpc_ok_mono)
  qed (use keep H in auto)
  then show ?thesis by blast
qed

lemma log_inv_kept:
  assumes inv: "log_inv N L F w" and n: "n \<in> peer_ids N" and kept: "log_kept (nodes w n) rf'"
    and cs: "\<And>m. m \<in># cs \<Longrightarrow> m \<in># calls w \<or> log_rpc_ok (elected w) L m"
  shows "\<exists>L' F'. log_inv N L' F' (put n rf' cs w)"
  using inv n cs kept
  by (intro log_inv_same_leaders [OF inv n, of "F n"])
     (auto simp: log_inv_def log_kept_def stores_def)

lemma log_inv_start:
  assumes inv: "log_inv N L F w" and ei: "election_inv N C w" and n: "n \<in> peer_ids N"
    and start: "Start (nodes w n) c = Some (rf', res, gs)"
  shows "\<exists>L' F'. log_inv N L' F' (put n rf' (calls w + mset (map (task n) gs)) w)"
proof (cases "serverState (nodes w n) = leader")
  case False
  with start have "rf' = nodes w n" "gs = []" by (auto simp: Start_def)
  then show ?thesis using log_inv_kept [OF inv n log_kept_steps(1)] by auto
next
  case True
  let ?rf = "nodes w n" and ?cs = "calls w + mset (map (task n) gs)"
  let ?T = "currentTerm ?rf" and ?x = "\<lparr>Term = currentTerm ?rf, Index = 0, Command = c\<rparr>"
  from start True obtain mi where
    rf': "rf' = persist (?rf\<lparr>log := log ?rf @ [?x], matchIndex := mi\<rparr>)"
    and gs: "replicateAll (?rf\<lparr>log := log ?rf @ [?x], matchIndex := mi\<rparr>) [0..<peers ?rf] = Some gs"
    by (auto simp: Start_def Let_def split: bind_splits)
  have F: "good (elected w) L (F n)" "stores ?rf (F n)" "L ?T = F n"
    using inv n True by (auto simp: log_inv_def)
  have el: "(?T, n) \<in> elected w"
    using ei n True by (auto simp: election_inv_def node_inv_def Let_def)
  define L' where "L' = L(?T := F n @ [?x])"
  have E: "elected (put n rf' ?cs w) = elected w"
    using el rf' True by (auto simp: put_def)
  have keep: "good (elected w) L' G" if "good (elected w) L G" for G
    using that by (rule good_mono) (auto simp: L'_def F(3))
  have snoc: "good (elected w) L' (F n @ [?x])"
    unfolding L'_def by (rule good_snoc [OF F(1) el F(3)]) simp
  have st: "stores (?rf\<lparr>log := log ?rf @ [?x], matchIndex := mi\<rparr>) (F n @ [?x])"
    using F(2) by (auto simp: stores_def nth_append)
  have "log_inv N L' (F(n := F n @ [?x])) (put n rf' ?cs w)"
  proof (rule log_inv_put [OF inv])
    show "stores rf' (F n @ [?x])" using st by (simp add: rf' stores_def)
    show "L' T = L T \<or> good (elected (put n rf' ?cs w)) L' (L' T)" for T
      using snoc E by (simp add: L'_def)
    show "L' (currentTerm (nodes w y)) = L (currentTerm (nodes w y))"
      if "y \<in> peer_ids N" "y \<noteq> n" "serverState (nodes w y) = leader" for y
    proof -
      have "(currentTerm (nodes w y), y) \<in> elected w"
        using ei that by (auto simp: election_inv_def node_inv_def Let_def)
      then have "currentTerm (nodes w y) \<noteq> ?T" using elected_unique [OF ei _ el] that(2) by auto
      then show ?thesis by (simp add: L'_def)
    qed
    show "m \<in># calls w \<or> log_rpc_ok (elected (put n rf' ?cs w)) L' m" if "m \<in># ?cs" for m
      using that replicateAll_ok [OF st snoc gs, of _ n] unfolding E by auto
  qed (use keep snoc E rf' in \<open>auto simp: L'_def\<close>)
  then show ?thesis by blast
qed

lemma log_inv_vote_reply:
  assumes inv: "log_inv N L F w" and ei: "election_inv N C w" and f: "f \<in> peer_ids N"
    and ei': "election_inv N C' (put f rf' (calls w - {#m#}) w)"
    and h: "handleVoteReply e (nodes w f) T (Some r) = Some rf'"
  shows "\<exists>L' F'. log_inv N L' F' (put f rf' (calls w - {#m#}) w)"
proof -
  let ?w' = "put f rf' (calls w - {#m#}) w"
  have logs: "log rf' = log (nodes w f)" "lastIncludedIndex rf' = lastIncludedIndex (nodes w f)"
    "lastIncludedTerm rf' = lastIncludedTerm (nodes w f)"
    and new: "serverState rf' = leader \<Longrightarrow>
      log_kept (nodes w f) rf' \<or> serverState (nodes w f) = candidate \<and> currentTerm rf' = T \<and>
        currentTerm (nodes w f) = T"
    using h by (auto simp: handleVoteReply_def Let_def log_kept_def split: if_splits
        dest!: initLeaderIndex_arrays)
  show ?thesis
  proof (cases "serverState rf' = leader \<and> \<not> log_kept (nodes w f) rf'")
    case False
    then have "log_kept (nodes w f) rf'" using logs by (auto simp: log_kept_def)
    then show ?thesis by (rule log_inv_kept [OF inv f]) (auto dest: in_diffD)
  next
    case True
    then have cand: "serverState (nodes w f) = candidate" "currentTerm rf' = T"
      "currentTerm (nodes w f) = T" and lead: "serverState rf' = leader"
      using new by auto
    have E: "elected w \<subseteq> elected ?w'" "(T, f) \<in> elected ?w'"
      using put_elected lead cand(2) by auto
    have fresh: "(T, x) \<notin> elected w" for x
    proof
      assume x: "(T, x) \<in> elected w"
      with E have "x = f" using elected_unique [OF ei' _ E(2)] by auto
      with x cand(1,3) ei f show False by (auto simp: election_inv_def node_inv_def Let_def)
    qed
    define L' where "L' = L(T := F f)"
    have keep: "good (elected ?w') L' G" if "good (elected w) L G" for G
      using that E(1) by (rule good_mono) (use fresh in \<open>auto simp: L'_def\<close>)
    have F: "good (elected w) L (F f)" "stores (nodes w f) (F f)"
      using inv f by (auto simp: log_inv_def)
    have "log_inv N L' (F(f := F f)) ?w'"
    proof (rule log_inv_put [OF inv keep])
      show "L' (currentTerm (nodes w y)) = L (currentTerm (nodes w y))"
        if "y \<in> peer_ids N" "y \<noteq> f" "serverState (nodes w y) = leader" for y
      proof -
        have "(currentTerm (nodes w y), y) \<in> elected w"
          using ei that by (auto simp: election_inv_def node_inv_def Let_def)
        then show ?thesis using fresh by (auto simp: L'_def)
      qed
    qed (use keep F logs cand lead in \<open>auto simp: L'_def stores_def dest: in_diffD\<close>)
    then show ?thesis by blast
  qed
qed

lemma log_inv_step:
  assumes step: "cluster_step N w w'" and inv: "log_inv N L F w" and ei: "election_inv N C w"
  shows "\<exists>L' F'. log_inv N L' F' w'"
proof -
  obtain C' where ei': "election_inv N C' w'" using election_inv_step [OF step ei] ..
  have F: "good (elected w) L (F n)" "stores (nodes w n) (F n)" if "n \<in> peer_ids N" for n
    using inv that by (auto simp: log_inv_def)
  have ok: "log_rpc_ok (elected w) L m" if "m \<in># calls w" for m
    using inv that by (auto simp: log_inv_def)
  have ids: "f \<in> peer_ids N" "t \<in> peer_ids N"
    if "VoteCall f t a \<in># calls w \<or> VoteReturn f t a r \<in># calls w" for f t a r
    using ei that by (auto simp: election_inv_def calls_inv_def)
  note kept = log_inv_kept [OF inv]
  show ?thesis
    using step
  proof cases
    case (tick_follower n e rf' b)
    show ?thesis
      unfolding tick_follower(1)
      by (rule kept [OF tick_follower(2) log_kept_steps(2) [OF tick_follower(3)]]) simp
  next
    case (election n e rf' ms)
    show ?thesis
      unfolding election(1)
      by (rule kept [OF election(2) log_kept_steps(3) [OF election(3)]]) auto
  next
    case (vote_request f t a e rf' r)
    show ?thesis
      unfolding vote_request(1)
      by (rule kept [OF ids(2) log_kept_steps(4) [OF vote_request(3)]])
         (use vote_request(2) in \<open>auto dest: in_diffD\<close>)
  next
    case (vote_reply f t a r e rf')
    then show ?thesis using log_inv_vote_reply [OF inv ei ids(1)] ei' by blast
  next
    case (start n c rf' res gs)
    then show ?thesis using log_inv_start [OF inv ei] by blast
  next
    case (heartbeat n gs)
    have "log_rpc_ok (elected w) L (task n g)" if "g \<in> set gs" for g
      by (rule replicateAll_ok [OF F(2,1) [OF heartbeat(2)] _ that])
         (use heartbeat(3) in \<open>simp add: ticker_leader_def\<close>)
    then show ?thesis
      unfolding heartbeat(1) by (intro kept [OF heartbeat(2) log_kept_steps(1)]) auto
  next
    case (append_request f t a e rf' r)
    obtain H where "good (elected w) L H" "stores rf' H"
      "serverState rf' = leader \<longrightarrow> rf' = nodes w t \<and> H = F t"
      using AppendEntries_stores [OF F(2,1) ok append_request(4)] append_request(2,3) by blast
    then show ?thesis
      unfolding append_request(1)
      by (intro log_inv_same_leaders [OF inv append_request(3), of H]) (auto dest: in_diffD)
  next
    case (append_reply f t a r e rf')
    show ?thesis
      unfolding append_reply(1)
      by (rule kept [OF append_reply(3) log_kept_processAppendEntriesReply [OF append_reply(4)]])
         (auto dest: in_diffD)
  next
    case (snapshot_send n p a)
    have "log_rpc_ok (elected w) L (SnapshotCall n p a)"
      by (rule snapshot_args_ok [OF F(2,1) [OF snapshot_send(3)] snapshot_send(4)])
    then show ?thesis
      unfolding snapshot_send(1)
      by (intro kept [OF snapshot_send(3) log_kept_steps(1)]) (auto dest: in_diffD)
  next
    case (snapshot_request f t a rf' r d)
    obtain H where "good (elected w) L H" "stores rf' H"
      "serverState rf' = leader \<longrightarrow> rf' = nodes w t \<and> H = F t"
      using InstallSnapshot_stores [OF F(2,1) ok snapshot_request(4)] snapshot_request(2,3) by blast
    then show ?thesis
      unfolding snapshot_request(1)
      by (intro log_inv_same_leaders [OF inv snapshot_request(3), of H]) (auto dest: in_diffD)
  next
    case (snapshot_reply f t a r e rf')
    show ?thesis
      unfolding snapshot_reply(1)
      by (rule kept [OF snapshot_reply(3) log_kept_sendInstallSnapshot_reply [OF snapshot_reply(4)]])
         (auto dest: in_diffD)
  next
    case (compact n i s rf')
    have "serverState rf' = serverState (nodes w n)" "currentTerm rf' = currentTerm (nodes w n)"
      using compact(3) by (auto simp: Snapshot_def Let_def split: if_splits bind_splits)
    then show ?thesis
      unfolding compact(1)
      by (intro log_inv_same_leaders [OF inv compact(2) F(1) Snapshot_stores [OF F(2) compact(3)]])
         (use compact(2) in auto)
  next
    case (apply_entry n nil rf' m)
    show ?thesis
      unfolding apply_entry(1)
      by (rule kept [OF apply_entry(2) log_kept_steps(5) [OF apply_entry(3)]]) simp
  next
    case (kill n)
    show ?thesis unfolding kill(1) by (rule kept [OF kill(2) log_kept_steps(6)]) simp
  next
    case (restart n)
    have "me (nodes w n) = n" "peers (nodes w n) = N" "durable (nodes w n)"
      using ei restart(2) by (auto simp: election_inv_def node_inv_def Let_def)
    then have "log_kept (nodes w n) (fst (Make N n (persister (nodes w n))))"
      using log_kept_steps(7) [of "nodes w n"] by simp
    then show ?thesis unfolding restart(1) by (intro kept [OF restart(2)]) simp_all
  next
    case (lose m)
    then have "log_inv N L F w'" using inv by (auto simp: log_inv_def dest: in_diffD)
    then show ?thesis by blast
  qed
qed

lemma log_inv_init: "log_inv N (\<lambda>_. []) (\<lambda>_. []) (init_cluster N nil)"
  by (simp add: log_inv_def init_cluster_def stores_def Make_def readPersist_def MakePersister_def
      ReadRaftState_def Let_def)

lemma log_inv_reachable: "reachable N w \<Longrightarrow> \<exists>L F. log_inv N L F w"
proof (induction rule: reachable.induct)
  case (init nil)
  show ?case by (intro exI) (rule log_inv_init)
next
  case (step w w')
  obtain C where "election_inv N C w" using election_inv_reachable [OF step.hyps(1)] ..
  then show ?case using log_inv_step [OF step.hyps(2)] step.IH by blast
qed

subsection \<open>Log matching\<close>

text \<open>The entry a peer stores at a Raft index, if it still does.\<close>

definition entry_at :: "('c, 'b) Raft \<Rightarrow> int \<Rightarrow> 'c LogEntry option" where
  "entry_at rf i =
     (if lastIncludedIndex rf < i \<and> i \<le> lastLogIndex rf
      then Some (log rf ! nat (i - lastIncludedIndex rf - 1)) else None)"

lemma entry_at_stores:
  "stores rf G \<Longrightarrow> entry_at rf i = Some x \<Longrightarrow>
     0 < i \<and> nat (i - 1) < length G \<and> x = G ! nat (i - 1)"
  using stores_nth [of rf G i] by (auto simp: entry_at_def stores_def split: if_splits)

lemma good_same_below:
  assumes "good E L G" "good E L H" "i < length G" "i < length H" "Term (G ! i) = Term (H ! i)"
    "j \<le> i"
  shows "G ! j = H ! j"
proof -
  have "take (Suc i) G ! j = take (Suc i) H ! j" using good_agree [OF assms(1-5)] by simp
  then show ?thesis using assms(6) by simp
qed

lemma entries_agree:
  assumes "reachable N w" and "a \<in> peer_ids N" and "b \<in> peer_ids N"
    and "entry_at (nodes w a) i = Some x" and "entry_at (nodes w b) i = Some y"
    and "Term x = Term y" and "j \<le> i"
    and "entry_at (nodes w a) j = Some u" and "entry_at (nodes w b) j = Some v"
  shows "u = v"
proof -
  obtain L F where "log_inv N L F w" using log_inv_reachable [OF assms(1)] by blast
  then have F: "good (elected w) L (F n)" "stores (nodes w n) (F n)" if "n \<in> peer_ids N" for n
    using that by (auto simp: log_inv_def)
  note Fa = F [OF assms(2)] and Fb = F [OF assms(3)]
  note xa = entry_at_stores [OF Fa(2) assms(4)] and yb = entry_at_stores [OF Fb(2) assms(5)]
    and ua = entry_at_stores [OF Fa(2) assms(8)] and vb = entry_at_stores [OF Fb(2) assms(9)]
  have "nat (j - 1) \<le> nat (i - 1)" using assms(7) by simp
  then have "F a ! nat (j - 1) = F b ! nat (j - 1)"
    using good_same_below [OF Fa(1) Fb(1)] xa yb assms(6) by blast
  then show ?thesis using ua vb by simp
qed

end
