(* ===== verification/Raft_Sample.thy ===== *)
theory Raft_Sample
  imports Raft_Log_Matching
begin

text \<open>
  A run of a cluster of three peers, step by step: peer 0 sets its election timer, times out, is
  voted for by peer 1, becomes leader of term 1, accepts a command and replicates it to peer 1. It
  shows that the hypotheses of the cluster theorems are met by states the cluster reaches.
\<close>

definition t0 :: env where "t0 = \<lparr>now = 0, rnd = 0\<rparr>"
definition t1 :: env where "t1 = \<lparr>now = 1000, rnd = 7\<rparr>"

definition w0 :: "(nat, unit) cluster" where
  "w0 = init_cluster 3 ()"

definition w1 :: "(nat, unit) cluster" where
  "w1 = put 0 (fst (tickFollower t0 (nodes w0 0))) (calls w0) w0"

definition w2 :: "(nat, unit) cluster" where
  "w2 = put 0 (fst (doElection t1 (nodes w1 0)))
     (calls w1 + mset (map (\<lambda>(p, a). VoteCall 0 p a) (snd (doElection t1 (nodes w1 0))))) w1"

definition vote0 :: RequestVoteArgs where
  "vote0 = \<lparr>rv_Term = 1, CandidateId = 0, LastLogIndex = 0, LastLogTerm = 0\<rparr>"

definition w3 :: "(nat, unit) cluster" where
  "w3 = put 1 (fst (RequestVote t1 (nodes w2 1) vote0))
     (calls w2 - {#VoteCall 0 1 vote0#} +
      {#VoteReturn 0 1 vote0 (snd (RequestVote t1 (nodes w2 1) vote0))#}) w2"

definition grant0 :: RequestVoteReply where
  "grant0 = \<lparr>rvr_Term = 1, VoteGranted = True\<rparr>"

definition w4 :: "(nat, unit) cluster" where
  "w4 = put 0 (the (handleVoteReply t1 (nodes w3 0) 1 (Some grant0)))
     (calls w3 - {#VoteReturn 0 1 vote0 grant0#}) w3"

definition w5 :: "(nat, unit) cluster" where
  "w5 = (case the (Start (nodes w4 0) 42) of (rf', res, gs) \<Rightarrow>
     put 0 rf' (calls w4 + mset (map (task 0) gs)) w4)"

definition append0 :: "nat AppendEntriesArgs" where
  "append0 = \<lparr>ae_Term = 1, PrevLogIndex = 0, PrevLogTerm = 0,
     Entries = [\<lparr>Term = 1, Index = 0, Command = 42\<rparr>], LeaderCommit = 0\<rparr>"

definition w6 :: "(nat, unit) cluster" where
  "w6 = (case the (AppendEntries t1 (nodes w5 1) append0) of (rf', r) \<Rightarrow>
     put 1 rf' (calls w5 - {#AppendCall 0 1 append0#} + {#AppendReturn 0 1 append0 r#}) w5)"

lemmas eval_defs =
  tickFollower_def doElection_def RequestVote_def handleVoteReply_def resetDeadline_def
  persist_def SaveRaftState_def lastLogIndex_def lastLogTerm_def Let_def t0_def t1_def
  initLeaderIndex_def go_set_def vote0_def grant0_def randomElectionTimeout_def

lemma upt_three: "[0..<3] = [0, 1, 2::nat]"
  by code_simp

lemma init_node:
  "fst (Make N i (MakePersister nil)) =
     \<lparr>peers = N, persister = \<lparr>raftstate = [], snapshot = nil\<rparr>, me = i, dead = False,
      currentTerm = 0, votedFor = -1, log = [], commitIndex = 0, lastApplied = 0,
      lastIncludedIndex = 0, lastIncludedTerm = 0, serverState = follower,
      nextIndex = replicate N 0, matchIndex = replicate N 0, electionDeadline = None,
      votesReceived = 0\<rparr>"
  by (simp add: Make_def readPersist_def MakePersister_def ReadRaftState_def Let_def)

lemma w0_eval: "nodes w0 n = fst (Make 3 n (MakePersister ()))" "calls w0 = {#}"
  by (simp_all add: w0_def init_cluster_def)

lemma step1: "cluster_step 3 w0 w1"
  unfolding w1_def by (rule cluster_step.tick_follower [OF _ prod.collapse [symmetric]]) simp

lemma w1_eval:
  "nodes w1 0 = (fst (Make 3 0 (MakePersister ())))\<lparr>electionDeadline := Some 250\<rparr>"
  "nodes w1 1 = fst (Make 3 1 (MakePersister ()))" "calls w1 = {#}"
  by (simp_all add: w1_def w0_eval eval_defs init_node)

lemma step2: "cluster_step 3 w1 w2"
  unfolding w2_def by (rule cluster_step.election [OF _ prod.collapse [symmetric]]) simp

lemma requests0: "snd (doElection t1 (nodes w1 0)) = [(1, vote0), (2, vote0)]"
  by (simp add: w1_eval doElection_def init_node Let_def t1_def lastLogIndex_def
      lastLogTerm_def vote0_def upt_three)

lemma w2_eval:
  "nodes w2 0 = resetDeadline t1 (persist ((fst (Make 3 0 (MakePersister ())))
     \<lparr>currentTerm := 1, serverState := candidate, votedFor := 0, votesReceived := 1,
      electionDeadline := Some 250\<rparr>))"
  "nodes w2 1 = fst (Make 3 1 (MakePersister ()))"
  "calls w2 = {#VoteCall 0 1 vote0, VoteCall 0 2 vote0#}"
  by (simp_all add: w2_def requests0 w1_eval(2,3))
     (simp add: w1_eval doElection_def init_node Let_def t1_def)

lemma step3: "cluster_step 3 w2 w3"
  unfolding w3_def
  by (rule cluster_step.vote_request [OF _ prod.collapse [symmetric]]) (simp add: w2_eval)

lemma w3_eval:
  "nodes w3 0 = nodes w2 0" "calls w3 = {#VoteCall 0 2 vote0, VoteReturn 0 1 vote0 grant0#}"
  "nodes w3 1 = resetDeadline t1 ((persist ((fst (Make 3 1 (MakePersister ())))
     \<lparr>currentTerm := 1, votedFor := 0\<rparr>)))"
  by (simp_all add: w3_def w2_eval init_node eval_defs)

lemma step4: "cluster_step 3 w3 w4"
proof -
  have "handleVoteReply t1 (nodes w3 0) (rv_Term vote0) (Some grant0) =
    Some (the (handleVoteReply t1 (nodes w3 0) 1 (Some grant0)))"
    by (simp add: w3_eval w2_eval init_node eval_defs numeral_3_eq_3)
  then show ?thesis
    unfolding w4_def by (rule cluster_step.vote_reply [rotated]) (simp add: w3_eval)
qed

lemma w4_eval:
  "nodes w4 0 = (nodes w2 0)\<lparr>serverState := leader, votesReceived := 2,
     nextIndex := [1, 1, 1], matchIndex := [0, 0, 0]\<rparr>"
  "nodes w4 1 = nodes w3 1" "calls w4 = {#VoteCall 0 2 vote0#}"
  by (simp_all add: w4_def w3_eval w2_eval init_node eval_defs numeral_3_eq_3)

lemma reachable_w4: "reachable 3 w4"
proof -
  have "reachable 3 w0" unfolding w0_def by (rule reachable.init)
  then show ?thesis using step1 step2 step3 step4 by (blast intro: reachable.step)
qed

lemma start_eval:
  "Start (nodes w4 0) 42 =
     Some (persist ((nodes w4 0)\<lparr>log := [\<lparr>Term = 1, Index = 0, Command = 42\<rparr>],
              matchIndex := [1, 0, 0]\<rparr>),
           (1, 1, True), [GoAppendEntries 1 append0, GoAppendEntries 2 append0])"
  by (simp add: w4_eval w2_eval init_node Start_def Let_def go_set_def go_index_def
      go_slice_from_def replicateTo_def lastLogIndex_def append0_def upt_three)

lemma step5: "cluster_step 3 w4 w5"
  unfolding w5_def start_eval option.sel prod.case
  by (rule cluster_step.start [OF _ start_eval]) simp

lemma w5_eval:
  "nodes w5 1 = nodes w3 1" "AppendCall 0 1 append0 \<in># calls w5"
  "nodes w5 0 = persist ((nodes w4 0)\<lparr>log := [\<lparr>Term = 1, Index = 0, Command = 42\<rparr>],
              matchIndex := [1, 0, 0]\<rparr>)"
  unfolding w5_def start_eval option.sel prod.case by (simp_all add: w4_eval(2))

lemma append_eval:
  "AppendEntries t1 (nodes w5 1) append0 =
     Some (resetDeadline t1 (persist ((nodes w3 1)\<lparr>serverState := follower, log := [\<lparr>Term = 1, Index = 0, Command = 42\<rparr>]\<rparr>)),
       \<lparr>aer_Term = 1, Success = True, XTerm = 0, XIndex = 0, XLen = 0\<rparr>)"
  by (simp add: w5_eval w3_eval init_node AppendEntries_def acceptEntries_def adoptTerm_def
      append0_def Let_def lastLogIndex_def go_slice_to_def)

lemma step6: "cluster_step 3 w5 w6"
  unfolding w6_def append_eval option.sel prod.case
  by (rule cluster_step.append_request [OF w5_eval(2) _ append_eval]) simp

lemma reachable_w6: "reachable 3 w6"
  using reachable_w4 step5 step6 by (blast intro: reachable.step)

lemma w6_eval:
  "log (nodes w6 0) = [\<lparr>Term = 1, Index = 0, Command = 42\<rparr>]"
  "log (nodes w6 1) = [\<lparr>Term = 1, Index = 0, Command = 42\<rparr>]"
  "lastIncludedIndex (nodes w6 0) = 0" "lastIncludedIndex (nodes w6 1) = 0"
  "serverState (nodes w6 0) = leader" "currentTerm (nodes w6 0) = 1" "currentTerm (nodes w6 1) = 1"
  "votedFor (nodes w6 1) = 0"
  unfolding w6_def append_eval option.sel prod.case
  by (simp_all add: w5_eval w4_eval w3_eval w2_eval init_node)

end
