(* ===== verification/Raft_Theorems.thy ===== *)
theory Raft_Theorems
  imports Raft_Sample
begin

text \<open>
  The theorems about the Raft cluster: elections, votes, logs and crash recovery, each with a
  witness on the sample run.
\<close>

subsection \<open>Elections\<close>

text \<open>
  C1. Election safety. If peer \<open>a\<close> is leader in some state of a cluster and peer \<open>b\<close> is leader of
  the same term in that or any later state, however messages are delayed, reordered or lost and
  however peers crash and restart in between, then \<open>a\<close> and \<open>b\<close> are the same peer.
\<close>

theorem election_safety:
  assumes "reachable N w" and "(cluster_step N)\<^sup>*\<^sup>* w w'"
    and "a \<in> peer_ids N" and "serverState (nodes w a) = leader"
    and "b \<in> peer_ids N" and "serverState (nodes w' b) = leader"
    and "currentTerm (nodes w a) = currentTerm (nodes w' b)"
  shows "a = b"
  by (rule leader_unique [OF assms])

theorem election_safety_witness:
  "\<exists>w :: (nat, unit) cluster. reachable 3 w \<and> serverState (nodes w 0) = leader \<and>
     currentTerm (nodes w 0) = 1 \<and>
     (\<forall>b. b \<in> peer_ids 3 \<longrightarrow> serverState (nodes w b) = leader \<longrightarrow> currentTerm (nodes w b) = 1 \<longrightarrow> b = 0)"
proof -
  have "\<forall>b. b \<in> peer_ids 3 \<longrightarrow> serverState (nodes w6 b) = leader \<longrightarrow> currentTerm (nodes w6 b) = 1 \<longrightarrow> b = 0"
    using election_safety [OF reachable_w6 rtranclp.rtrancl_refl, of 0] w6_eval by auto
  then show ?thesis using reachable_w6 w6_eval by blast
qed

text \<open>
  One vote per term. A peer that has voted in a term never holds another vote in the same term,
  not even after crashing and starting again from its persister.
\<close>

lemma one_vote_per_term:
  assumes "reachable N w" and "(cluster_step N)\<^sup>*\<^sup>* w w'" and "n \<in> peer_ids N"
    and "votedFor (nodes w n) \<noteq> -1" and "votedFor (nodes w' n) \<noteq> -1"
    and "currentTerm (nodes w n) = currentTerm (nodes w' n)"
  shows "votedFor (nodes w n) = votedFor (nodes w' n)"
proof -
  obtain C C' where inv: "election_inv N C w" "election_inv N C' w'"
    using election_inv_reachable assms(1) cluster_steps_reachable [OF assms(2,1)] by blast
  have "(n, currentTerm (nodes w n), votedFor (nodes w n)) \<in> cast w'"
    using inv(1) assms(3,4) cluster_steps_cast [OF assms(2)]
    by (auto simp: election_inv_def node_inv_def Let_def)
  moreover have "(n, currentTerm (nodes w' n), votedFor (nodes w' n)) \<in> cast w'"
    using inv(2) assms(3,5) by (auto simp: election_inv_def node_inv_def Let_def)
  ultimately show ?thesis
    using inv(2) assms(6) unfolding election_inv_def cast_inv_def by metis
qed

text \<open>
  C40. A cluster of one server never has a leader: a candidate looks at its votes only when another
  server's reply arrives.
\<close>

theorem single_server_no_leader:
  assumes "reachable 1 w"
  shows "serverState (nodes w 0) \<noteq> leader"
proof
  assume "serverState (nodes w 0) = leader"
  with assms show False
  proof (induction rule: reachable.induct)
    case (init nil)
    then show ?case by (simp add: init_cluster_def)
  next
    case (step w w')
    obtain C where "election_inv 1 C w" using election_inv_reachable [OF step.hyps(1)] ..
    moreover obtain t a r where "VoteReturn 0 t a r \<in># calls w"
      using new_leader [OF step.hyps(2)] step.prems step.IH by blast
    ultimately show ?case using vote_return_ids by fastforce
  qed
qed

theorem single_server_no_leader_witness:
  "reachable 1 (init_cluster 1 () :: (nat, unit) cluster) \<and>
   serverState (nodes (init_cluster 1 () :: (nat, unit) cluster) 0) \<noteq> leader"
proof
  show "reachable 1 (init_cluster 1 () :: (nat, unit) cluster)" by (rule reachable.init)
  then show "serverState (nodes (init_cluster 1 () :: (nat, unit) cluster) 0) \<noteq> leader"
    by (rule single_server_no_leader)
qed

subsection \<open>Logs\<close>

text \<open>
  C2. Log matching. If two peers of a cluster hold an entry of the same term at the same index, then
  at every index up to it that both still store they hold the same entry, term and command alike.
\<close>

theorem log_matching:
  assumes "reachable N w" and "a \<in> peer_ids N" and "b \<in> peer_ids N"
    and "entry_at (nodes w a) i = Some x" and "entry_at (nodes w b) i = Some y"
    and "Term x = Term y" and "j \<le> i"
    and "entry_at (nodes w a) j = Some u" and "entry_at (nodes w b) j = Some v"
  shows "u = v"
  by (rule entries_agree [OF assms])

theorem log_matching_witness:
  "reachable 3 w6 \<and> entry_at (nodes w6 0) 1 = entry_at (nodes w6 1) 1"
proof -
  let ?e = "\<lparr>Term = 1, Index = 0, Command = 42 :: nat\<rparr>"
  have e: "entry_at (nodes w6 0) 1 = Some ?e" "entry_at (nodes w6 1) 1 = Some ?e"
    by (simp_all add: entry_at_def lastLogIndex_def w6_eval)
  have "u = v" if "entry_at (nodes w6 0) 1 = Some u" "entry_at (nodes w6 1) 1 = Some v" for u v
    by (rule log_matching [OF reachable_w6 _ _ e refl order_refl that]) simp_all
  then show ?thesis using e reachable_w6 by simp
qed

text \<open>
  C25. Crash recovery. Whenever a peer of a cluster is started again from its persister, it comes back
  with the vote, term, log and snapshot position it had: every section that changes them has
  persisted them before it lets go of the lock.
\<close>

theorem crash_recovery:
  assumes "reachable N w" and "n \<in> peer_ids N"
  shows "persistent (fst (Make N n (persister (nodes w n)))) = persistent (nodes w n)"
proof -
  obtain C where "election_inv N C w" using election_inv_reachable [OF assms(1)] ..
  then have "durable (nodes w n)" "peers (nodes w n) = N" "me (nodes w n) = n"
    using assms(2) by (auto simp: election_inv_def node_inv_def Let_def)
  then show ?thesis by (simp add: durable_def)
qed

theorem crash_recovery_witness:
  "reachable 3 w6 \<and> log (nodes w6 1) \<noteq> [] \<and>
   persistent (fst (Make 3 1 (persister (nodes w6 1)))) = persistent (nodes w6 1)"
  using crash_recovery [OF reachable_w6, of 1] reachable_w6 w6_eval by simp

end
