(* ===== verification/Lab_Rpc.thy ===== *)
theory Lab_Rpc
  imports Go_Prelude
begin

text \<open>
  The simulated network of \<^verbatim>\<open>src/src/labrpc/labrpc.go\<close>: services, servers, the network with its
  connections, and the life of a request as a step relation.

  Names of ends and servers are of any types. A \<^verbatim>\<open>*Server\<close> is an address, because \<^verbatim>\<open>IsServerDead\<close>
  compares pointers. A service method takes the decoded arguments and the state of the program behind
  the service, and returns a reply and a new state; the gob encoder and decoder are parameters. \<open>None\<close> is
  \<^verbatim>\<open>log.Fatalf\<close> or a panic.
\<close>

subsection \<open>Messages and codecs\<close>

record ('e, 'b) reqMsg =
  req_endname :: 'e
  req_svcMeth :: string
  req_args :: 'b

record 'b replyMsg =
  rep_ok :: bool
  rep_reply :: "'b option"

record ('a, 'r, 'b) rpc_codec =
  enc_args :: "'a \<Rightarrow> 'b"
  dec_args :: "'b \<Rightarrow> 'a"
  enc_reply :: "'r \<Rightarrow> 'b"
  dec_reply :: "'b \<Rightarrow> 'r option"

abbreviation no_reply :: "'b replyMsg" where
  "no_reply \<equiv> \<lparr>rep_ok = False, rep_reply = None\<rparr>"

subsection \<open>Services and servers\<close>

text \<open>What \<^verbatim>\<open>reflect\<close> tells about a method of a receiver, and the method itself.\<close>

record ('a, 'r, 'w) rpc_method =
  PkgPath :: string
  NumIn :: nat
  In2_Ptr :: bool
  NumOut :: nat
  Func :: "'a \<Rightarrow> 'w \<Rightarrow> 'r \<times> 'w"

record ('a, 'r, 'w) Service =
  svc_name :: string
  methods :: "string \<rightharpoonup> ('a, 'r, 'w) rpc_method"

record ('a, 'r, 'w) Server =
  services :: "string \<rightharpoonup> ('a, 'r, 'w) Service"
  count :: int

definition is_handler :: "('a, 'r, 'w) rpc_method \<Rightarrow> bool" where
  "is_handler m \<longleftrightarrow> \<not> (PkgPath m \<noteq> [] \<or> NumIn m \<noteq> 3 \<or> \<not> In2_Ptr m \<or> NumOut m \<noteq> 0)"

definition MakeService :: "string \<Rightarrow> (string \<times> ('a, 'r, 'w) rpc_method) list \<Rightarrow> ('a, 'r, 'w) Service" where
  "MakeService name ms =
     \<lparr>svc_name = name,
      methods = foldl (\<lambda>tbl (mname, m). if is_handler m then tbl(mname \<mapsto> m) else tbl) Map.empty ms\<rparr>"

definition Service_dispatch :: "('a, 'r, 'b) rpc_codec \<Rightarrow> string \<Rightarrow> ('e, 'b) reqMsg \<Rightarrow> ('a, 'r, 'w) Service \<Rightarrow> 'w \<Rightarrow>
    ('b replyMsg \<times> 'w) option" where
  "Service_dispatch gob methname req svc w =
     (case methods svc methname of
        None \<Rightarrow> None
      | Some m \<Rightarrow> (case Func m (dec_args gob (req_args req)) w of
          (r, w') \<Rightarrow> Some (\<lparr>rep_ok = True, rep_reply = Some (enc_reply gob r)\<rparr>, w')))"

definition MakeServer :: "('a, 'r, 'w) Server" where
  "MakeServer = \<lparr>services = Map.empty, count = 0\<rparr>"

definition AddService :: "('a, 'r, 'w) Service \<Rightarrow> ('a, 'r, 'w) Server \<Rightarrow> ('a, 'r, 'w) Server" where
  "AddService svc rs = rs\<lparr>services := (services rs)(svc_name svc \<mapsto> svc)\<rparr>"

definition GetCount :: "('a, 'r, 'w) Server \<Rightarrow> int" where
  "GetCount rs = count rs"

text \<open>\<^verbatim>\<open>strings.LastIndex\<close> of a one-character string.\<close>

definition LastIndex :: "string \<Rightarrow> char \<Rightarrow> int" where
  "LastIndex s c =
     (if c \<in> set s then int (length s) - 1 - int (length (takeWhile (\<lambda>x. x \<noteq> c) (rev s))) else -1)"

text \<open>\<^verbatim>\<open>Server.dispatch\<close>: count, split the name at the last dot (a name without one panics), look up, call.\<close>

definition Server_dispatch :: "('a, 'r, 'b) rpc_codec \<Rightarrow> ('e, 'b) reqMsg \<Rightarrow> ('a, 'r, 'w) Server \<Rightarrow> 'w \<Rightarrow>
    (('a, 'r, 'w) Server \<times> 'b replyMsg \<times> 'w) option" where
  "Server_dispatch gob req rs w =
     do { let rs1 = rs\<lparr>count := count rs + 1\<rparr>;
          let dot = LastIndex (req_svcMeth req) (CHR ''.'');
          serviceName \<leftarrow> go_slice_to (req_svcMeth req) dot;
          methodName \<leftarrow> go_slice_from (req_svcMeth req) (dot + 1);
          service \<leftarrow> services rs1 serviceName;
          (r, w') \<leftarrow> Service_dispatch gob methodName req service w;
          Some (rs1, r, w') }"

subsection \<open>The network\<close>

record ('e, 's) Network =
  reliable :: bool
  longDelays :: bool
  longReordering :: bool
  ends :: "'e set"
  enabled :: "'e \<Rightarrow> bool"
  servers :: "'s \<rightharpoonup> nat"
  connections :: "'e \<rightharpoonup> 's"

definition MakeNetwork :: "('e, 's) Network" where
  "MakeNetwork = \<lparr>reliable = True, longDelays = False, longReordering = False, ends = {},
     enabled = (\<lambda>_. False), servers = Map.empty, connections = Map.empty\<rparr>"

definition Reliable :: "bool \<Rightarrow> ('e, 's) Network \<Rightarrow> ('e, 's) Network" where
  "Reliable yes rn = rn\<lparr>reliable := yes\<rparr>"

definition LongReordering :: "bool \<Rightarrow> ('e, 's) Network \<Rightarrow> ('e, 's) Network" where
  "LongReordering yes rn = rn\<lparr>longReordering := yes\<rparr>"

definition LongDelays :: "bool \<Rightarrow> ('e, 's) Network \<Rightarrow> ('e, 's) Network" where
  "LongDelays yes rn = rn\<lparr>longDelays := yes\<rparr>"

definition ReadEndnameInfo :: "'e \<Rightarrow> ('e, 's) Network \<Rightarrow> bool \<times> 's option \<times> nat option \<times> bool \<times> bool" where
  "ReadEndnameInfo endname rn =
     (enabled rn endname, connections rn endname,
      (case connections rn endname of None \<Rightarrow> None | Some servername \<Rightarrow> servers rn servername),
      reliable rn, longReordering rn)"

definition IsServerDead :: "'e \<Rightarrow> 's \<Rightarrow> nat \<Rightarrow> ('e, 's) Network \<Rightarrow> bool" where
  "IsServerDead endname servername server rn \<longleftrightarrow> \<not> enabled rn endname \<or> servers rn servername \<noteq> Some server"

definition MakeEnd :: "'e \<Rightarrow> ('e, 's) Network \<Rightarrow> ('e, 's) Network option" where
  "MakeEnd endname rn =
     (if endname \<in> ends rn then None
      else Some (rn\<lparr>ends := insert endname (ends rn), enabled := (enabled rn)(endname := False),
                    connections := (connections rn)(endname := None)\<rparr>))"

definition AddServer :: "'s \<Rightarrow> nat \<Rightarrow> ('e, 's) Network \<Rightarrow> ('e, 's) Network" where
  "AddServer servername rs rn = rn\<lparr>servers := (servers rn)(servername \<mapsto> rs)\<rparr>"

definition DeleteServer :: "'s \<Rightarrow> ('e, 's) Network \<Rightarrow> ('e, 's) Network" where
  "DeleteServer servername rn = rn\<lparr>servers := (servers rn)(servername := None)\<rparr>"

definition Connect :: "'e \<Rightarrow> 's \<Rightarrow> ('e, 's) Network \<Rightarrow> ('e, 's) Network" where
  "Connect endname servername rn = rn\<lparr>connections := (connections rn)(endname \<mapsto> servername)\<rparr>"

definition Enable :: "'e \<Rightarrow> bool \<Rightarrow> ('e, 's) Network \<Rightarrow> ('e, 's) Network" where
  "Enable endname yes rn = rn\<lparr>enabled := (enabled rn)(endname := yes)\<rparr>"

text \<open>\<^verbatim>\<open>Network.GetCount\<close>: a nil server panics when its mutex is taken.\<close>

definition Network_GetCount :: "(nat \<Rightarrow> ('a, 'r, 'w) Server) \<Rightarrow> 's \<Rightarrow> ('e, 's) Network \<Rightarrow> int option" where
  "Network_GetCount heap servername rn = map_option (\<lambda>a. GetCount (heap a)) (servers rn servername)"

subsection \<open>Processing a request\<close>

text \<open>The random numbers \<^verbatim>\<open>ProcessReq\<close> draws, in the order of the source.\<close>

record rolls =
  roll_delay :: nat
  roll_drop :: nat
  roll_drop_reply :: nat
  roll_reorder :: nat
  roll_wait :: nat
  roll_wait_max :: nat
  roll_timeout :: nat

text \<open>
  The first part of \<^verbatim>\<open>ProcessReq\<close>: no reply after a time out, the request dropped after a delay, or the
  request handed to the server after a delay, with what was read of the network.
\<close>

datatype 's verdict =
  NoReply nat
| Dropped nat
| Dispatch nat 's nat bool bool

definition ProcessReq_start :: "rolls \<Rightarrow> 'e \<Rightarrow> ('e, 's) Network \<Rightarrow> 's verdict" where
  "ProcessReq_start r endname rn =
     (case ReadEndnameInfo endname rn of (en, servername, server, rel, lre) \<Rightarrow>
        (case (en, servername, server) of
           (True, Some sn, Some srv) \<Rightarrow>
             (let ms = (if \<not> rel then roll_delay r mod 27 else 0) in
              if \<not> rel \<and> roll_drop r mod 1000 < 100 then Dropped ms
              else Dispatch ms sn srv rel lre)
         | _ \<Rightarrow> NoReply (if longDelays rn then roll_timeout r mod 7000 else roll_timeout r mod 100)))"

text \<open>
  The last part, after the loop: \<open>reply\<close> is what came from the handler, if it came. The result is the
  message to the client and the delay before it is sent.
\<close>

definition ProcessReq_finish :: "rolls \<Rightarrow> 'e \<Rightarrow> 's \<Rightarrow> nat \<Rightarrow> bool \<Rightarrow> bool \<Rightarrow> 'b replyMsg option \<Rightarrow> ('e, 's) Network \<Rightarrow>
    'b replyMsg \<times> nat" where
  "ProcessReq_finish r endname servername server rel lre reply rn =
     (let serverDead = IsServerDead endname servername server rn in
      case reply of
        None \<Rightarrow> (no_reply, 0)
      | Some rep \<Rightarrow>
          if serverDead then (no_reply, 0)
          else if \<not> rel \<and> roll_drop_reply r mod 1000 < 100 then (no_reply, 0)
          else if lre \<and> roll_reorder r mod 900 < 600
          then (rep, 200 + roll_wait r mod (1 + roll_wait_max r mod 2000))
          else (rep, 0))"

text \<open>\<^verbatim>\<open>ClientEnd.Call\<close> before and after it waits; a reply that does not decode is fatal.\<close>

definition Call_request :: "('a, 'r, 'b) rpc_codec \<Rightarrow> 'e \<Rightarrow> string \<Rightarrow> 'a \<Rightarrow> ('e, 'b) reqMsg" where
  "Call_request gob endname svcMeth args =
     \<lparr>req_endname = endname, req_svcMeth = svcMeth, req_args = enc_args gob args\<rparr>"

definition Call_result :: "('a, 'r, 'b) rpc_codec \<Rightarrow> 'b replyMsg \<Rightarrow> 'r option option" where
  "Call_result gob rep =
     (if rep_ok rep then map_option Some (Option.bind (rep_reply rep) (dec_reply gob)) else Some None)"

subsection \<open>Requests in flight\<close>

text \<open>
  Where a call is: sent to the network; in the loop of \<^verbatim>\<open>ProcessReq\<close> with what it read; answered. The
  handler runs in a goroutine of its own, which outlives the loop.
\<close>

datatype ('e, 's, 'b) call_state =
  Sent "('e, 'b) reqMsg"
| InLoop "('e, 'b) reqMsg" 's nat bool bool
| Answered "('e, 'b) reqMsg" "'b replyMsg"

text \<open>
  The whole: network, servers by address, the state of the programs behind them, calls by number, for
  each call the handler goroutine that has not run yet and the reply one that has run offers, and, as
  history, which handlers have run, by call, with their replies.
\<close>

record ('e, 's, 'a, 'r, 'b, 'w) net =
  network :: "('e, 's) Network"
  heap :: "nat \<Rightarrow> ('a, 'r, 'w) Server"
  world :: 'w
  pending :: "nat \<rightharpoonup> ('e, 's, 'b) call_state"
  handlers :: "nat \<rightharpoonup> ('e, 'b) reqMsg \<times> nat"
  offered :: "nat \<rightharpoonup> 'b replyMsg"
  executed :: "(nat \<times> 'b replyMsg) list"

text \<open>What the tester does to a network while calls are under way.\<close>

inductive reconfigure :: "('e, 's) Network \<Rightarrow> ('e, 's) Network \<Rightarrow> bool" where
  "reconfigure n (Reliable b n)"
| "reconfigure n (LongReordering b n)"
| "reconfigure n (LongDelays b n)"
| "MakeEnd e n = Some n' \<Longrightarrow> reconfigure n n'"
| "reconfigure n (AddServer sn a n)"
| "reconfigure n (DeleteServer sn n)"
| "reconfigure n (Connect e sn n)"
| "reconfigure n (Enable e b n)"

inductive net_step :: "('a, 'r, 'b) rpc_codec \<Rightarrow> ('e, 's, 'a, 'r, 'b, 'w) net \<Rightarrow> ('e, 's, 'a, 'r, 'b, 'w) net \<Rightarrow> bool"
  for gob where
  tester: "reconfigure (network n) rn' \<Longrightarrow> net_step gob n (n\<lparr>network := rn'\<rparr>)"
| call: "pending n i = None \<Longrightarrow>
     net_step gob n (n\<lparr>pending := (pending n)(i \<mapsto> Sent (Call_request gob endname svcMeth args))\<rparr>)"
| refuse: "pending n i = Some (Sent req) \<Longrightarrow>
     (case ProcessReq_start r (req_endname req) (network n) of Dispatch _ _ _ _ _ \<Rightarrow> False | _ \<Rightarrow> True) \<Longrightarrow>
     net_step gob n (n\<lparr>pending := (pending n)(i \<mapsto> Answered req no_reply)\<rparr>)"
| dispatch: "pending n i = Some (Sent req) \<Longrightarrow>
     ProcessReq_start r (req_endname req) (network n) = Dispatch ms sn srv rel lre \<Longrightarrow>
     net_step gob n (n\<lparr>pending := (pending n)(i \<mapsto> InLoop req sn srv rel lre),
                       handlers := (handlers n)(i \<mapsto> (req, srv))\<rparr>)"
| handle: "handlers n i = Some (req, srv) \<Longrightarrow> Server_dispatch gob req (heap n srv) (world n) = Some (rs, rep, w') \<Longrightarrow>
     net_step gob n (n\<lparr>heap := (heap n)(srv := rs), world := w', handlers := (handlers n)(i := None),
                       offered := (offered n)(i \<mapsto> rep), executed := executed n @ [(i, rep)]\<rparr>)"
| receive: "pending n i = Some (InLoop req sn srv rel lre) \<Longrightarrow> offered n i = Some rep \<Longrightarrow>
     ProcessReq_finish r (req_endname req) sn srv rel lre (Some rep) (network n) = (ans, ms) \<Longrightarrow>
     net_step gob n (n\<lparr>pending := (pending n)(i \<mapsto> Answered req ans), offered := (offered n)(i := None)\<rparr>)"
| abandon: "pending n i = Some (InLoop req sn srv rel lre) \<Longrightarrow> IsServerDead (req_endname req) sn srv (network n) \<Longrightarrow>
     ProcessReq_finish r (req_endname req) sn srv rel lre None (network n) = (ans, ms) \<Longrightarrow>
     net_step gob n (n\<lparr>pending := (pending n)(i \<mapsto> Answered req ans)\<rparr>)"

definition net_init :: "(nat \<Rightarrow> ('a, 'r, 'w) Server) \<Rightarrow> 'w \<Rightarrow> ('e, 's, 'a, 'r, 'b, 'w) net" where
  "net_init h w = \<lparr>network = MakeNetwork, heap = h, world = w, pending = Map.empty, handlers = Map.empty,
     offered = Map.empty, executed = []\<rparr>"

inductive net_reachable :: "('a, 'r, 'b) rpc_codec \<Rightarrow> (nat \<Rightarrow> ('a, 'r, 'w) Server) \<Rightarrow> 'w \<Rightarrow>
    ('e, 's, 'a, 'r, 'b, 'w) net \<Rightarrow> bool" for gob h w where
  net_start: "net_reachable gob h w (net_init h w)"
| net_next: "net_reachable gob h w n \<Longrightarrow> net_step gob n n' \<Longrightarrow> net_reachable gob h w n'"

end
