(* ===== verification/Raft_Network.thy ===== *)
theory Raft_Network
  imports Raft_Cluster Lab_Rpc
begin

text \<open>
  Raft peers on the simulated network: the stubs by which a peer calls another, the service through which
  \<^verbatim>\<open>labrpc\<close> reaches a peer, and the whole of instances, goroutines and network as a step relation. Nothing
  is assumed of the network here; calls live and die by the rules of \<open>Lab_Rpc\<close>.
\<close>

subsection \<open>The Raft service\<close>

datatype ('c, 'b) raft_args =
  VoteArgs RequestVoteArgs
| AppendArgs "'c AppendEntriesArgs"
| SnapArgs "'b InstallSnapshotArgs"

datatype raft_reply =
  VoteRep RequestVoteReply
| AppendRep AppendEntriesReply
| SnapRep InstallSnapshotReply

text \<open>
  Peers are objects at addresses, since a peer that was replaced goes on as an object of its own;
  \<open>clock\<close> is what a handler reads of time and randomness.
\<close>

record ('c, 'b) peer_objects =
  insts :: "nat \<Rightarrow> ('c, 'b) Raft"
  clock :: env

text \<open>
  The methods of the object at address \<open>a\<close>. Each stub sends the argument type its method declares; on
  other arguments and after a panic, neither of which happens, a method does nothing.
\<close>

definition vote_method :: "nat \<Rightarrow> ('c, 'b) raft_args \<Rightarrow> ('c, 'b) peer_objects \<Rightarrow> raft_reply \<times> ('c, 'b) peer_objects" where
  "vote_method a args w =
     (case args of
        VoteArgs va \<Rightarrow> (case RequestVote (clock w) (insts w a) va of
          (rf, r) \<Rightarrow> (VoteRep r, w\<lparr>insts := (insts w)(a := rf)\<rparr>))
      | _ \<Rightarrow> (VoteRep \<lparr>rvr_Term = 0, VoteGranted = False\<rparr>, w))"

definition append_method :: "nat \<Rightarrow> ('c, 'b) raft_args \<Rightarrow> ('c, 'b) peer_objects \<Rightarrow> raft_reply \<times> ('c, 'b) peer_objects" where
  "append_method a args w =
     (let none = (AppendRep \<lparr>aer_Term = 0, Success = False, XTerm = 0, XIndex = 0, XLen = 0\<rparr>, w) in
      case args of
        AppendArgs aa \<Rightarrow> (case AppendEntries (clock w) (insts w a) aa of
          Some (rf, r) \<Rightarrow> (AppendRep r, w\<lparr>insts := (insts w)(a := rf)\<rparr>)
        | None \<Rightarrow> none)
      | _ \<Rightarrow> none)"

definition snapshot_method :: "nat \<Rightarrow> ('c, 'b) raft_args \<Rightarrow> ('c, 'b) peer_objects \<Rightarrow> raft_reply \<times> ('c, 'b) peer_objects" where
  "snapshot_method a args w =
     (case args of
        SnapArgs sa \<Rightarrow> (case InstallSnapshot (insts w a) sa of
          (rf, r, _) \<Rightarrow> (SnapRep r, w\<lparr>insts := (insts w)(a := rf)\<rparr>))
      | _ \<Rightarrow> (SnapRep \<lparr>isr_Term = 0\<rparr>, w))"

definition rpc_handler :: "('a \<Rightarrow> 'w \<Rightarrow> 'r \<times> 'w) \<Rightarrow> ('a, 'r, 'w) rpc_method" where
  "rpc_handler f = \<lparr>PkgPath = [], NumIn = 3, In2_Ptr = True, NumOut = 0, Func = f\<rparr>"

text \<open>\<^verbatim>\<open>srv.AddService(labrpc.MakeService(rf))\<close>, with the methods of \<^verbatim>\<open>Raft\<close> that are handlers.\<close>

definition raft_server :: "nat \<Rightarrow> (('c, 'b) raft_args, raft_reply, ('c, 'b) peer_objects) Server" where
  "raft_server a = AddService (MakeService ''Raft''
     [(''AppendEntries'', rpc_handler (append_method a)), (''InstallSnapshot'', rpc_handler (snapshot_method a)),
      (''RequestVote'', rpc_handler (vote_method a))]) MakeServer"

text \<open>The stubs: \<^verbatim>\<open>sendRequestVote\<close> and the calls of the replication goroutines name their method.\<close>

fun stub :: "('c, 'b) raft_args \<Rightarrow> string" where
  "stub (VoteArgs _) = ''RequestVote''"
| "stub (AppendArgs _) = ''AppendEntries''"
| "stub (SnapArgs _) = ''InstallSnapshot''"

definition raft_request :: "(('c, 'b) raft_args, raft_reply, 'x) rpc_codec \<Rightarrow> nat \<Rightarrow> int \<Rightarrow> ('c, 'b) raft_args \<Rightarrow>
    (nat \<times> int, 'x) reqMsg" where
  "raft_request gob a t args = Call_request gob (a, t) (''Raft'' @ ''.'' @ stub args) args"

subsection \<open>Sections\<close>

fun append_calls :: "'c goroutine list \<Rightarrow> (int \<times> ('c, 'b) raft_args) list" where
  "append_calls [] = []"
| "append_calls (GoAppendEntries p a # gs) = (p, AppendArgs a) # append_calls gs"
| "append_calls (GoInstallSnapshot p # gs) = append_calls gs"

fun snapshot_tasks :: "'c goroutine list \<Rightarrow> int list" where
  "snapshot_tasks [] = []"
| "snapshot_tasks (GoAppendEntries p a # gs) = snapshot_tasks gs"
| "snapshot_tasks (GoInstallSnapshot p # gs) = p # snapshot_tasks gs"

text \<open>
  The sections a peer runs by itself: its new state, the calls its goroutines are to make, and the peers
  for which \<^verbatim>\<open>handleSendInstallSnapshot\<close> is started.
\<close>

inductive peer_section :: "('c, 'b) Raft \<Rightarrow> ('c, 'b) Raft \<Rightarrow> (int \<times> ('c, 'b) raft_args) list \<Rightarrow> int list \<Rightarrow> bool" where
  sec_tick: "tickFollower e rf = (rf', b) \<Longrightarrow> peer_section rf rf' [] []"
| sec_election: "doElection e rf = (rf', ms) \<Longrightarrow> peer_section rf rf' (map (\<lambda>(p, a). (p, VoteArgs a)) ms) []"
| sec_start: "Start rf c = Some (rf', res, gs) \<Longrightarrow> peer_section rf rf' (append_calls gs) (snapshot_tasks gs)"
| sec_heartbeat: "ticker_leader rf = Some gs \<Longrightarrow> peer_section rf rf (append_calls gs) (snapshot_tasks gs)"
| sec_compact: "Snapshot rf i s = Some rf' \<Longrightarrow> peer_section rf rf' [] []"
| sec_apply: "BackgroundApply nil rf = Some (Applied rf' m) \<Longrightarrow> peer_section rf rf' [] []"
| sec_kill: "peer_section rf (Kill rf) [] []"

text \<open>What a goroutine does with the reply of its call; \<open>None\<close> is a panic.\<close>

fun take_reply :: "env \<Rightarrow> ('c, 'b) Raft \<Rightarrow> int \<Rightarrow> ('c, 'b) raft_args \<Rightarrow> raft_reply \<Rightarrow> ('c, 'b) Raft option" where
  "take_reply e rf t (VoteArgs a) (VoteRep r) = handleVoteReply e rf (rv_Term a) (Some r)"
| "take_reply e rf t (AppendArgs a) (AppendRep r) =
     processAppendEntriesReply e rf t (ae_Term a) (PrevLogIndex a) (Entries a) r"
| "take_reply e rf t (SnapArgs a) (SnapRep r) = sendInstallSnapshot_reply e rf t a r"
| "take_reply e rf t _ _ = None"

subsection \<open>The system\<close>

text \<open>
  \<open>inst n\<close> is the address of the running instance of peer \<open>n\<close> and \<open>who a\<close> the peer that the object at
  \<open>a\<close> is an instance of; addresses from \<open>top\<close> on are unused. \<open>todo\<close> are goroutines about to make their
  call, \<open>snaps\<close> goroutines about to run \<^verbatim>\<open>handleSendInstallSnapshot\<close>; \<open>placed\<close> says what each call that was
  made is about and \<open>waiting\<close> whose goroutine has not taken the result yet.
\<close>

record ('c, 'b, 'x) raft_net =
  rnet :: "(nat \<times> int, int, ('c, 'b) raft_args, raft_reply, 'x, ('c, 'b) peer_objects) net"
  inst :: "int \<Rightarrow> nat"
  who :: "nat \<Rightarrow> int"
  top :: nat
  todo :: "(nat \<times> int \<times> ('c, 'b) raft_args) multiset"
  snaps :: "(nat \<times> int) multiset"
  placed :: "nat \<rightharpoonup> nat \<times> int \<times> ('c, 'b) raft_args"
  waiting :: "nat set"

abbreviation peer_at :: "('c, 'b, 'x) raft_net \<Rightarrow> int \<Rightarrow> ('c, 'b) Raft" where
  "peer_at s n \<equiv> insts (world (rnet s)) (inst s n)"

definition set_peer :: "int \<Rightarrow> ('c, 'b) Raft \<Rightarrow> ('c, 'b, 'x) raft_net \<Rightarrow> ('c, 'b, 'x) raft_net" where
  "set_peer n rf s = s\<lparr>rnet := (rnet s)\<lparr>world := (world (rnet s))
     \<lparr>insts := (insts (world (rnet s)))(inst s n := rf)\<rparr>\<rparr>\<rparr>"

text \<open>A new instance of peer \<open>n\<close> at address \<open>a\<close>: its ends are made and connected, its server added.\<close>

definition attach :: "nat \<Rightarrow> nat \<Rightarrow> int \<Rightarrow> (nat \<times> int, int) Network \<Rightarrow> (nat \<times> int, int) Network" where
  "attach N a n rn = AddServer n a (rn
     \<lparr>ends := ends rn \<union> ({a} \<times> peer_ids N),
      enabled := (\<lambda>e. enabled rn e \<and> e \<notin> {a} \<times> peer_ids N),
      connections := (\<lambda>e. if e \<in> {a} \<times> peer_ids N then Some (snd e) else connections rn e)\<rparr>)"

text \<open>
  The steps: a section of a running instance, a goroutine that reads the arguments of a snapshot, a call handed
  to the network, a step of the network, a change the tester makes to the switches, time, a goroutine that
  takes its reply or goes on without one, a restart. An instance that was replaced may do anything to
  itself (\<open>rn_ghost\<close>); new calls of it are left out, since the harness never enables its ends again. The
  tester connects an end only when it makes it and adds a server only in a restart.
\<close>

inductive rn_step :: "nat \<Rightarrow> (('c, 'b) raft_args, raft_reply, 'x) rpc_codec \<Rightarrow>
    ('c, 'b, 'x) raft_net \<Rightarrow> ('c, 'b, 'x) raft_net \<Rightarrow> bool" for N gob where
  rn_section: "n \<in> peer_ids N \<Longrightarrow> peer_section (peer_at s n) rf' cs ps \<Longrightarrow>
     rn_step N gob s ((set_peer n rf' s)
       \<lparr>todo := todo s + mset (map (\<lambda>(p, a). (inst s n, p, a)) cs), snaps := snaps s + mset (map (Pair (inst s n)) ps)\<rparr>)"
| rn_snapshot: "n \<in> peer_ids N \<Longrightarrow> (inst s n, p) \<in># snaps s \<Longrightarrow> sendInstallSnapshot_args (peer_at s n) = Some sa \<Longrightarrow>
     rn_step N gob s (s\<lparr>snaps := snaps s - {#(inst s n, p)#}, todo := todo s + {#(inst s n, p, SnapArgs sa)#}\<rparr>)"
| rn_call: "(a, t, args) \<in># todo s \<Longrightarrow> pending (rnet s) i = None \<Longrightarrow> placed s i = None \<Longrightarrow>
     rn_step N gob s (s\<lparr>rnet := (rnet s)\<lparr>pending := (pending (rnet s))(i \<mapsto> Sent (raft_request gob a t args))\<rparr>,
       todo := todo s - {#(a, t, args)#}, placed := (placed s)(i \<mapsto> (a, t, args)), waiting := insert i (waiting s)\<rparr>)"
| rn_network: "net_step gob (rnet s) n' \<Longrightarrow> network n' = network (rnet s) \<Longrightarrow> dom (pending n') = dom (pending (rnet s)) \<Longrightarrow>
     rn_step N gob s (s\<lparr>rnet := n'\<rparr>)"
| rn_tester: "reconfigure (network (rnet s)) rn' \<Longrightarrow> connections rn' = connections (network (rnet s)) \<Longrightarrow>
     servers rn' \<subseteq>\<^sub>m servers (network (rnet s)) \<Longrightarrow> rn_step N gob s (s\<lparr>rnet := (rnet s)\<lparr>network := rn'\<rparr>\<rparr>)"
| rn_clock: "rn_step N gob s (s\<lparr>rnet := (rnet s)\<lparr>world := (world (rnet s))\<lparr>clock := e\<rparr>\<rparr>\<rparr>)"
| rn_reply: "i \<in> waiting s \<Longrightarrow> placed s i = Some (inst s n, t, args) \<Longrightarrow> n \<in> peer_ids N \<Longrightarrow>
     pending (rnet s) i = Some (Answered req rep) \<Longrightarrow> Call_result gob rep = Some (Some r) \<Longrightarrow>
     take_reply e (peer_at s n) t args r = Some rf' \<Longrightarrow>
     rn_step N gob s ((set_peer n rf' s)\<lparr>waiting := waiting s - {i}\<rparr>)"
| rn_no_reply: "i \<in> waiting s \<Longrightarrow> pending (rnet s) i = Some (Answered req rep) \<Longrightarrow>
     rn_step N gob s (s\<lparr>waiting := waiting s - {i}\<rparr>)"
| rn_restart: "n \<in> peer_ids N \<Longrightarrow>
     rn_step N gob s (s\<lparr>rnet := (rnet s)\<lparr>network := attach N (top s) n (network (rnet s)),
         world := (world (rnet s))\<lparr>insts := (insts (world (rnet s)))
           (top s := fst (Make N n (Persister_Copy (persister (peer_at s n)))))\<rparr>\<rparr>,
       inst := (inst s)(n := top s), who := (who s)(top s := n), top := top s + 1\<rparr>)"
| rn_ghost: "a \<notin> inst s ` peer_ids N \<Longrightarrow>
     rn_step N gob s (s\<lparr>rnet := (rnet s)\<lparr>world := (world (rnet s))\<lparr>insts := (insts (world (rnet s)))(a := rf')\<rparr>\<rparr>\<rparr>)"

text \<open>All peers started from empty persisters, attached and not yet enabled.\<close>

definition rn_init :: "nat \<Rightarrow> 'b \<Rightarrow> env \<Rightarrow> ('c, 'b, 'x) raft_net" where
  "rn_init N nil e =
     \<lparr>rnet = (net_init raft_server \<lparr>insts = (\<lambda>a. fst (Make N (int a) (MakePersister nil))), clock = e\<rparr>)
        \<lparr>network := foldl (\<lambda>rn i. attach N i (int i) rn) MakeNetwork [0..<N]\<rparr>,
      inst = nat, who = int, top = N, todo = {#}, snaps = {#}, placed = Map.empty, waiting = {}\<rparr>"

end
