(* ===== verification/Raft_Local.thy ===== *)
theory Raft_Local
  imports Raft_Handlers
begin

text \<open>
  What the sections of one peer compute: the consistency check and the conflict hint of
  \<^verbatim>\<open>AppendEntries\<close>, the commit rule of the leader, the voting rule, the order of the indices, and
  when the sections that index the log can panic.
\<close>

subsection \<open>Positions in a log\<close>

text \<open>
  Raft compares logs by the term of their last entry and, among equal terms, by its index. A
  position is such a pair; positions are linearly ordered.
\<close>

datatype logpos = LogPos (pos_term: int) (pos_index: int)

instantiation logpos :: linorder
begin

definition less_eq_logpos :: "logpos \<Rightarrow> logpos \<Rightarrow> bool" where
  "less_eq_logpos p q \<longleftrightarrow>
     pos_term p < pos_term q \<or> pos_term p = pos_term q \<and> pos_index p \<le> pos_index q"

definition less_logpos :: "logpos \<Rightarrow> logpos \<Rightarrow> bool" where
  "less_logpos p q \<longleftrightarrow>
     pos_term p < pos_term q \<or> pos_term p = pos_term q \<and> pos_index p < pos_index q"

instance
  by standard (auto simp: less_eq_logpos_def less_logpos_def logpos.expand)

end

definition last_pos :: "('c, 'b) Raft \<Rightarrow> logpos" where
  "last_pos rf = LogPos (lastLogTerm rf) (lastLogIndex rf)"

text \<open>The term at an index of the log or of the snapshot boundary.\<close>

definition term_at :: "('c, 'b) Raft \<Rightarrow> int \<Rightarrow> int" where
  "term_at rf i =
     (if i = lastIncludedIndex rf then lastIncludedTerm rf
      else Term (log rf ! nat (i - lastIncludedIndex rf - 1)))"

lemma term_at_frame [simp]:
  "term_at (adoptTerm t rf) i = term_at rf i" "term_at (resetDeadline e rf) i = term_at rf i"
  by (simp_all add: term_at_def)

definition agrees :: "('c, 'b) Raft \<Rightarrow> 'c AppendEntriesArgs \<Rightarrow> bool" where
  "agrees rf a \<longleftrightarrow> lastIncludedIndex rf \<le> PrevLogIndex a \<and> PrevLogIndex a \<le> lastLogIndex rf \<and>
     term_at rf (PrevLogIndex a) = PrevLogTerm a"

subsection \<open>The conflict hint\<close>

lemma xIndex_from_spec:
  assumes "lastIncludedIndex rf < i" "i \<le> lastLogIndex rf" "term_at rf i = t"
  shows "\<exists>x. xIndex_from rf t i = Some x \<and> lastIncludedIndex rf < x \<and> x \<le> i \<and>
    (\<forall>j. x \<le> j \<longrightarrow> j \<le> i \<longrightarrow> term_at rf j = t) \<and>
    (x = lastIncludedIndex rf + 1 \<or> term_at rf (x - 1) \<noteq> t)"
  using assms
proof (induction rf t i rule: xIndex_from.induct)
  case (1 rf t i)
  show ?case
  proof (cases "i > lastIncludedIndex rf + 1")
    case False
    then show ?thesis
      using "1.prems" by (subst xIndex_from.simps) (auto intro: order_antisym)
  next
    case True
    let ?e = "log rf ! nat (i - 1 - lastIncludedIndex rf - 1)"
    have e: "go_index (log rf) (i - 1 - lastIncludedIndex rf - 1) = Some ?e"
      using True "1.prems"(2) by (simp add: go_index_def lastLogIndex_def)
    have te: "term_at rf (i - 1) = Term ?e" using True by (simp add: term_at_def)
    show ?thesis
    proof (cases "Term ?e = t")
      case False
      then have "xIndex_from rf t i = Some i"
        using True e by (subst xIndex_from.simps) simp
      then show ?thesis using "1.prems" te False by (intro exI [of _ i]) (auto intro: order_antisym)
    next
      case same: True
      have step: "xIndex_from rf t i = xIndex_from rf t (i - 1)"
        using True e same by (subst xIndex_from.simps) simp
      obtain x where x: "xIndex_from rf t (i - 1) = Some x" "lastIncludedIndex rf < x" "x \<le> i - 1"
        "\<forall>j. x \<le> j \<longrightarrow> j \<le> i - 1 \<longrightarrow> term_at rf j = t"
        "x = lastIncludedIndex rf + 1 \<or> term_at rf (x - 1) \<noteq> t"
        using "1.IH" [OF True e] same True "1.prems" te by auto
      have "term_at rf j = t" if "x \<le> j" "j \<le> i" for j
        using x(4) that "1.prems"(3) by (cases "j = i") auto
      then show ?thesis using step x(1,2,3,5) by auto
    qed
  qed
qed

lemma go_index_term_at:
  assumes "lastIncludedIndex rf < i" "i \<le> lastLogIndex rf"
  shows "map_option Term (go_index (log rf) (i - lastIncludedIndex rf - 1)) = Some (term_at rf i)"
    and "\<exists>x. go_index (log rf) (i - lastIncludedIndex rf - 1) = Some x \<and> Term x = term_at rf i"
  using assms by (auto simp: go_index_def term_at_def lastLogIndex_def)

text \<open>\<^verbatim>\<open>AppendEntries\<close> once the sender's term has been accepted, by the outcome of the consistency check.\<close>

lemma AppendEntries_eq:
  assumes fresh: "\<not> ae_Term a < currentTerm rf"
  defines "rf1 \<equiv> adoptTerm (ae_Term a) rf"
    and "reply \<equiv> \<lparr>aer_Term = currentTerm rf, Success = False, XTerm = 0, XIndex = 0, XLen = 0\<rparr>"
  shows "AppendEntries e rf a =
    (if PrevLogIndex a > lastLogIndex rf then
       Some (resetDeadline e rf1, reply\<lparr>XTerm := -1, XLen := lastLogIndex rf + 1\<rparr>)
     else if PrevLogIndex a < lastIncludedIndex rf then Some (resetDeadline e rf1, reply)
     else if agrees rf a then
       map_option (\<lambda>rf2. (rf2, reply\<lparr>aer_Term := currentTerm rf2, Success := True\<rparr>))
         (acceptEntries e a rf1)
     else if PrevLogIndex a = lastIncludedIndex rf then Some (resetDeadline e rf1, reply)
     else map_option (\<lambda>x. (resetDeadline e rf1,
              reply\<lparr>XTerm := term_at rf (PrevLogIndex a), XIndex := x\<rparr>))
            (xIndex_from rf1 (term_at rf (PrevLogIndex a)) (PrevLogIndex a)))"
proof -
  let ?i = "PrevLogIndex a"
  have idx: "\<exists>x. go_index (log rf1) (?i - lastIncludedIndex rf1 - 1) = Some x \<and> Term x = term_at rf ?i"
    if "lastIncludedIndex rf < ?i" "?i \<le> lastLogIndex rf"
    using go_index_term_at(2) [of rf1 ?i] that by (simp add: rf1_def)
  consider (short) "?i > lastLogIndex rf" | (old) "?i < lastIncludedIndex rf"
    | (edge) "?i = lastIncludedIndex rf" "?i \<le> lastLogIndex rf"
    | (inside) "lastIncludedIndex rf < ?i" "?i \<le> lastLogIndex rf" by linarith
  then show ?thesis
  proof cases
    case edge
    then show ?thesis
      using fresh
      by (cases "acceptEntries e a rf1")
         (auto simp: AppendEntries_def Let_def agrees_def term_at_def rf1_def reply_def)
  next
    case inside
    obtain x where x: "go_index (log rf1) (?i - lastIncludedIndex rf1 - 1) = Some x"
      "Term x = term_at rf ?i"
      using idx inside by blast
    have ne: "?i \<noteq> lastIncludedIndex rf" using inside by simp
    show ?thesis
    proof (cases "term_at rf ?i = PrevLogTerm a")
      case True
      then show ?thesis
        using fresh inside x ne
        by (cases "acceptEntries e a rf1") (simp_all add: AppendEntries_def Let_def agrees_def
            rf1_def reply_def)
    next
      case False
      then show ?thesis
        using fresh inside x ne
        by (cases "xIndex_from rf1 (term_at rf ?i) ?i") (simp_all add: AppendEntries_def Let_def
            agrees_def rf1_def reply_def)
    qed
  qed (use fresh in \<open>simp_all add: AppendEntries_def Let_def rf1_def reply_def\<close>)
qed

lemma AppendEntries_stale:
  "ae_Term a < currentTerm rf \<Longrightarrow> AppendEntries e rf a =
     Some (rf, \<lparr>aer_Term = currentTerm rf, Success = False, XTerm = 0, XIndex = 0, XLen = 0\<rparr>)"
  by (simp add: AppendEntries_def Let_def)

subsection \<open>The outcome of AppendEntries\<close>

lemma AppendEntries_result:
  "\<exists>rf' r. AppendEntries e rf a = Some (rf', r) \<and>
     (Success r \<longleftrightarrow> currentTerm rf \<le> ae_Term a \<and> agrees rf a) \<and>
     (Success r \<longrightarrow>
        log rf' = take (nat (PrevLogIndex a - lastIncludedIndex rf)) (log rf) @ Entries a \<and>
        lastLogIndex rf' = PrevLogIndex a + int (length (Entries a)) \<and>
        commitIndex rf' = min (max (LeaderCommit a) (commitIndex rf)) (lastLogIndex rf') \<and>
        lastApplied rf' = min (lastApplied rf) (lastLogIndex rf') \<and>
        currentTerm rf' = ae_Term a \<and> serverState rf' = follower) \<and>
     (\<not> Success r \<longrightarrow> log rf' = log rf \<and> commitIndex rf' = commitIndex rf \<and>
        lastApplied rf' = lastApplied rf)"
proof (cases "ae_Term a < currentTerm rf")
  case True
  then show ?thesis by (simp add: AppendEntries_stale)
next
  case fresh: False
  let ?rf1 = "adoptTerm (ae_Term a) rf"
  show ?thesis
  proof (cases "agrees rf a")
    case True
    then have b: "lastIncludedIndex ?rf1 \<le> PrevLogIndex a" "PrevLogIndex a \<le> lastLogIndex ?rf1"
      by (simp_all add: agrees_def)
    obtain rf2 where rf2: "acceptEntries e a ?rf1 = Some rf2"
      using acceptEntries_eq [OF b] by (simp add: Let_def)
    have "lastLogIndex rf2 = PrevLogIndex a + int (length (Entries a))"
      using acceptEntries_fields [OF b rf2] b by (simp add: lastLogIndex_def)
    then show ?thesis
      using fresh True b rf2 acceptEntries_fields [OF b rf2]
      by (auto simp: AppendEntries_eq max_absorb1)
  next
    case False
    show ?thesis
    proof (cases "lastIncludedIndex rf < PrevLogIndex a \<and> PrevLogIndex a \<le> lastLogIndex rf")
      case True
      then obtain x where "xIndex_from ?rf1 (term_at rf (PrevLogIndex a)) (PrevLogIndex a) = Some x"
        using xIndex_from_spec [of ?rf1 "PrevLogIndex a" "term_at rf (PrevLogIndex a)"] by auto
      then show ?thesis using fresh False True by (auto simp: AppendEntries_eq)
    qed (use fresh False in \<open>auto simp: AppendEntries_eq\<close>)
  qed
qed

lemma AppendEntries_total: "\<exists>rf' r. AppendEntries e rf a = Some (rf', r)"
  using AppendEntries_result [of e rf a] by blast

text \<open>
  C21. \<^verbatim>\<open>AppendEntries\<close> always returns. It answers \<open>Success\<close> exactly when the sender's term is not old and
  the receiver holds, at \<^verbatim>\<open>PrevLogIndex\<close>, an entry (or the snapshot boundary) of term \<^verbatim>\<open>PrevLogTerm\<close>.
  Then the log is cut after \<^verbatim>\<open>PrevLogIndex\<close> and extended by the sent entries, the commit index follows
  the leader's as far as the new log reaches, and \<^verbatim>\<open>lastApplied\<close> is pulled back to the end of the
  log; otherwise none of these changes.
\<close>

theorem AppendEntries_outcome:
  "\<exists>rf' r. AppendEntries e rf a = Some (rf', r) \<and>
     (Success r \<longleftrightarrow> currentTerm rf \<le> ae_Term a \<and> agrees rf a) \<and>
     (Success r \<longrightarrow>
        log rf' = take (nat (PrevLogIndex a - lastIncludedIndex rf)) (log rf) @ Entries a \<and>
        lastLogIndex rf' = PrevLogIndex a + int (length (Entries a)) \<and>
        commitIndex rf' = min (max (LeaderCommit a) (commitIndex rf)) (lastLogIndex rf') \<and>
        lastApplied rf' = min (lastApplied rf) (lastLogIndex rf') \<and>
        currentTerm rf' = ae_Term a \<and> serverState rf' = follower) \<and>
     (\<not> Success r \<longrightarrow> log rf' = log rf \<and> commitIndex rf' = commitIndex rf \<and>
        lastApplied rf' = lastApplied rf)"
  by (rule AppendEntries_result)

definition node1 :: "(nat, unit) Raft" where
  "node1 = (fst (Make 3 1 (MakePersister ())))\<lparr>currentTerm := 3,
     log := [\<lparr>Term = 1, Index = 0, Command = 7\<rparr>, \<lparr>Term = 2, Index = 0, Command = 8\<rparr>,
             \<lparr>Term = 2, Index = 0, Command = 9\<rparr>]\<rparr>"

definition append1 :: "int \<Rightarrow> int \<Rightarrow> nat AppendEntriesArgs" where
  "append1 i t = \<lparr>ae_Term = 3, PrevLogIndex = i, PrevLogTerm = t,
     Entries = [\<lparr>Term = 3, Index = 0, Command = 5\<rparr>], LeaderCommit = 1\<rparr>"

lemma node1_eval:
  "currentTerm node1 = 3" "lastIncludedIndex node1 = 0" "lastIncludedTerm node1 = 0"
  "lastApplied node1 = 0" "commitIndex node1 = 0"
  "lastLogIndex node1 = 3" "log node1 = [\<lparr>Term = 1, Index = 0, Command = 7\<rparr>,
     \<lparr>Term = 2, Index = 0, Command = 8\<rparr>, \<lparr>Term = 2, Index = 0, Command = 9\<rparr>]"
  by (simp_all add: node1_def lastLogIndex_def Make_def readPersist_def MakePersister_def
      ReadRaftState_def Let_def)

theorem AppendEntries_outcome_witness:
  "\<exists>rf' r. AppendEntries \<lparr>now = 0, rnd = 0\<rparr> node1 (append1 1 1) = Some (rf', r) \<and> Success r \<and>
     log rf' = [\<lparr>Term = 1, Index = 0, Command = 7\<rparr>, \<lparr>Term = 3, Index = 0, Command = 5\<rparr>] \<and>
     commitIndex rf' = 1"
proof -
  have a: "PrevLogIndex (append1 1 1) = 1" "PrevLogTerm (append1 1 1) = 1"
    "ae_Term (append1 1 1) = 3" "LeaderCommit (append1 1 1) = 1"
    "Entries (append1 1 1) = [\<lparr>Term = 3, Index = 0, Command = 5\<rparr>]"
    by (simp_all add: append1_def)
  have ok: "agrees node1 (append1 1 1)"
    by (simp add: agrees_def term_at_def a node1_eval)
  have o: "\<exists>rf' r. AppendEntries \<lparr>now = 0, rnd = 0\<rparr> node1 (append1 1 1) = Some (rf', r) \<and> Success r \<and>
     log rf' = take 1 (log node1) @ Entries (append1 1 1) \<and> lastLogIndex rf' = 2 \<and>
     commitIndex rf' = min 1 (lastLogIndex rf')"
    using AppendEntries_outcome [of "\<lparr>now = 0, rnd = 0\<rparr>" node1 "append1 1 1"]
    apply (elim exE conjE)
    subgoal for rf' r
      using ok by (intro exI [of _ rf'] exI [of _ r]) (simp add: a node1_eval(1,2,5))
    done
  then show ?thesis by (simp add: a node1_eval(7)) fastforce
qed

text \<open>
  The conflict hint. A request that fails the consistency check at an index the receiver stores is
  answered with the term found there and the first index of the run of entries of that term; a
  request beyond the end of the log with the index after the last entry; a request at or below the
  snapshot boundary with no hint.
\<close>

lemma AppendEntries_hint:
  assumes "AppendEntries e rf a = Some (rf', r)"
    and "currentTerm rf \<le> ae_Term a" and "\<not> agrees rf a"
  shows "if PrevLogIndex a > lastLogIndex rf then XTerm r = -1 \<and> XLen r = lastLogIndex rf + 1
    else if PrevLogIndex a \<le> lastIncludedIndex rf then XTerm r = 0 \<and> XIndex r = 0
    else XTerm r = term_at rf (PrevLogIndex a) \<and>
      lastIncludedIndex rf < XIndex r \<and> XIndex r \<le> PrevLogIndex a \<and>
      (\<forall>j. XIndex r \<le> j \<longrightarrow> j \<le> PrevLogIndex a \<longrightarrow> term_at rf j = XTerm r) \<and>
      (XIndex r = lastIncludedIndex rf + 1 \<or> term_at rf (XIndex r - 1) \<noteq> XTerm r)"
proof (cases "lastIncludedIndex rf < PrevLogIndex a \<and> PrevLogIndex a \<le> lastLogIndex rf")
  case True
  obtain t where t: "term_at rf (PrevLogIndex a) = t" by simp
  obtain x where x: "xIndex_from (adoptTerm (ae_Term a) rf) t (PrevLogIndex a) = Some x"
    "lastIncludedIndex rf < x" "x \<le> PrevLogIndex a"
    "\<forall>j. x \<le> j \<longrightarrow> j \<le> PrevLogIndex a \<longrightarrow> term_at rf j = t"
    "x = lastIncludedIndex rf + 1 \<or> term_at rf (x - 1) \<noteq> t"
    using xIndex_from_spec [of "adoptTerm (ae_Term a) rf" "PrevLogIndex a" t] True t by auto
  have "XTerm r = t" "XIndex r = x"
    using assms True x(1) by (auto simp: AppendEntries_eq t)
  then show ?thesis using True x t by auto
qed (use assms in \<open>auto simp: AppendEntries_eq split: if_splits\<close>)

subsection \<open>The commit rule\<close>

lemma nAgree_count:
  "\<forall>i \<in> set is. i < length m \<Longrightarrow> nAgree m is n = Some (length (filter (\<lambda>i. n \<le> m ! i) is))"
  by (induction "is") auto

text \<open>What the leader may commit: an index of its log beyond the commit index, of its own term, that a
  strict majority of the peers is known to store.\<close>

definition commit_term :: "('c, 'b) Raft \<Rightarrow> int \<Rightarrow> int" where
  "commit_term rf n = (if n \<le> lastIncludedIndex rf then lastIncludedTerm rf else term_at rf n)"

definition committable :: "('c, 'b) Raft \<Rightarrow> int \<Rightarrow> bool" where
  "committable rf n \<longleftrightarrow> commitIndex rf < n \<and> n \<le> lastLogIndex rf \<and>
     commit_term rf n = currentTerm rf \<and>
     2 * length (filter (\<lambda>m. n \<le> m) (matchIndex rf)) > peers rf"

lemma filter_nth_upt: "length (filter (\<lambda>i. P (xs ! i)) [0..<length xs]) = length (filter P xs)"
  using filter_map [of P "(!) xs" "[0..<length xs]"] by (simp add: map_nth comp_def)

lemma ofCurrentTerm_total:
  "n \<le> lastLogIndex rf \<Longrightarrow> ofCurrentTerm rf n = Some (commit_term rf n = currentTerm rf)"
  by (auto simp: ofCurrentTerm_def commit_term_def term_at_def go_index_def lastLogIndex_def)

lemma advanceCommit_from_spec:
  assumes "length (matchIndex rf) = peers rf" and "n \<le> lastLogIndex rf"
    and "\<forall>k. n < k \<longrightarrow> \<not> committable rf k"
  shows "\<exists>c. advanceCommit_from rf n = Some (rf\<lparr>commitIndex := c\<rparr>) \<and>
    (c = commitIndex rf \<or> committable rf c) \<and> (\<forall>k. c < k \<longrightarrow> \<not> committable rf k)"
  using assms
proof (induction rf n rule: advanceCommit_from.induct)
  case (1 rf n)
  show ?case
  proof (cases "n > commitIndex rf")
    case False
    then have "advanceCommit_from rf n = Some (rf\<lparr>commitIndex := commitIndex rf\<rparr>)"
      by (subst advanceCommit_from.simps) simp
    moreover have "\<forall>k. commitIndex rf < k \<longrightarrow> \<not> committable rf k"
      using "1.prems"(3) False by (meson not_le order.strict_trans1)
    ultimately show ?thesis by blast
  next
    case True
    let ?cur = "commit_term rf n = currentTerm rf"
    let ?k = "length (filter (\<lambda>m. n \<le> m) (matchIndex rf))"
    have cur: "ofCurrentTerm rf n = Some ?cur" by (rule ofCurrentTerm_total [OF "1.prems"(2)])
    have agree: "nAgree (matchIndex rf) [0..<peers rf] n = Some ?k"
      using nAgree_count [of "[0..<peers rf]" "matchIndex rf" n] filter_nth_upt [of "\<lambda>m. n \<le> m" "matchIndex rf"]
        "1.prems"(1) by auto
    have com: "committable rf n \<longleftrightarrow> ?cur \<and> ?k > peers rf div 2"
      using True "1.prems"(2) by (auto simp: committable_def)
    show ?thesis
    proof (cases "committable rf n")
      case yes: True
      then have "advanceCommit_from rf n = Some (rf\<lparr>commitIndex := n\<rparr>)"
        using True cur agree com by (subst advanceCommit_from.simps) simp
      then show ?thesis using yes "1.prems"(3) by blast
    next
      case no: False
      then have below: "\<forall>k. n - 1 < k \<longrightarrow> \<not> committable rf k"
        using "1.prems"(3) by (metis not_less_iff_gr_or_eq zle_diff1_eq not_le)
      have "advanceCommit_from rf n = advanceCommit_from rf (n - 1)"
        using True cur agree com no by (subst advanceCommit_from.simps) auto
      moreover have "\<exists>c. advanceCommit_from rf (n - 1) = Some (rf\<lparr>commitIndex := c\<rparr>) \<and>
        (c = commitIndex rf \<or> committable rf c) \<and> (\<forall>k. c < k \<longrightarrow> \<not> committable rf k)"
      proof (cases ?cur)
        case True
        then show ?thesis
          using "1.IH"(2) [OF \<open>n > commitIndex rf\<close> cur _ agree] no com "1.prems" below by simp
      next
        case False
        then show ?thesis
          using "1.IH"(1) [OF \<open>n > commitIndex rf\<close> cur] "1.prems" below by simp
      qed
      ultimately show ?thesis by simp
    qed
  qed
qed

text \<open>
  C22. The commit rule. \<^verbatim>\<open>advanceCommit\<close> moves the commit index to the greatest index beyond it that
  holds an entry of the leader's current term and is known to be stored by a strict majority, leaves
  it alone when there is none, and never panics.
\<close>

theorem advanceCommit_greatest:
  assumes "length (matchIndex rf) = peers rf"
  shows "\<exists>c. advanceCommit rf = Some (rf\<lparr>commitIndex := c\<rparr>) \<and>
    (if \<exists>n. committable rf n then committable rf c else c = commitIndex rf) \<and>
    (\<forall>n. committable rf n \<longrightarrow> n \<le> c)"
proof -
  have "\<forall>k. lastLogIndex rf < k \<longrightarrow> \<not> committable rf k" by (simp add: committable_def)
  from advanceCommit_from_spec [OF assms order_refl this] obtain c where
    c: "advanceCommit rf = Some (rf\<lparr>commitIndex := c\<rparr>)" "c = commitIndex rf \<or> committable rf c"
      "\<forall>k. c < k \<longrightarrow> \<not> committable rf k"
    unfolding advanceCommit_def by blast
  have "c \<noteq> commitIndex rf" if "committable rf n" for n
    using that c(3) by (auto simp: committable_def)
  then show ?thesis using c by (metis not_le)
qed

theorem advanceCommit_greatest_witness:
  "\<exists>c. advanceCommit (node1\<lparr>currentTerm := 2, matchIndex := [3, 2, 0]\<rparr>) =
     Some (node1\<lparr>currentTerm := 2, matchIndex := [3, 2, 0], commitIndex := c\<rparr>) \<and> c \<ge> 2"
proof -
  let ?rf = "node1\<lparr>currentTerm := 2, matchIndex := [3, 2, 0]\<rparr>"
  have p: "peers ?rf = 3" by (simp add: node1_def)
  have "committable ?rf 2"
    using p by (simp add: committable_def commit_term_def term_at_def lastLogIndex_def node1_eval)
  then show ?thesis using advanceCommit_greatest [of ?rf] p by fastforce
qed

subsection \<open>The voting rule\<close>

definition may_vote :: "('c, 'b) Raft \<Rightarrow> RequestVoteArgs \<Rightarrow> bool" where
  "may_vote rf a \<longleftrightarrow> currentTerm rf \<le> rv_Term a \<and>
     (currentTerm rf < rv_Term a \<or> votedFor rf = -1 \<or> votedFor rf = CandidateId a) \<and>
     last_pos rf \<le> LogPos (LastLogTerm a) (LastLogIndex a)"

text \<open>
  C23. The voting rule. A vote is granted exactly when the candidate's term is not old, the voter is
  free to vote in that term (it is new to it, has not voted, or voted for the same candidate), and
  the voter's log does not end at a later position than the candidate's; positions are compared by
  term, then by index. The voter's term and vote afterwards follow.
\<close>

theorem RequestVote_rule:
  "(case RequestVote e rf a of (rf', r) \<Rightarrow>
     VoteGranted r = may_vote rf a \<and> rvr_Term r = currentTerm rf' \<and>
     currentTerm rf' = max (currentTerm rf) (rv_Term a) \<and>
     votedFor rf' = (if may_vote rf a then CandidateId a
                     else if currentTerm rf < rv_Term a then -1 else votedFor rf) \<and>
     log rf' = log rf)"
proof -
  consider "rv_Term a < currentTerm rf" | "rv_Term a = currentTerm rf" | "currentTerm rf < rv_Term a"
    by linarith
  then show ?thesis
    by cases (simp_all add: RequestVote_def Let_def may_vote_def last_pos_def less_eq_logpos_def
        lastLogIndex_def lastLogTerm_def, auto)
qed

text \<open>
  Election timeouts are spread over [250, 550) milliseconds whatever \<^verbatim>\<open>rand.Int63\<close> returns, and a
  reset deadline lies that far in the future.
\<close>

lemma election_timeout_range:
  "250 \<le> randomElectionTimeout r \<and> randomElectionTimeout r < 550 \<and>
   (\<exists>d. electionDeadline (resetDeadline e rf) = Some d \<and> now e + 250 \<le> d \<and> d < now e + 550)"
  by (auto simp: randomElectionTimeout_def resetDeadline_def)

subsection \<open>Snapshots and applying\<close>

text \<open>
  Compaction. \<^verbatim>\<open>Snapshot(index)\<close> with an applied index above the snapshot boundary and within the log
  moves the boundary to the index, remembers the term of the entry there, keeps every later entry at
  its index, and saves both the snapshot and the shortened state; it panics exactly when the index
  lies beyond the end of the log.
\<close>

lemma Snapshot_outcome:
  assumes "lastIncludedIndex rf < i" and "i \<le> lastApplied rf"
  shows "if lastLogIndex rf < i then Snapshot rf i s = None
    else \<exists>rf'. Snapshot rf i s = Some rf' \<and> lastIncludedIndex rf' = i \<and>
      lastLogIndex rf' = lastLogIndex rf \<and>
      (\<forall>j. i \<le> j \<longrightarrow> j \<le> lastLogIndex rf \<longrightarrow> term_at rf' j = term_at rf j) \<and>
      log rf' = drop (nat (i - lastIncludedIndex rf)) (log rf) \<and>
      ReadSnapshot (persister rf') = s \<and> durable rf'"
proof (cases "lastLogIndex rf < i")
  case True
  then have "\<not> i - lastIncludedIndex rf - 1 < int (length (log rf))" by (simp add: lastLogIndex_def)
  then show ?thesis using assms True by (simp add: Snapshot_def Let_def go_index_def)
next
  case False
  let ?cut = "i - lastIncludedIndex rf"
  let ?rf' = "persist (rf\<lparr>persister := SaveSnapshot s (persister rf), lastIncludedIndex := i,
    lastIncludedTerm := term_at rf i, log := drop (nat ?cut) (log rf)\<rparr>)"
  have b: "0 < ?cut" "?cut \<le> int (length (log rf))"
    using assms False by (simp_all add: lastLogIndex_def)
  then have "Snapshot rf i s = Some ?rf'"
    using assms by (simp add: Snapshot_def Let_def go_index_def go_slice_from_def term_at_def)
  moreover have "term_at ?rf' j = term_at rf j" if "i \<le> j" "j \<le> lastLogIndex rf" for j
  proof (cases "j = i")
    case False
    then have "nat ?cut + nat (j - i - 1) = nat (j - lastIncludedIndex rf - 1)" "j - i - 1 \<ge> 0"
      using that b by (simp_all add: nat_add_distrib [symmetric])
    then show ?thesis
      using False that b by (simp add: term_at_def lastLogIndex_def)
  qed (simp add: term_at_def)
  moreover have "lastLogIndex ?rf' = lastLogIndex rf"
    using b by (simp add: lastLogIndex_def)
  moreover have "ReadSnapshot (persister ?rf') = s"
    by (simp add: ReadSnapshot_def persist_def SaveRaftState_def SaveSnapshot_def)
  ultimately show ?thesis using False by auto
qed

text \<open>
  \<^verbatim>\<open>InstallSnapshot\<close>. An old term is refused; a snapshot that is not newer than the peer's changes at
  most its term and role; a newer one replaces the snapshot and the boundary, raises \<^verbatim>\<open>lastApplied\<close> and
  \<^verbatim>\<open>commitIndex\<close> to it, discards the whole log, and is handed to the service.
\<close>

lemma InstallSnapshot_outcome:
  "(case InstallSnapshot rf a of (rf', r, d) \<Rightarrow>
     if is_Term a < currentTerm rf then rf' = rf \<and> d = None
     else currentTerm rf' = is_Term a \<and> serverState rf' = follower \<and>
       (if is_LastIncludedIndex a \<le> lastIncludedIndex rf
        then d = None \<and> log rf' = log rf \<and> lastIncludedIndex rf' = lastIncludedIndex rf
        else d = Some (Data a) \<and> log rf' = [] \<and> lastIncludedIndex rf' = is_LastIncludedIndex a \<and>
          lastIncludedTerm rf' = is_LastIncludedTerm a \<and>
          lastApplied rf' = max (lastApplied rf) (is_LastIncludedIndex a) \<and>
          commitIndex rf' = max (commitIndex rf) (is_LastIncludedIndex a) \<and>
          ReadSnapshot (persister rf') = Data a \<and> durable rf'))"
proof -
  have "durable (persist rf'\<lparr>persister := (persister (persist rf'))\<lparr>snapshot := d\<rparr>\<rparr>)" for rf' d
    by (simp only: durable_volatile durable_persist)
  then show ?thesis
    by (simp add: InstallSnapshot_def Let_def SaveSnapshot_def ReadSnapshot_def max_def)
qed

text \<open>
  A snapshot installed below \<^verbatim>\<open>lastApplied\<close> leaves the peer unable to compact: if the service then
  asks for a snapshot at an index it has already applied above the installed one, \<^verbatim>\<open>Snapshot\<close> panics,
  because \<^verbatim>\<open>InstallSnapshot\<close> discarded the entries between.
\<close>

lemma Snapshot_after_install_panics:
  assumes "InstallSnapshot rf a = (rf', r, Some d)"
    and "is_LastIncludedIndex a < i" and "i \<le> lastApplied rf"
  shows "Snapshot rf' i s = None"
proof -
  have "lastIncludedIndex rf' = is_LastIncludedIndex a" "log rf' = []" "lastApplied rf \<le> lastApplied rf'"
    using assms(1) by (auto simp: InstallSnapshot_def Let_def split: if_splits)
  then show ?thesis using assms(2,3) by (simp add: Snapshot_def Let_def go_index_def)
qed

text \<open>
  Applying. A live peer with committed entries it has not applied and still stores applies the next
  one: the message carries the index after \<^verbatim>\<open>lastApplied\<close> and the command stored there, and
  \<^verbatim>\<open>lastApplied\<close> moves by one.
\<close>

lemma BackgroundApply_next:
  assumes "\<not> dead rf" and "lastIncludedIndex rf \<le> lastApplied rf"
    and "lastApplied rf < commitIndex rf" and "commitIndex rf \<le> lastLogIndex rf"
  shows "BackgroundApply nil rf = Some (Applied (rf\<lparr>lastApplied := lastApplied rf + 1\<rparr>)
    \<lparr>msg_Index = lastApplied rf + 1,
     msg_Command = Some (Command (log rf ! nat (lastApplied rf - lastIncludedIndex rf))),
     UseSnapshot = False, msg_Snapshot = nil\<rparr>)"
proof -
  have "log rf \<noteq> []" using assms(2-) by (auto simp: lastLogIndex_def)
  then show ?thesis
    using assms by (simp add: BackgroundApply_def killed_def Let_def go_index_def lastLogIndex_def)
qed

end
