(* ===== verification/Lab_Rpc_Proofs.thy ===== *)
theory Lab_Rpc_Proofs
  imports Lab_Rpc
begin

text \<open>
  What the simulated network promises: at most one execution per call, success only with a valid reply
  of a server that is still there, delivery on a reliable network, and how requests find their method.
\<close>

subsection \<open>Groups of ends\<close>

text \<open>Several ends disabled, and several enabled.\<close>

definition unlink :: "'e set \<Rightarrow> ('e, 's) Network \<Rightarrow> ('e, 's) Network" where
  "unlink E rn = rn\<lparr>enabled := (\<lambda>e. enabled rn e \<and> e \<notin> E)\<rparr>"

definition link :: "'e set \<Rightarrow> ('e, 's) Network \<Rightarrow> ('e, 's) Network" where
  "link E rn = rn\<lparr>enabled := (\<lambda>e. enabled rn e \<or> e \<in> E)\<rparr>"

lemma Enable_unlink: "Enable e False rn = unlink {e} rn"
  and Enable_link: "Enable e True rn = link {e} rn"
  by (simp_all add: Enable_def unlink_def link_def fun_upd_def conj_commute disj_commute fun_eq_iff if_bool_eq_conj)
    (rule arg_cong [where f = "\<lambda>f. rn\<lparr>enabled := f\<rparr>"], auto)+

lemma unlink_unlink: "unlink A (unlink B rn) = unlink (B \<union> A) rn"
  and link_link: "link A (link B rn) = link (B \<union> A) rn"
  by (simp_all add: unlink_def link_def conj_ac disj_ac)

lemma unlink_empty [simp]: "unlink {} rn = rn" and link_empty [simp]: "link {} rn = rn"
  by (simp_all add: unlink_def link_def)

lemma net_fields [simp]:
  "enabled (unlink E rn) e \<longleftrightarrow> enabled rn e \<and> e \<notin> E" "enabled (link E rn) e \<longleftrightarrow> enabled rn e \<or> e \<in> E"
  "ends (unlink E rn) = ends rn" "ends (link E rn) = ends rn"
  "connections (unlink E rn) = connections rn" "connections (link E rn) = connections rn"
  "servers (unlink E rn) = servers rn" "servers (link E rn) = servers rn"
  by (simp_all add: unlink_def link_def)

subsection \<open>At most once\<close>

text \<open>
  A call that has not been dispatched has no handler; a handler that has not run has not been executed; a
  reply that is offered, or was given to the client as a success, is the reply of the one execution.
\<close>

definition ran :: "nat \<Rightarrow> ('e, 's, 'a, 'r, 'b, 'w) net \<Rightarrow> bool" where
  "ran i n \<longleftrightarrow> i \<in> fst ` set (executed n)"

definition call_inv :: "('e, 's, 'a, 'r, 'b, 'w) net \<Rightarrow> nat \<Rightarrow> bool" where
  "call_inv n i \<longleftrightarrow>
     (handlers n i \<noteq> None \<longrightarrow> \<not> ran i n) \<and>
     (\<forall>rep. offered n i = Some rep \<longrightarrow> (i, rep) \<in> set (executed n)) \<and>
     (pending n i = None \<or> (\<exists>req. pending n i = Some (Sent req)) \<longrightarrow> handlers n i = None \<and> \<not> ran i n) \<and>
     (\<forall>req rep. pending n i = Some (Answered req rep) \<longrightarrow> rep_ok rep \<longrightarrow> (i, rep) \<in> set (executed n))"

definition net_inv :: "('e, 's, 'a, 'r, 'b, 'w) net \<Rightarrow> bool" where
  "net_inv n \<longleftrightarrow> distinct (map fst (executed n)) \<and> (\<forall>i. call_inv n i)"

lemma finish_ok:
  assumes "ProcessReq_finish r e sn srv rel lre reply rn = (ans, ms)" and "rep_ok ans"
  shows "reply = Some ans \<and> \<not> IsServerDead e sn srv rn"
  using assms by (auto simp: ProcessReq_finish_def Let_def split: option.splits if_splits)

text \<open>A step that only moves call \<open>i\<close> along keeps the invariant of the other calls.\<close>

lemma net_inv_call:
  assumes "net_inv n" and "executed n' = executed n" and "call_inv n' i"
    and "\<forall>k. k \<noteq> i \<longrightarrow> pending n' k = pending n k \<and> handlers n' k = handlers n k \<and> offered n' k = offered n k"
  shows "net_inv n'"
proof -
  have "call_inv n' k" for k
    using assms by (cases "k = i") (auto simp: net_inv_def call_inv_def ran_def)
  then show ?thesis using assms(1,2) by (simp add: net_inv_def)
qed

lemma net_inv_step:
  assumes "net_step gob n n'" and inv: "net_inv n"
  shows "net_inv n'"
  using assms(1)
proof cases
  case (tester rn')
  then show ?thesis using inv by (simp add: net_inv_def call_inv_def ran_def)
next
  case (call i endname svcMeth args)
  then show ?thesis using inv by (intro net_inv_call [OF inv, of _ i]) (auto simp: net_inv_def call_inv_def ran_def)
next
  case (refuse i req r)
  have "call_inv n i" using inv by (simp add: net_inv_def)
  then show ?thesis using refuse by (intro net_inv_call [OF inv, of _ i]) (auto simp: call_inv_def ran_def)
next
  case (dispatch i req r ms sn srv rel lre)
  have "call_inv n i" using inv by (simp add: net_inv_def)
  then show ?thesis using dispatch by (intro net_inv_call [OF inv, of _ i]) (auto simp: call_inv_def ran_def)
next
  case (handle i req srv rs rep w')
  have i: "call_inv n i" using inv by (simp add: net_inv_def)
  then have new: "\<not> ran i n" using handle(2) by (simp add: call_inv_def)
  have "call_inv n' k" for k
  proof (cases "k = i")
    case True
    then show ?thesis using i new handle(1,2)
      by (auto simp: call_inv_def ran_def)
  next
    case False
    have "call_inv n k" using inv by (simp add: net_inv_def)
    then show ?thesis using False handle(1)
      by (auto simp: call_inv_def ran_def)
  qed
  then show ?thesis using inv new handle(1) by (auto simp: net_inv_def ran_def)
next
  case (receive i req sn srv rel lre rep r ans ms)
  have i: "call_inv n i" using inv by (simp add: net_inv_def)
  have "rep_ok ans \<longrightarrow> ans = rep" using finish_ok [OF receive(4)] by blast
  then show ?thesis using receive i
    by (intro net_inv_call [OF inv, of _ i]) (auto simp: call_inv_def ran_def)
next
  case (abandon i req sn srv rel lre r ans ms)
  have i: "call_inv n i" using inv by (simp add: net_inv_def)
  have "\<not> rep_ok ans" using finish_ok [OF abandon(4)] by blast
  then show ?thesis using abandon i
    by (intro net_inv_call [OF inv, of _ i]) (auto simp: call_inv_def ran_def)
qed

lemma net_inv_reachable: "net_reachable gob h w n \<Longrightarrow> net_inv n"
proof (induction rule: net_reachable.induct)
  case net_start
  show ?case by (simp add: net_inv_def call_inv_def net_init_def ran_def)
next
  case (net_next n n')
  then show ?case using net_inv_step by blast
qed

text \<open>
  C20. At most once. In every reachable state of the network, whatever the tester does to it meanwhile,
  the handler of a call has run at most once; a call that returned true was executed, and its reply is
  the reply of that execution.
\<close>

theorem rpc_at_most_once:
  assumes "net_reachable gob h w n"
  shows "distinct (map fst (executed n)) \<and>
    (\<forall>i req rep. pending n i = Some (Answered req rep) \<longrightarrow> rep_ok rep \<longrightarrow> (i, rep) \<in> set (executed n))"
proof -
  have inv: "net_inv n" by (rule net_inv_reachable [OF assms])
  have "(i, rep) \<in> set (executed n)" if "pending n i = Some (Answered req rep)" "rep_ok rep" for i req rep
  proof -
    have "call_inv n i" using inv by (simp add: net_inv_def)
    then show ?thesis using that by (simp add: call_inv_def)
  qed
  then show ?thesis using inv by (auto simp: net_inv_def)
qed

subsection \<open>When a request is delivered\<close>

text \<open>The server a request through end \<open>e\<close> is for, by name and address: there is one if the end is enabled and
  connected to a server that exists.\<close>

definition destination :: "'e \<Rightarrow> ('e, 's) Network \<Rightarrow> ('s \<times> nat) option" where
  "destination e rn =
     (if enabled rn e then Option.bind (connections rn e) (\<lambda>sn. map_option (Pair sn) (servers rn sn)) else None)"

lemma ProcessReq_start_none:
  "destination e rn = None \<Longrightarrow>
   ProcessReq_start r e rn = NoReply (if longDelays rn then roll_timeout r mod 7000 else roll_timeout r mod 100)"
  by (auto simp: destination_def ProcessReq_start_def ReadEndnameInfo_def bind_eq_None_conv split: if_splits option.splits)

lemma ProcessReq_start_some:
  "destination e rn = Some (sn, srv) \<Longrightarrow>
   ProcessReq_start r e rn =
     (if \<not> reliable rn \<and> roll_drop r mod 1000 < 100 then Dropped (roll_delay r mod 27)
      else Dispatch (if reliable rn then 0 else roll_delay r mod 27) sn srv (reliable rn) (longReordering rn))"
  by (auto simp: destination_def ProcessReq_start_def ReadEndnameInfo_def Let_def bind_eq_Some_conv split: if_splits)

lemma ProcessReq_finish_cases:
  "ProcessReq_finish r e sn srv rel lre reply rn =
     (if \<not> enabled rn e \<or> servers rn sn \<noteq> Some srv \<or> reply = None \<or> \<not> rel \<and> roll_drop_reply r mod 1000 < 100
      then (no_reply, 0)
      else (the reply, if lre \<and> roll_reorder r mod 900 < 600
        then 200 + roll_wait r mod (1 + roll_wait_max r mod 2000) else 0))"
  by (cases reply) (simp_all add: ProcessReq_finish_def IsServerDead_def Let_def)

text \<open>Numbers for which nothing special happens; the outcomes are attained by changing some of them.\<close>

definition calm :: rolls where
  "calm = \<lparr>roll_delay = 0, roll_drop = 999, roll_drop_reply = 999, roll_reorder = 899, roll_wait = 0,
     roll_wait_max = 1999, roll_timeout = 0\<rparr>"

lemma starts_unreachable:
  fixes rn :: "('e, 's) Network"
  assumes "destination e rn = None"
  shows "range (\<lambda>r. ProcessReq_start r e rn) = NoReply ` {..<if longDelays rn then 7000 else 100}"
proof (intro equalityI subsetI)
  fix v :: "'s verdict" assume "v \<in> NoReply ` {..<if longDelays rn then 7000 else 100}"
  then obtain ms where "v = NoReply ms" "ms < (if longDelays rn then 7000 else 100)" by auto
  then have "v = ProcessReq_start (calm\<lparr>roll_timeout := ms\<rparr>) e rn"
    by (simp add: ProcessReq_start_none [OF assms] split: if_splits)
  then show "v \<in> range (\<lambda>r. ProcessReq_start r e rn)" by blast
qed (auto simp: ProcessReq_start_none [OF assms])

lemma starts_reachable:
  assumes "destination e rn = Some (sn, srv)"
  shows "range (\<lambda>r. ProcessReq_start r e rn) =
     (if reliable rn then {Dispatch 0 sn srv True (longReordering rn)}
      else Dropped ` {..<27} \<union> (\<lambda>ms. Dispatch ms sn srv False (longReordering rn)) ` {..<27})"
proof (cases "reliable rn")
  case False
  have "v \<in> range (\<lambda>r. ProcessReq_start r e rn)"
    if "v \<in> Dropped ` {..<27} \<union> (\<lambda>ms. Dispatch ms sn srv False (longReordering rn)) ` {..<27}" for v
  proof -
    from that consider ms where "ms < 27" "v = Dropped ms"
      | ms where "ms < 27" "v = Dispatch ms sn srv False (longReordering rn)" by auto
    then show ?thesis
    proof cases
      case (1 ms)
      then have "v = ProcessReq_start (calm\<lparr>roll_delay := ms, roll_drop := 0\<rparr>) e rn"
        using False by (simp add: ProcessReq_start_some [OF assms])
      then show ?thesis by blast
    next
      case (2 ms)
      then have "v = ProcessReq_start (calm\<lparr>roll_delay := ms\<rparr>) e rn"
        using False by (simp add: ProcessReq_start_some [OF assms] calm_def)
      then show ?thesis by blast
    qed
  qed
  then show ?thesis using False by (auto simp: ProcessReq_start_some [OF assms])
qed (simp add: ProcessReq_start_some [OF assms])

lemma reorder_delay: "roll_wait r mod (1 + roll_wait_max r mod 2000) < 2000"
  by (rule less_le_trans [OF mod_less_divisor]) (simp_all add: Suc_leI)

lemma finishes_alive:
  fixes rep :: "'b replyMsg"
  assumes "enabled rn e" and "servers rn sn = Some srv"
  shows "range (\<lambda>r. ProcessReq_finish r e sn srv rel lre (Some rep) rn) =
     (if rel then {} else {(no_reply, 0)}) \<union> Pair rep ` (if lre then insert 0 {200..<2200} else {0})"
proof (intro equalityI subsetI)
  fix v :: "'b replyMsg \<times> nat" assume "v \<in> (if rel then {} else {(no_reply, 0)}) \<union> Pair rep ` (if lre then insert 0 {200..<2200} else {0})"
  then consider "\<not> rel" "v = (no_reply, 0)" | "v = (rep, 0)" | ms where "lre" "200 \<le> ms" "ms < 2200" "v = (rep, ms)"
    by (auto split: if_splits)
  then show "v \<in> range (\<lambda>r. ProcessReq_finish r e sn srv rel lre (Some rep) rn)"
  proof cases
    case 1
    then have "v = ProcessReq_finish (calm\<lparr>roll_drop_reply := 0\<rparr>) e sn srv rel lre (Some rep) rn"
      by (simp add: ProcessReq_finish_cases)
    then show ?thesis by blast
  next
    case 2
    then have "v = ProcessReq_finish calm e sn srv rel lre (Some rep) rn"
      using assms by (simp add: ProcessReq_finish_cases calm_def)
    then show ?thesis by blast
  next
    case (3 ms)
    then have "v = ProcessReq_finish (calm\<lparr>roll_reorder := 0, roll_wait := ms - 200\<rparr>) e sn srv rel lre (Some rep) rn"
      using assms by (simp add: ProcessReq_finish_cases calm_def)
    then show ?thesis by blast
  qed
next
  fix v assume "v \<in> range (\<lambda>r. ProcessReq_finish r e sn srv rel lre (Some rep) rn)"
  then obtain r where v: "v = ProcessReq_finish r e sn srv rel lre (Some rep) rn" by blast
  show "v \<in> (if rel then {} else {(no_reply, 0)}) \<union> Pair rep ` (if lre then insert 0 {200..<2200} else {0})"
    using assms reorder_delay [of r] unfolding v ProcessReq_finish_cases by (auto split: if_splits)
qed

text \<open>How many of a thousand numbers drop a message.\<close>

lemma drops_one_in_ten: "card {d. d < 1000 \<and> d mod 1000 < (100::nat)} = 100"
proof -
  have "{d. d < 1000 \<and> d mod 1000 < (100::nat)} = {..<100}" by auto
  then show ?thesis by simp
qed

lemma dropped_requests:
  "card {d. d < 1000 \<and> (\<exists>ms. ProcessReq_start (r\<lparr>roll_drop := d\<rparr>) e rn = Dropped ms)} =
     (if destination e rn \<noteq> None \<and> \<not> reliable rn then 100 else 0)"
proof (cases "destination e rn")
  case (Some p)
  then obtain sn srv where "destination e rn = Some (sn, srv)" by (cases p) auto
  then show ?thesis using drops_one_in_ten
    by (cases "reliable rn") (simp_all add: ProcessReq_start_some cong: conj_cong)
qed (simp add: ProcessReq_start_none)

lemma dropped_replies:
  assumes "enabled rn e" and "servers rn sn = Some srv" and "rep \<noteq> no_reply"
  shows "card {d. d < 1000 \<and> fst (ProcessReq_finish (r\<lparr>roll_drop_reply := d\<rparr>) e sn srv rel lre (Some rep) rn) = no_reply} =
     (if rel then 0 else 100)"
  using assms drops_one_in_ten by (cases rel) (simp_all add: ProcessReq_finish_cases cong: conj_cong)

lemma delayed_replies:
  "card {d. d < 900 \<and> 0 < snd (ProcessReq_finish (r\<lparr>roll_reorder := d\<rparr>) e sn srv True lre (Some rep) rn)} =
     (if enabled rn e \<and> servers rn sn = Some srv \<and> lre then 600 else 0)"
proof -
  have "{d. d < 900 \<and> d mod 900 < (600::nat)} = {..<600}" by auto
  then have "card {d. d < 900 \<and> d mod 900 < (600::nat)} = 600" by simp
  then show ?thesis by (simp add: ProcessReq_finish_cases cong: conj_cong)
qed

text \<open>
  C34. What can happen to a call, over all the numbers the network may draw. A request without a destination (its
  end disabled, not connected, or the server not there) gets no reply after any time below seven seconds with long
  delays and below a tenth of a second without. With a destination a reliable network hands it over at once; an
  unreliable one drops it or hands it over, after up to 26 milliseconds, and drops it for exactly a hundred of every thousand
  numbers drawn. A reply is lost for certain if the end is disabled or the server replaced meanwhile, or there is
  none; otherwise a reliable network passes it on, an unreliable one loses it for exactly a hundred of
  every thousand numbers, and it is passed on at once or, only with long reordering and then for exactly two
  thirds of the numbers, after any time from 200 to 2199 milliseconds. Nothing else happens, and each of these does.
\<close>

theorem ProcessReq_outcome:
  "range (\<lambda>r. ProcessReq_start r e rn) =
     (case destination e rn of
        None \<Rightarrow> NoReply ` {..<if longDelays rn then 7000 else 100}
      | Some (sn, srv) \<Rightarrow>
          if reliable rn then {Dispatch 0 sn srv True (longReordering rn)}
          else Dropped ` {..<27} \<union> (\<lambda>ms. Dispatch ms sn srv False (longReordering rn)) ` {..<27}) \<and>
   card {d. d < 1000 \<and> (\<exists>ms. ProcessReq_start (r\<lparr>roll_drop := d\<rparr>) e rn = Dropped ms)} =
     (if destination e rn \<noteq> None \<and> \<not> reliable rn then 100 else 0) \<and>
   range (\<lambda>r. ProcessReq_finish r e sn srv rel lre reply rn) =
     (if enabled rn e \<and> servers rn sn = Some srv \<and> reply \<noteq> None
      then (if rel then {} else {(no_reply, 0)}) \<union> Pair (the reply) ` (if lre then insert 0 {200..<2200} else {0})
      else {(no_reply, 0)}) \<and>
   card {d. d < 1000 \<and> fst (ProcessReq_finish (r\<lparr>roll_drop_reply := d\<rparr>) e sn srv rel lre
       (Some \<lparr>rep_ok = True, rep_reply = b\<rparr>) rn) = no_reply} =
     (if enabled rn e \<and> servers rn sn = Some srv then if rel then 0 else 100 else 1000) \<and>
   card {d. d < 900 \<and> 0 < snd (ProcessReq_finish (r\<lparr>roll_reorder := d\<rparr>) e sn srv True lre (Some rep) rn)} =
     (if enabled rn e \<and> servers rn sn = Some srv \<and> lre then 600 else 0)"
proof (intro conjI)
  show "range (\<lambda>r. ProcessReq_start r e rn) =
     (case destination e rn of
        None \<Rightarrow> NoReply ` {..<if longDelays rn then 7000 else 100}
      | Some (sn, srv) \<Rightarrow>
          if reliable rn then {Dispatch 0 sn srv True (longReordering rn)}
          else Dropped ` {..<27} \<union> (\<lambda>ms. Dispatch ms sn srv False (longReordering rn)) ` {..<27})"
    using starts_unreachable [of e rn] starts_reachable [of e rn] by (cases "destination e rn") auto
  show "range (\<lambda>r. ProcessReq_finish r e sn srv rel lre reply rn) =
     (if enabled rn e \<and> servers rn sn = Some srv \<and> reply \<noteq> None
      then (if rel then {} else {(no_reply, 0)}) \<union> Pair (the reply) ` (if lre then insert 0 {200..<2200} else {0})
      else {(no_reply, 0)})"
  proof (cases "enabled rn e \<and> servers rn sn = Some srv \<and> reply \<noteq> None")
    case True
    then obtain rep where "reply = Some rep" by blast
    then show ?thesis using True finishes_alive [of rn e sn srv rel lre rep] by simp
  next
    case False
    then show ?thesis by (auto simp: ProcessReq_finish_cases)
  qed
  show "card {d. d < 1000 \<and> fst (ProcessReq_finish (r\<lparr>roll_drop_reply := d\<rparr>) e sn srv rel lre
       (Some \<lparr>rep_ok = True, rep_reply = b\<rparr>) rn) = no_reply} =
     (if enabled rn e \<and> servers rn sn = Some srv then if rel then 0 else 100 else 1000)"
    using dropped_replies [of rn e sn srv "\<lparr>rep_ok = True, rep_reply = b\<rparr>" r rel lre]
    by (auto simp: ProcessReq_finish_cases)
qed (rule dropped_requests delayed_replies)+

subsection \<open>Finding the method\<close>

lemma LastIndex_split:
  assumes "CHR ''.'' \<notin> set m"
  shows "LastIndex (s @ CHR ''.'' # m) (CHR ''.'') = int (length s)"
proof -
  have "takeWhile (\<lambda>x. x \<noteq> CHR ''.'') (rev m @ CHR ''.'' # rev s) = rev m"
    using assms by (subst takeWhile_append2) auto
  then show ?thesis by (simp add: LastIndex_def)
qed

lemma split_request:
  "go_slice_to (s @ CHR ''.'' # m) (int (length s)) = Some s"
  "go_slice_from (s @ CHR ''.'' # m) (int (length s) + 1) = Some m"
  by (simp_all add: go_slice_to_def go_slice_from_def nat_add_distrib)

lemma Server_dispatch_split:
  assumes "CHR ''.'' \<notin> set meth" and "req_svcMeth req = name @ ''.'' @ meth"
  shows "Server_dispatch gob req rs w =
      (case Option.bind (services rs name) (\<lambda>svc. methods svc meth) of
         None \<Rightarrow> None
       | Some m \<Rightarrow> (case Func m (dec_args gob (req_args req)) w of (rep, w') \<Rightarrow>
           Some (rs\<lparr>count := count rs + 1\<rparr>, \<lparr>rep_ok = True, rep_reply = Some (enc_reply gob rep)\<rparr>, w')))"
proof (cases "services rs name")
  case (Some svc)
  then show ?thesis using assms(2)
    by (cases "methods svc meth") (simp_all add: Server_dispatch_def Service_dispatch_def
        LastIndex_split [OF assms(1)] split_request Let_def split: prod.split)
qed (simp add: assms(2) Server_dispatch_def LastIndex_split [OF assms(1)] split_request)

text \<open>
  Dispatch. A request is split at its last dot. If the server has a service of the first name with a
  handler of the second, the handler runs once on the decoded arguments, its encoded reply is returned
  with success, and the count of requests grows by one; without a dot, such a service or such a method
  the process ends.
\<close>

lemma Server_dispatch_outcome:
  assumes "CHR ''.'' \<notin> set meth"
  shows "Server_dispatch gob (req\<lparr>req_svcMeth := name @ ''.'' @ meth\<rparr>) rs w =
      (case Option.bind (services rs name) (\<lambda>svc. methods svc meth) of
         None \<Rightarrow> None
       | Some m \<Rightarrow> (case Func m (dec_args gob (req_args req)) w of (rep, w') \<Rightarrow>
           Some (rs\<lparr>count := count rs + 1\<rparr>, \<lparr>rep_ok = True, rep_reply = Some (enc_reply gob rep)\<rparr>, w'))) \<and>
    Server_dispatch gob (req\<lparr>req_svcMeth := meth\<rparr>) rs w = None"
proof
  show "Server_dispatch gob (req\<lparr>req_svcMeth := meth\<rparr>) rs w = None"
    using assms by (simp add: Server_dispatch_def LastIndex_def go_slice_to_def)
  show "Server_dispatch gob (req\<lparr>req_svcMeth := name @ ''.'' @ meth\<rparr>) rs w =
      (case Option.bind (services rs name) (\<lambda>svc. methods svc meth) of
         None \<Rightarrow> None
       | Some m \<Rightarrow> (case Func m (dec_args gob (req_args req)) w of (rep, w') \<Rightarrow>
           Some (rs\<lparr>count := count rs + 1\<rparr>, \<lparr>rep_ok = True, rep_reply = Some (enc_reply gob rep)\<rparr>, w')))"
    by (subst Server_dispatch_split [OF assms]) (simp_all cong: option.case_cong)
qed

subsection \<open>A network with one server\<close>

definition sample_gob :: "(nat, nat, nat) rpc_codec" where
  "sample_gob = \<lparr>enc_args = id, dec_args = id, enc_reply = id, dec_reply = Some\<rparr>"

text \<open>A counter: the method adds its argument and returns the old value.\<close>

definition sample_server :: "(nat, nat, nat) Server" where
  "sample_server = AddService (MakeService ''Counter'' [(''Add'',
     \<lparr>PkgPath = [], NumIn = 3, In2_Ptr = True, NumOut = 0, Func = (\<lambda>a w. (w, w + a))\<rparr>)]) MakeServer"

definition sample_net :: "(nat, nat) Network" where
  "sample_net = Enable 0 True (Connect 0 2 (AddServer 2 7 MakeNetwork))"

definition sample_req :: "(nat, nat) reqMsg" where
  "sample_req = Call_request sample_gob 0 ''Counter.Add'' 5"

text \<open>The worst numbers.\<close>

definition no_luck :: rolls where
  "no_luck = \<lparr>roll_delay = 26, roll_drop = 0, roll_drop_reply = 0, roll_reorder = 0, roll_wait = 1999,
     roll_wait_max = 1999, roll_timeout = 6999\<rparr>"

definition sample_answered :: "(nat, nat, nat, nat, nat, nat) net" where
  "sample_answered =
     \<lparr>network = sample_net, heap = (\<lambda>_. sample_server)(7 := sample_server\<lparr>count := 1\<rparr>), world = 5,
      pending = [0 \<mapsto> Answered sample_req \<lparr>rep_ok = True, rep_reply = Some 0\<rparr>], handlers = Map.empty,
      offered = Map.empty, executed = [(0, \<lparr>rep_ok = True, rep_reply = Some 0\<rparr>)]\<rparr>"

lemma sample_dispatch:
  "Server_dispatch sample_gob sample_req sample_server 0 =
     Some (sample_server\<lparr>count := 1\<rparr>, \<lparr>rep_ok = True, rep_reply = Some 0\<rparr>, 5)"
  by (simp add: sample_server_def AddService_def MakeService_def MakeServer_def is_handler_def sample_gob_def
      sample_req_def Call_request_def Server_dispatch_def Service_dispatch_def LastIndex_def
      go_slice_to_def go_slice_from_def)

lemma sample_answered_reachable: "net_reachable sample_gob (\<lambda>_. sample_server) 0 sample_answered"
proof -
  let ?R = "net_reachable sample_gob (\<lambda>_. sample_server) 0" and ?rep = "\<lparr>rep_ok = True, rep_reply = Some (0 :: nat)\<rparr>"
  let ?n = "\<lambda>rn p h f w x h'. \<lparr>network = rn, heap = h', world = w, pending = p, handlers = h, offered = f, executed = x\<rparr>"
  let ?srv = "\<lambda>_ :: nat. sample_server"
  have 0: "?R (?n MakeNetwork Map.empty Map.empty Map.empty 0 [] ?srv)"
    using net_start by (simp add: net_init_def)
  have 1: "?R (?n (AddServer 2 7 MakeNetwork) Map.empty Map.empty Map.empty 0 [] ?srv)"
    using net_next [OF 0 tester [OF reconfigure.intros(5)]] by simp
  have 2: "?R (?n (Connect 0 2 (AddServer 2 7 MakeNetwork)) Map.empty Map.empty Map.empty 0 [] ?srv)"
    using net_next [OF 1 tester [OF reconfigure.intros(7)]] by simp
  have 3: "?R (?n sample_net Map.empty Map.empty Map.empty 0 [] ?srv)"
    using net_next [OF 2 tester [OF reconfigure.intros(8)]] by (simp add: sample_net_def)
  have 4: "?R (?n sample_net [0 \<mapsto> Sent sample_req] Map.empty Map.empty 0 [] ?srv)"
    using net_next [OF 3 call [of _ 0 sample_gob 0 "''Counter.Add''" 5]] by (simp add: sample_req_def)
  let ?r = "\<lparr>roll_delay = 0, roll_drop = 0, roll_drop_reply = 0, roll_reorder = 0, roll_wait = 0,
    roll_wait_max = 0, roll_timeout = 0\<rparr>"
  have start: "ProcessReq_start ?r (req_endname sample_req) sample_net = Dispatch 0 2 7 True False"
    by (simp add: ProcessReq_start_def ReadEndnameInfo_def sample_net_def sample_req_def Call_request_def
        Enable_def Connect_def AddServer_def MakeNetwork_def)
  have 5: "?R (?n sample_net [0 \<mapsto> InLoop sample_req 2 7 True False] [0 \<mapsto> (sample_req, 7)] Map.empty 0 [] ?srv)"
    using net_next [OF 4 dispatch [of _ 0 sample_req ?r 0 2 7 True False]] start by simp
  have 6: "?R (?n sample_net [0 \<mapsto> InLoop sample_req 2 7 True False] Map.empty [0 \<mapsto> ?rep] 5 [(0, ?rep)]
      (?srv(7 := sample_server\<lparr>count := 1\<rparr>)))"
    using net_next [OF 5 handle [of _ 0 sample_req 7 sample_gob "sample_server\<lparr>count := 1\<rparr>" ?rep 5]] sample_dispatch
    by (simp add: fun_upd_def cong: if_cong)
  have fin: "ProcessReq_finish ?r (req_endname sample_req) 2 7 True False (Some ?rep) sample_net = (?rep, 0)"
    by (simp add: ProcessReq_finish_def IsServerDead_def sample_net_def sample_req_def Call_request_def
        Enable_def Connect_def AddServer_def MakeNetwork_def)
  show ?thesis
    using net_next [OF 6 receive [of _ 0 sample_req 2 7 True False ?rep ?r ?rep 0]] fin
    by (simp add: sample_answered_def)
qed

theorem rpc_at_most_once_witness:
  "net_reachable sample_gob (\<lambda>_. sample_server) 0 sample_answered \<and>
   pending sample_answered 0 = Some (Answered sample_req \<lparr>rep_ok = True, rep_reply = Some 0\<rparr>) \<and>
   distinct (map fst (executed sample_answered)) \<and>
   (0, \<lparr>rep_ok = True, rep_reply = Some 0\<rparr>) \<in> set (executed sample_answered)"
  using sample_answered_reachable rpc_at_most_once [OF sample_answered_reachable]
  by (simp add: sample_answered_def)

end
