(* ===== verification/Raft_Network_Proofs.thy ===== *)
theory Raft_Network_Proofs
  imports Raft_Network Raft_Election Raft_Local Lab_Rpc_Proofs
begin

text \<open>
  The peers on the simulated network refine the cluster of \<open>Raft_Cluster\<close>: every step of the system is
  matched by steps of a cluster whose peers are the running instances and whose calls include every call
  that can still have an effect. What the cluster shows of elections then holds of the system.
\<close>

subsection \<open>Simulations\<close>

locale forward_simulation =
  fixes cstep :: "'s \<Rightarrow> 's \<Rightarrow> bool" and astep :: "'w \<Rightarrow> 'w \<Rightarrow> bool" and R :: "'s \<Rightarrow> 'w \<Rightarrow> bool"
  assumes simulates: "R s w \<Longrightarrow> cstep s s' \<Longrightarrow> \<exists>w'. astep\<^sup>*\<^sup>* w w' \<and> R s' w'"
begin

lemma simulates_run:
  assumes "cstep\<^sup>*\<^sup>* s s'" and "R s w"
  shows "\<exists>w'. astep\<^sup>*\<^sup>* w w' \<and> R s' w'"
  using assms(1)
proof induction
  case base
  then show ?case using assms(2) by blast
next
  case (step u v)
  then obtain w' where "astep\<^sup>*\<^sup>* w w'" "R u w'" by blast
  with simulates [OF \<open>R u w'\<close> step.hyps(2)] show ?case by (meson rtranclp_trans)
qed

end

subsection \<open>Calls in the cluster's terms\<close>

text \<open>What is used of gob: decoding gives back what was encoded.\<close>

definition faithful :: "('a, 'r, 'x) rpc_codec \<Rightarrow> bool" where
  "faithful gob \<longleftrightarrow> (\<forall>a. dec_args gob (enc_args gob a) = a) \<and> (\<forall>r. dec_reply gob (enc_reply gob r) = Some r)"

fun request_rpc :: "int \<Rightarrow> int \<Rightarrow> ('c, 'b) raft_args \<Rightarrow> ('c, 'b) rpc" where
  "request_rpc f t (VoteArgs a) = VoteCall f t a"
| "request_rpc f t (AppendArgs a) = AppendCall f t a"
| "request_rpc f t (SnapArgs a) = SnapshotCall f t a"

fun return_rpc :: "int \<Rightarrow> int \<Rightarrow> ('c, 'b) raft_args \<Rightarrow> raft_reply \<Rightarrow> ('c, 'b) rpc multiset" where
  "return_rpc f t (VoteArgs a) (VoteRep r) = {#VoteReturn f t a r#}"
| "return_rpc f t (AppendArgs a) (AppendRep r) = {#AppendReturn f t a r#}"
| "return_rpc f t (SnapArgs a) (SnapRep r) = {#SnapshotReturn f t a r#}"
| "return_rpc f t _ _ = {#}"

definition return_of :: "(('c, 'b) raft_args, raft_reply, 'x) rpc_codec \<Rightarrow> int \<Rightarrow> int \<Rightarrow> ('c, 'b) raft_args \<Rightarrow> 'x replyMsg \<Rightarrow>
    ('c, 'b) rpc multiset" where
  "return_of gob f t args rep = (case Call_result gob rep of Some (Some r) \<Rightarrow> return_rpc f t args r | _ \<Rightarrow> {#})"

text \<open>
  What call \<open>i\<close> can still do: be executed by the running instance of its target, or bring a reply of that
  instance to its sender.
\<close>

definition to_run :: "('c, 'b, 'x) raft_net \<Rightarrow> nat \<Rightarrow> int \<Rightarrow> bool" where
  "to_run s i t \<longleftrightarrow> (\<exists>req. pending (rnet s) i = Some (Sent req)) \<or> (\<exists>req. handlers (rnet s) i = Some (req, inst s t))"

definition to_return :: "('c, 'b, 'x) raft_net \<Rightarrow> nat \<Rightarrow> int \<Rightarrow> 'x replyMsg option" where
  "to_return s i t =
     (case pending (rnet s) i of
        Some (InLoop _ _ srv _ _) \<Rightarrow> if srv = inst s t then offered (rnet s) i else None
      | Some (Answered _ rep) \<Rightarrow> if i \<in> waiting s then Some rep else None
      | _ \<Rightarrow> None)"

definition share :: "(('c, 'b) raft_args, raft_reply, 'x) rpc_codec \<Rightarrow> ('c, 'b, 'x) raft_net \<Rightarrow> nat \<Rightarrow> ('c, 'b) rpc multiset" where
  "share gob s i =
     (case placed s i of
        None \<Rightarrow> {#}
      | Some (a, t, args) \<Rightarrow>
          if to_run s i t then {#request_rpc (who s a) t args#}
          else (case to_return s i t of None \<Rightarrow> {#} | Some rep \<Rightarrow> return_of gob (who s a) t args rep))"

definition goroutines :: "('c, 'b, 'x) raft_net \<Rightarrow> ('c, 'b) rpc multiset" where
  "goroutines s = image_mset (\<lambda>(a, t, args). request_rpc (who s a) t args) (todo s) +
     image_mset (\<lambda>(a, p). SnapshotTask (who s a) p) (snaps s)"

definition under_way :: "(('c, 'b) raft_args, raft_reply, 'x) rpc_codec \<Rightarrow> ('c, 'b, 'x) raft_net \<Rightarrow> ('c, 'b) rpc multiset" where
  "under_way gob s = goroutines s + (\<Sum>i \<in> dom (placed s). share gob s i)"

subsection \<open>The invariant\<close>

definition call_ok :: "nat \<Rightarrow> (('c, 'b) raft_args, raft_reply, 'x) rpc_codec \<Rightarrow> ('c, 'b, 'x) raft_net \<Rightarrow> nat \<Rightarrow> bool" where
  "call_ok N gob s i \<longleftrightarrow>
     (placed s i = None \<longrightarrow> pending (rnet s) i = None \<and> handlers (rnet s) i = None \<and> offered (rnet s) i = None) \<and>
     (\<forall>a t args. placed s i = Some (a, t, args) \<longrightarrow> a < top s \<and>
        (\<forall>req. pending (rnet s) i = Some (Sent req) \<longrightarrow> 
           req = raft_request gob a t args \<and> handlers (rnet s) i = None \<and> offered (rnet s) i = None) \<and>
        (\<forall>req sn srv rel lre. pending (rnet s) i = Some (InLoop req sn srv rel lre) \<longrightarrow>
           req = raft_request gob a t args \<and> sn = t \<and> srv < top s \<and> (\<forall>req' srv'. handlers (rnet s) i = Some (req', srv') \<longrightarrow> srv' = srv)) \<and>
        (\<forall>req srv. handlers (rnet s) i = Some (req, srv) \<longrightarrow>
           req = raft_request gob a t args \<and> srv < top s \<and> who s srv = t \<and> t \<in> peer_ids N \<and>
           offered (rnet s) i = None \<and> (\<forall>req' rep. pending (rnet s) i = Some (Answered req' rep) \<longrightarrow> rep = no_reply)))"

definition tables_ok :: "nat \<Rightarrow> ('c, 'b, 'x) raft_net \<Rightarrow> bool" where
  "tables_ok N s \<longleftrightarrow>
     (\<forall>a. services (heap (rnet s) a) = services (raft_server a)) \<and>
     (\<forall>t srv. servers (network (rnet s)) t = Some srv \<longrightarrow> t \<in> peer_ids N \<and> srv = inst s t) \<and>
     (\<forall>e sn. connections (network (rnet s)) e = Some sn \<longrightarrow> sn = snd e) \<and>
     (\<forall>n \<in> peer_ids N. who s (inst s n) = n \<and> inst s n < top s) \<and>
     finite (dom (placed s)) \<and> (\<forall>x \<in># todo s. fst x < top s) \<and> (\<forall>x \<in># snaps s. fst x < top s)"

definition rn_inv :: "nat \<Rightarrow> (('c, 'b) raft_args, raft_reply, 'x) rpc_codec \<Rightarrow> ('c, 'b, 'x) raft_net \<Rightarrow> bool" where
  "rn_inv N gob s \<longleftrightarrow> tables_ok N s \<and> (\<forall>i. call_ok N gob s i)"

definition matches :: "nat \<Rightarrow> (('c, 'b) raft_args, raft_reply, 'x) rpc_codec \<Rightarrow> ('c, 'b, 'x) raft_net \<Rightarrow> ('c, 'b) cluster \<Rightarrow> bool" where
  "matches N gob s w \<longleftrightarrow> faithful gob \<and> rn_inv N gob s \<and> (\<forall>n \<in> peer_ids N. nodes w n = peer_at s n) \<and> under_way gob s \<subseteq># calls w"

subsection \<open>One call moves\<close>

lemma share_le: "finite (dom (placed s)) \<Longrightarrow> i \<in> dom (placed s) \<Longrightarrow> share gob s i \<subseteq># under_way gob s"
  by (simp add: under_way_def sum.remove)

text \<open>A step that concerns call \<open>i\<close> alone.\<close>

definition only_call :: "nat \<Rightarrow> ('c, 'b, 'x) raft_net \<Rightarrow> ('c, 'b, 'x) raft_net \<Rightarrow> bool" where
  "only_call i s s' \<longleftrightarrow> placed s' = placed s \<and> who s' = who s \<and> inst s' = inst s \<and> top s' = top s \<and> todo s' = todo s \<and>
     snaps s' = snaps s \<and>
     (\<forall>j. j \<noteq> i \<longrightarrow> pending (rnet s') j = pending (rnet s) j \<and> handlers (rnet s') j = handlers (rnet s) j \<and>
        offered (rnet s') j = offered (rnet s) j \<and> (j \<in> waiting s' \<longleftrightarrow> j \<in> waiting s))"

lemma only_call_share: "only_call i s s' \<Longrightarrow> j \<noteq> i \<Longrightarrow> share gob s' j = share gob s j"
proof -
  assume s: "only_call i s s'" "j \<noteq> i"
  then have "to_run s' j t = to_run s j t" "to_return s' j t = to_return s j t" for t
    by (auto simp: only_call_def to_run_def to_return_def split: option.split call_state.split)
  then show ?thesis using s by (auto simp: only_call_def share_def split: option.split)
qed

lemma only_call_ok: "only_call i s s' \<Longrightarrow> j \<noteq> i \<Longrightarrow> call_ok N gob s' j = call_ok N gob s j"
  by (simp add: only_call_def call_ok_def)

lemma under_way_call:
  assumes "only_call i s s'" and "finite (dom (placed s))" and "i \<in> dom (placed s)"
    and "under_way gob s \<subseteq># C" and "share gob s' i \<subseteq># Y"
  shows "under_way gob s' \<subseteq># C - share gob s i + Y"
proof -
  have eq: "placed s' = placed s" "goroutines s' = goroutines s"
    using assms(1) by (simp_all add: only_call_def goroutines_def)
  define G where "G = goroutines s + (\<Sum>j \<in> dom (placed s) - {i}. share gob s j)"
  have "(\<Sum>j \<in> dom (placed s) - {i}. share gob s' j) = (\<Sum>j \<in> dom (placed s) - {i}. share gob s j)"
    by (rule sum.cong) (simp_all add: only_call_share [OF assms(1)])
  then have w: "under_way gob s = G + share gob s i" "under_way gob s' = G + share gob s' i"
    using assms(2,3) eq by (simp_all add: under_way_def G_def sum.remove ac_simps)
  have "G \<subseteq># C - share gob s i"
    using assms(4) unfolding w(1) by (simp add: subseteq_mset_def add_le_imp_le_diff)
  then show ?thesis unfolding w(2) using assms(5) by (rule subset_mset.add_mono)
qed

subsection \<open>Executing a request\<close>

definition method_of :: "nat \<Rightarrow> ('c, 'b) raft_args \<Rightarrow> ('c, 'b) peer_objects \<Rightarrow> raft_reply \<times> ('c, 'b) peer_objects" where
  "method_of a args = (case args of VoteArgs _ \<Rightarrow> vote_method a args | AppendArgs _ \<Rightarrow> append_method a args
     | SnapArgs _ \<Rightarrow> snapshot_method a args)"

lemma raft_server_method:
  "\<exists>f. Option.bind (services (raft_server a) ''Raft'') (\<lambda>svc. methods svc (stub args)) = Some (rpc_handler f) \<and>
     f args = method_of a args"
  by (cases args) (simp_all add: raft_server_def AddService_def MakeService_def MakeServer_def is_handler_def
      rpc_handler_def method_of_def)

lemma stub_no_dot: "CHR ''.'' \<notin> set (stub args)"
  by (cases args) simp_all

lemma raft_dispatch:
  assumes "faithful gob" and "services rs = services (raft_server a)" and "method_of a args w = (r, w')"
  shows "Server_dispatch gob (raft_request gob f t args) rs w =
    Some (rs\<lparr>count := count rs + 1\<rparr>, \<lparr>rep_ok = True, rep_reply = Some (enc_reply gob r)\<rparr>, w')"
proof -
  obtain h where "Option.bind (services (raft_server a) ''Raft'') (\<lambda>svc. methods svc (stub args)) = Some (rpc_handler h)"
    "h args = method_of a args"
    using raft_server_method by blast
  moreover have m: "req_svcMeth (raft_request gob f t args) = ''Raft'' @ ''.'' @ stub args"
    by (simp add: raft_request_def Call_request_def)
  moreover have "dec_args gob (req_args (raft_request gob f t args)) = args"
    using assms(1) by (simp add: raft_request_def Call_request_def faithful_def)
  ultimately show ?thesis
    using assms(2,3) unfolding Server_dispatch_split [OF stub_no_dot m] by (simp add: rpc_handler_def)
qed

lemma execute_request:
  assumes "request_rpc f t args \<in># calls w" and "t \<in> peer_ids N" and "nodes w t = insts W a" and "method_of a args W = (r, W')"
  shows "cluster_step N w (put t (insts W' a) (calls w - {#request_rpc f t args#} + return_rpc f t args r) w)"
proof (cases args)
  case (VoteArgs va)
  obtain rf v where v: "RequestVote (clock W) (insts W a) va = (rf, v)" by fastforce
  then have "r = VoteRep v" "insts W' a = rf"
    using assms(4) VoteArgs by (auto simp: method_of_def vote_method_def)
  then show ?thesis using cluster_step.vote_request [of f t va w "clock W" rf v N] VoteArgs v assms(1,3) by simp
next
  case (AppendArgs aa)
  obtain rf v where v: "AppendEntries (clock W) (insts W a) aa = Some (rf, v)" using AppendEntries_total by blast
  then have "r = AppendRep v" "insts W' a = rf"
    using assms(4) AppendArgs by (auto simp: method_of_def append_method_def)
  then show ?thesis using cluster_step.append_request [of f t aa w N "clock W" rf v] AppendArgs v assms(1-3) by simp
next
  case (SnapArgs sa)
  obtain rf v d where v: "InstallSnapshot (insts W a) sa = (rf, v, d)" by (metis prod_cases3)
  then have "r = SnapRep v" "insts W' a = rf"
    using assms(4) SnapArgs by (auto simp: method_of_def snapshot_method_def)
  then show ?thesis using cluster_step.snapshot_request [of f t sa w N rf v d] SnapArgs v assms(1-3) by simp
qed

lemma method_of_own:
  assumes "method_of a args W = (r, W')"
  shows "insts W' = (insts W)(a := insts W' a)"
  using assms by (cases args) (auto simp: method_of_def vote_method_def append_method_def snapshot_method_def Let_def
        split: prod.splits option.splits)

lemma take_reply_step:
  assumes "return_rpc f t args r \<subseteq># calls w" and "f \<in> peer_ids N" and "take_reply e (nodes w f) t args r = Some rf'"
  shows "cluster_step N w (put f rf' (calls w - return_rpc f t args r) w)"
  using assms
  by (cases args; cases r) (auto intro: cluster_step.vote_reply cluster_step.append_reply cluster_step.snapshot_reply)

subsection \<open>The steps of the system\<close>

definition calls_of :: "int \<Rightarrow> (int \<times> ('c, 'b) raft_args) list \<Rightarrow> ('c, 'b) rpc multiset" where
  "calls_of n cs = mset (map (\<lambda>x. request_rpc n (fst x) (snd x)) cs)"

lemma calls_of_Cons: "calls_of n ((p, a) # cs) = add_mset (request_rpc n p a) (calls_of n cs)" "calls_of n [] = {#}"
  by (simp_all add: calls_of_def)

lemma vote_images: "mset (map (\<lambda>(p, a). VoteCall n p a) ms) = calls_of n (map (\<lambda>(p, a). (p, VoteArgs a)) ms)"
  by (induction ms) (auto simp: calls_of_Cons)

lemma todo_images:
  "image_mset (\<lambda>(a, t, args). request_rpc (f a) t args) (mset (map (\<lambda>(p, a). (i, p, a)) cs)) = calls_of (f i) cs"
  by (induction cs) (auto simp: calls_of_Cons)

lemma task_images:
  "mset (map (task n) gs) = calls_of n (append_calls gs) + mset (map (SnapshotTask n) (snapshot_tasks gs))"
  by (induction gs rule: append_calls.induct) (simp_all add: calls_of_Cons)

lemma section_step:
  assumes "peer_section rf rf' cs ps" and "n \<in> peer_ids N" and "nodes w n = rf"
  shows "cluster_step N w (put n rf' (calls w + (calls_of n cs + mset (map (SnapshotTask n) ps))) w)"
  using assms(1)
proof cases
  case (sec_tick e b)
  then show ?thesis using cluster_step.tick_follower [of n N e w rf' b] assms(2,3) by (simp add: calls_of_Cons)
next
  case (sec_election e ms)
  then show ?thesis using cluster_step.election [of n N e w rf' ms] assms(2,3) unfolding vote_images by simp
next
  case (sec_start c res gs)
  then show ?thesis using cluster_step.start [of n N w c rf' res gs] assms(2,3) unfolding task_images by simp
next
  case (sec_heartbeat gs)
  then show ?thesis using cluster_step.heartbeat [of n N w gs] assms(2,3) unfolding task_images by simp
next
  case (sec_compact i sn)
  then show ?thesis using cluster_step.compact [of n N w i sn rf'] assms(2,3) by (simp add: calls_of_Cons)
next
  case (sec_apply nil m)
  then show ?thesis using cluster_step.apply_entry [of n N nil w rf' m] assms(2,3) by (simp add: calls_of_Cons)
next
  case sec_kill
  then show ?thesis using cluster_step.kill [of n N w] assms(2,3) by (simp add: calls_of_Cons)
qed

lemma inst_inj: "tables_ok N s \<Longrightarrow> m \<in> peer_ids N \<Longrightarrow> n \<in> peer_ids N \<Longrightarrow> inst s m = inst s n \<longleftrightarrow> m = n"
  unfolding tables_ok_def by metis

text \<open>The parts of the invariant and of the calls under way that an update of a peer does not touch.\<close>

lemma set_peer_simps [simp]:
  "inst (set_peer n rf s) = inst s" "who (set_peer n rf s) = who s" "top (set_peer n rf s) = top s"
  "todo (set_peer n rf s) = todo s" "snaps (set_peer n rf s) = snaps s" "placed (set_peer n rf s) = placed s"
  "waiting (set_peer n rf s) = waiting s" "pending (rnet (set_peer n rf s)) = pending (rnet s)"
  "handlers (rnet (set_peer n rf s)) = handlers (rnet s)" "offered (rnet (set_peer n rf s)) = offered (rnet s)"
  "network (rnet (set_peer n rf s)) = network (rnet s)" "heap (rnet (set_peer n rf s)) = heap (rnet s)"
  "insts (world (rnet (set_peer n rf s))) = (insts (world (rnet s)))(inst s n := rf)"
  by (simp_all add: set_peer_def)

text \<open>Two states that agree in everything but objects, clock and servers' counters.\<close>

definition same_calls :: "('c, 'b, 'x) raft_net \<Rightarrow> ('c, 'b, 'x) raft_net \<Rightarrow> bool" where
  "same_calls s s' \<longleftrightarrow> inst s' = inst s \<and> who s' = who s \<and> top s' = top s \<and> placed s' = placed s \<and> waiting s' = waiting s \<and>
     pending (rnet s') = pending (rnet s) \<and> handlers (rnet s') = handlers (rnet s) \<and> offered (rnet s') = offered (rnet s)"

lemma same_calls_keeps:
  assumes "same_calls s s'"
  shows "share gob s' = share gob s" "call_ok N gob s' = call_ok N gob s"
  using assms by (auto simp: same_calls_def share_def to_run_def to_return_def call_ok_def fun_eq_iff
      split: option.split call_state.split)

lemma under_way_same:
  "same_calls s s' \<Longrightarrow> todo s' = todo s \<Longrightarrow> snaps s' = snaps s \<Longrightarrow> under_way gob s' = under_way gob s"
  using same_calls_keeps(1) [of s s' gob] by (simp add: same_calls_def under_way_def goroutines_def)

lemma matches_put:
  assumes "matches N gob s w" and "n \<in> peer_ids N" and "rn_inv N gob s'" and "inst s' = inst s"
    and "insts (world (rnet s')) = (insts (world (rnet s)))(inst s n := rf')" and "under_way gob s' \<subseteq># cs"
  shows "matches N gob s' (put n rf' cs w)"
proof -
  have "tables_ok N s" using assms(1) by (simp add: matches_def rn_inv_def)
  then have "peer_at s' m = (if m = n then rf' else peer_at s m)" if "m \<in> peer_ids N" for m
    using inst_inj [of N s m n] that assms(2,4,5) by simp
  then show ?thesis using assms(1,3,6) by (auto simp: matches_def put_def)
qed

lemma simulate_section:
  assumes m: "matches N gob s w" and "n \<in> peer_ids N" and "peer_section (peer_at s n) rf' cs ps"
    and s': "s' = (set_peer n rf' s)\<lparr>todo := todo s + mset (map (\<lambda>(p, a). (inst s n, p, a)) cs),
      snaps := snaps s + mset (map (Pair (inst s n)) ps)\<rparr>"
  shows "\<exists>w'. cluster_step N w w' \<and> matches N gob s' w'"
proof -
  have t: "tables_ok N s" and c: "\<forall>i. call_ok N gob s i" and nd: "nodes w n = peer_at s n"
    using m assms(2) by (simp_all add: matches_def rn_inv_def)
  have w: "who s (inst s n) = n" "inst s n < top s" using t assms(2) by (simp_all add: tables_ok_def)
  have sc: "same_calls s s'" by (simp add: s' same_calls_def)
  let ?new = "calls_of n cs + mset (map (SnapshotTask n) ps)"
  have "goroutines s' = goroutines s + ?new"
    using todo_images [of "who s" "inst s n" cs] unfolding s' goroutines_def by (simp add: w(1) image_mset.compositionality comp_def)
  then have u: "under_way gob s' = under_way gob s + ?new"
    using same_calls_keeps(1) [OF sc, of gob] by (simp add: under_way_def s')
  have "tables_ok N s'" using t w by (auto simp: tables_ok_def s')
  then have "rn_inv N gob s'" using c same_calls_keeps(2) [OF sc, of N gob] by (simp add: rn_inv_def)
  then have "matches N gob s' (put n rf' (calls w + ?new) w)"
    using m u by (intro matches_put [OF m assms(2)]) (simp_all add: s' matches_def)
  then show ?thesis using section_step [OF assms(3,2) nd] by blast
qed

lemma simulate_snapshot:
  assumes m: "matches N gob s w" and "n \<in> peer_ids N" and "(inst s n, p) \<in># snaps s"
    and "sendInstallSnapshot_args (peer_at s n) = Some sa"
    and s': "s' = s\<lparr>snaps := snaps s - {#(inst s n, p)#}, todo := todo s + {#(inst s n, p, SnapArgs sa)#}\<rparr>"
  shows "\<exists>w'. cluster_step N w w' \<and> matches N gob s' w'"
proof -
  have t: "tables_ok N s" and c: "\<forall>i. call_ok N gob s i" and nd: "nodes w n = peer_at s n" and u: "under_way gob s \<subseteq># calls w"
    using m assms(2) by (simp_all add: matches_def rn_inv_def)
  have w: "who s (inst s n) = n" "inst s n < top s" using t assms(2) by (simp_all add: tables_ok_def)
  have sc: "same_calls s s'" by (simp add: s' same_calls_def)
  obtain sn where sn: "snaps s = add_mset (inst s n, p) sn" using assms(3) by (metis mset_add)
  define X where "X = image_mset (\<lambda>(a, t, args). request_rpc (who s a) t args) (todo s) +
    image_mset (\<lambda>(a, p). SnapshotTask (who s a) p) sn + (\<Sum>i \<in> dom (placed s). share gob s i)"
  have x: "under_way gob s = add_mset (SnapshotTask n p) X" "under_way gob s' = add_mset (SnapshotCall n p sa) X"
    using same_calls_keeps(1) [OF sc, of gob] by (simp_all add: under_way_def goroutines_def X_def s' sn w)
  have task: "SnapshotTask n p \<in># calls w" and rest: "X \<subseteq># calls w - {#SnapshotTask n p#}"
    using u unfolding x(1) by (auto simp: insert_subset_eq_iff)
  have "tables_ok N s'" using t w by (auto simp: tables_ok_def s' dest: in_diffD)
  then have "rn_inv N gob s'" using c same_calls_keeps(2) [OF sc, of N gob] by (simp add: rn_inv_def)
  then have "matches N gob s' (put n (peer_at s n) (calls w - {#SnapshotTask n p#} + {#SnapshotCall n p sa#}) w)"
    using rest x(2) by (intro matches_put [OF m assms(2)]) (simp_all add: s')
  moreover have "cluster_step N w (put n (nodes w n) (calls w - {#SnapshotTask n p#} + {#SnapshotCall n p sa#}) w)"
    using task assms(2,4) nd by (intro cluster_step.snapshot_send) simp_all
  ultimately show ?thesis using nd by auto
qed

lemma simulate_call:
  assumes m: "matches N gob s w" and "(a, t, args) \<in># todo s" and "placed s i = None"
    and s': "s' = s\<lparr>rnet := (rnet s)\<lparr>pending := (pending (rnet s))(i \<mapsto> Sent (raft_request gob a t args))\<rparr>,
       todo := todo s - {#(a, t, args)#}, placed := (placed s)(i \<mapsto> (a, t, args)), waiting := insert i (waiting s)\<rparr>"
  shows "matches N gob s' w"
proof -
  have tb: "tables_ok N s" and c: "\<forall>i. call_ok N gob s i" and u: "under_way gob s \<subseteq># calls w"
    using m by (simp_all add: matches_def rn_inv_def)
  have a: "a < top s" using tb assms(2) by (auto simp: tables_ok_def)
  obtain td where td: "todo s = add_mset (a, t, args) td" using assms(2) by (metis mset_add)
  have i: "pending (rnet s) i = None" "handlers (rnet s) i = None" "offered (rnet s) i = None"
    using c assms(3) by (simp_all add: call_ok_def)
  have other: "share gob s' j = share gob s j" "call_ok N gob s' j = call_ok N gob s j" if "j \<noteq> i" for j
    using that by (auto simp: s' share_def to_run_def to_return_def call_ok_def split: option.split call_state.split)
  have new: "share gob s' i = {#request_rpc (who s a) t args#}" by (simp add: s' share_def to_run_def)
  have "(\<Sum>j \<in> dom (placed s). share gob s' j) = (\<Sum>j \<in> dom (placed s). share gob s j)"
  proof (rule sum.cong)
    fix j
    assume "j \<in> dom (placed s)"
    then have "j \<noteq> i" using assms(3) by auto
    then show "share gob s' j = share gob s j" by (rule other(1))
  qed simp
  moreover have "finite (dom (placed s))" "i \<notin> dom (placed s)" "dom (placed s') = insert i (dom (placed s))"
    using tb assms(3) by (auto simp: tables_ok_def s')
  ultimately have "under_way gob s' = under_way gob s"
    using new by (simp add: under_way_def goroutines_def td s')
  moreover have "call_ok N gob s' i" using i a by (simp add: call_ok_def s')
  then have "call_ok N gob s' j" for j using c other(2) by (cases "j = i") simp_all
  moreover have "tables_ok N s'" using tb by (auto simp: tables_ok_def s' dest: in_diffD)
  ultimately show ?thesis using m by (simp add: matches_def rn_inv_def s')
qed

lemma pending_placed:
  assumes "call_ok N gob s i" and "pending (rnet s) i \<noteq> None \<or> handlers (rnet s) i \<noteq> None \<or> offered (rnet s) i \<noteq> None"
  obtains a t args where "placed s i = Some (a, t, args)"
  using assms by (cases "placed s i") (auto simp: call_ok_def)

text \<open>A step on one call after which the call can do no more than before is no step of the cluster.\<close>

lemma call_moves:
  assumes m: "matches N gob s w" and o: "only_call i s s'" and "placed s i \<noteq> None" and "share gob s' i \<subseteq># share gob s i"
    and "call_ok N gob s' i" and "tables_ok N s'" and "\<forall>n \<in> peer_ids N. peer_at s' n = peer_at s n"
  shows "matches N gob s' w"
proof -
  have tb: "tables_ok N s" and c: "\<forall>i. call_ok N gob s i" and u: "under_way gob s \<subseteq># calls w"
    using m by (simp_all add: matches_def rn_inv_def)
  have i: "i \<in> dom (placed s)" and fin: "finite (dom (placed s))" using assms(3) tb by (auto simp: tables_ok_def)
  have "under_way gob s' \<subseteq># calls w - share gob s i + share gob s i"
    by (rule under_way_call [OF o fin i u assms(4)])
  moreover have "share gob s i \<subseteq># calls w" using share_le [OF fin i] u by (rule subset_mset.trans)
  ultimately have "under_way gob s' \<subseteq># calls w" by simp
  moreover have "call_ok N gob s' j" for j using c only_call_ok [OF o, of j N gob] assms(5) by (cases "j = i") simp_all
  ultimately show ?thesis using m assms(6,7) by (simp add: matches_def rn_inv_def)
qed

lemma simulate_no_reply:
  assumes m: "matches N gob s w" and "pending (rnet s) i = Some (Answered req rep)" and s': "s' = s\<lparr>waiting := waiting s - {i}\<rparr>"
  shows "matches N gob s' w"
proof (rule call_moves [OF m, of i])
  have tb: "tables_ok N s" and c: "call_ok N gob s i" using m by (simp_all add: matches_def rn_inv_def)
  obtain a t args where "placed s i = Some (a, t, args)" using pending_placed [OF c] assms(2) by auto
  then show "placed s i \<noteq> None" by simp
  show "only_call i s s'" by (simp add: only_call_def s')
  show "share gob s' i \<subseteq># share gob s i"
    by (auto simp: s' share_def to_run_def to_return_def assms(2) split: option.split)
  have "call_ok N gob s' i = call_ok N gob s i" by (simp add: call_ok_def s')
  then show "call_ok N gob s' i" using c by blast
  show "tables_ok N s'" using tb by (simp add: tables_ok_def s')
qed (simp add: s')

lemma simulate_reply:
  assumes m: "matches N gob s w" and "i \<in> waiting s" and "placed s i = Some (inst s n, t, args)" and "n \<in> peer_ids N"
    and "pending (rnet s) i = Some (Answered req rep)" and "Call_result gob rep = Some (Some r)"
    and "take_reply e (peer_at s n) t args r = Some rf'" and s': "s' = (set_peer n rf' s)\<lparr>waiting := waiting s - {i}\<rparr>"
  shows "\<exists>w'. cluster_step N w w' \<and> matches N gob s' w'"
proof -
  have tb: "tables_ok N s" and c: "\<forall>i. call_ok N gob s i" and u: "under_way gob s \<subseteq># calls w" and nd: "nodes w n = peer_at s n"
    using m assms(4) by (simp_all add: matches_def rn_inv_def)
  have o: "only_call i s s'" by (simp add: only_call_def s')
  have i: "i \<in> dom (placed s)" and fin: "finite (dom (placed s))" using assms(3) tb by (auto simp: tables_ok_def)
  have w: "who s (inst s n) = n" using tb assms(4) by (simp add: tables_ok_def)
  have "rep \<noteq> no_reply" using assms(6) by (auto simp: Call_result_def)
  moreover have "call_ok N gob s i" using c by blast
  ultimately have h: "handlers (rnet s) i = None"
    using assms(3,5) by (cases "handlers (rnet s) i") (auto simp: call_ok_def)
  have sh: "share gob s i = return_rpc n t args r" "share gob s' i = {#}"
    using assms(2,3,5,6) h w by (simp_all add: share_def to_run_def to_return_def return_of_def s')
  have "share gob s i \<subseteq># calls w" using share_le [OF fin i, of gob] u by (rule subset_mset.trans)
  then have step: "cluster_step N w (put n rf' (calls w - return_rpc n t args r) w)"
    using take_reply_step [of n t args r w N e rf'] assms(4,7) nd sh(1) by simp
  have "under_way gob s' \<subseteq># calls w - share gob s i + {#}"
    by (rule under_way_call [OF o fin i u]) (simp add: sh(2))
  moreover have "call_ok N gob s' j = call_ok N gob s j" for j by (simp add: call_ok_def s')
  moreover have "tables_ok N s'" using tb by (simp add: tables_ok_def s')
  ultimately have "matches N gob s' (put n rf' (calls w - return_rpc n t args r) w)"
    using c sh(1) by (intro matches_put [OF m assms(4)]) (simp_all add: rn_inv_def s')
  then show ?thesis using step by blast
qed

subsection \<open>The steps of the network\<close>

lemma simulate_refuse:
  assumes m: "matches N gob s w" and p: "pending (rnet s) i = Some (Sent req)"
    and s': "s' = s\<lparr>rnet := (rnet s)\<lparr>pending := (pending (rnet s))(i \<mapsto> Answered req no_reply)\<rparr>\<rparr>"
  shows "matches N gob s' w"
proof (rule call_moves [OF m, of i])
  have tb: "tables_ok N s" and c: "call_ok N gob s i" using m by (simp_all add: matches_def rn_inv_def)
  obtain a t args where pl: "placed s i = Some (a, t, args)" using pending_placed [OF c] p by auto
  then have h: "handlers (rnet s) i = None" using c p by (simp add: call_ok_def)
  show "placed s i \<noteq> None" using pl by simp
  show "only_call i s s'" by (simp add: only_call_def s')
  show "share gob s' i \<subseteq># share gob s i"
    using pl h by (simp add: s' share_def to_run_def to_return_def return_of_def Call_result_def)
  show "call_ok N gob s' i" "tables_ok N s'" using c tb pl h by (simp_all add: call_ok_def tables_ok_def s')
qed (simp add: s')

lemma dispatch_target:
  assumes "ProcessReq_start r e rn = Dispatch ms sn srv rel lre"
  shows "connections rn e = Some sn" "servers rn sn = Some srv"
  using assms by (auto simp: ProcessReq_start_def ReadEndnameInfo_def Let_def split: option.splits if_splits bool.splits)

lemma simulate_dispatch:
  assumes m: "matches N gob s w" and p: "pending (rnet s) i = Some (Sent req)"
    and d: "ProcessReq_start r (req_endname req) (network (rnet s)) = Dispatch ms sn srv rel lre"
    and s': "s' = s\<lparr>rnet := (rnet s)\<lparr>pending := (pending (rnet s))(i \<mapsto> InLoop req sn srv rel lre),
      handlers := (handlers (rnet s))(i \<mapsto> (req, srv))\<rparr>\<rparr>"
  shows "matches N gob s' w"
proof (rule call_moves [OF m, of i])
  have tb: "tables_ok N s" and c: "call_ok N gob s i" using m by (simp_all add: matches_def rn_inv_def)
  obtain a t args where pl: "placed s i = Some (a, t, args)" using pending_placed [OF c] p by auto
  then have q: "req = raft_request gob a t args" "a < top s" using c p by (simp_all add: call_ok_def)
  then have e: "req_endname req = (a, t)" by (simp add: raft_request_def Call_request_def)
  have t: "sn = t" using tb dispatch_target(1) [OF d] unfolding e tables_ok_def by auto
  then have "servers (network (rnet s)) t = Some srv" using dispatch_target(2) [OF d] by simp
  then have t: "sn = t" "srv = inst s t" "t \<in> peer_ids N" using tb t unfolding tables_ok_def by blast+
  then have w: "srv < top s" "who s srv = t" using tb by (simp_all add: tables_ok_def)
  show "placed s i \<noteq> None" using pl by simp
  show "only_call i s s'" by (simp add: only_call_def s')
  show "share gob s' i \<subseteq># share gob s i"
    using pl p t by (simp add: s' share_def to_run_def)
  show "call_ok N gob s' i" using c p pl q t w by (simp add: call_ok_def s')
  show "tables_ok N s'" using tb by (simp add: tables_ok_def s')
qed (simp add: s')

lemma simulate_receive:
  assumes m: "matches N gob s w" and p: "pending (rnet s) i = Some (InLoop req sn srv rel lre)"
    and f: "rep = offered (rnet s) i \<or> rep = None"
    and d: "ProcessReq_finish r (req_endname req) sn srv rel lre rep (network (rnet s)) = (ans, ms)"
    and s': "s' = s\<lparr>rnet := (rnet s)\<lparr>pending := (pending (rnet s))(i \<mapsto> Answered req ans), offered := o'\<rparr>\<rparr>"
    and o': "o' = offered (rnet s) \<or> o' = (offered (rnet s))(i := None)"
  shows "matches N gob s' w"
proof (rule call_moves [OF m, of i])
  have tb: "tables_ok N s" and c: "call_ok N gob s i" using m by (simp_all add: matches_def rn_inv_def)
  obtain a t args where pl: "placed s i = Some (a, t, args)" using pending_placed [OF c] p by auto
  then have q: "req = raft_request gob a t args" "sn = t" using c p by (simp_all add: call_ok_def)
  have off: "offered (rnet s) i = None" if "handlers (rnet s) i \<noteq> None"
    using c pl that by (cases "handlers (rnet s) i") (auto simp: call_ok_def)
  have alive: "srv = inst s t" if "\<not> IsServerDead (req_endname req) sn srv (network (rnet s))"
  proof -
    have "servers (network (rnet s)) t = Some srv"
      using that q(2) by (auto simp: IsServerDead_def)
    then show ?thesis using tb unfolding tables_ok_def by blast
  qed
  have ans: "ans = no_reply \<or> srv = inst s t \<and> rep = Some ans"
    using d alive by (auto simp: ProcessReq_finish_def Let_def split: option.splits if_splits)
  have none: "ans = no_reply" if "handlers (rnet s) i \<noteq> None" using ans off [OF that] f by auto
  show "placed s i \<noteq> None" using pl by simp
  show "only_call i s s'" using o' by (auto simp: only_call_def s')
  have "ans = no_reply \<or> srv = inst s t \<and> offered (rnet s) i = Some ans" using ans f by auto
  then show "share gob s' i \<subseteq># share gob s i"
    using pl p off by (auto simp: s' share_def to_run_def to_return_def return_of_def Call_result_def)
  show "call_ok N gob s' i"
    using c pl none off o' by (auto simp: call_ok_def s')
  show "tables_ok N s'" using tb by (simp add: tables_ok_def s')
qed (simp add: s')

lemma handler_pending:
  assumes "call_ok N gob s i" and "placed s i = Some (a, t, args)" and "handlers (rnet s) i = Some (req, srv)"
  shows "pending (rnet s) i = None \<or> (\<exists>rq sn rel lre. pending (rnet s) i = Some (InLoop rq sn srv rel lre)) \<or>
    (\<exists>rq. pending (rnet s) i = Some (Answered rq no_reply))"
proof (cases "pending (rnet s) i")
  case (Some x)
  note c = assms(1) [unfolded call_ok_def, THEN conjunct2, rule_format, OF assms(2)]
  show ?thesis
  proof (cases x)
    case (Sent rq)
    then show ?thesis using c assms(3) Some by auto
  next
    case (InLoop rq sn sv rel lre)
    then have "srv = sv" using c assms(3) Some by blast
    then show ?thesis using InLoop Some by simp
  next
    case (Answered rq rp)
    then have "rp = no_reply" using c assms(3) Some by blast
    then show ?thesis using Answered Some by simp
  qed
qed simp

lemma simulate_handle:
  assumes m: "matches N gob s w" and h: "handlers (rnet s) i = Some (req, srv)"
    and d: "Server_dispatch gob req (heap (rnet s) srv) (world (rnet s)) = Some (rs, rep, W')"
    and s': "s' = s\<lparr>rnet := (rnet s)\<lparr>heap := (heap (rnet s))(srv := rs), world := W', handlers := (handlers (rnet s))(i := None),
      offered := (offered (rnet s))(i \<mapsto> rep), executed := executed (rnet s) @ [(i, rep)]\<rparr>\<rparr>"
  shows "\<exists>w'. (cluster_step N)\<^sup>*\<^sup>* w w' \<and> matches N gob s' w'"
proof -
  have tb: "tables_ok N s" and c: "\<forall>i. call_ok N gob s i" and u: "under_way gob s \<subseteq># calls w" and fg: "faithful gob"
    using m by (simp_all add: matches_def rn_inv_def)
  have ci: "call_ok N gob s i" using c by blast
  obtain a t args where pl: "placed s i = Some (a, t, args)" using pending_placed [OF ci] h by auto
  then have q: "req = raft_request gob a t args" "srv < top s" "who s srv = t" "t \<in> peer_ids N" "offered (rnet s) i = None"
    using ci h by (simp_all add: call_ok_def)
  have i: "i \<in> dom (placed s)" and fin: "finite (dom (placed s))" using pl tb by (auto simp: tables_ok_def)
  obtain r W where mt: "method_of srv args (world (rnet s)) = (r, W)" by fastforce
  have "services (heap (rnet s) srv) = services (raft_server srv)" using tb by (simp add: tables_ok_def)
  from raft_dispatch [OF fg this mt, of a t] d
  have rs: "rs = (heap (rnet s) srv)\<lparr>count := count (heap (rnet s) srv) + 1\<rparr>" "W' = W"
      "rep = \<lparr>rep_ok = True, rep_reply = Some (enc_reply gob r)\<rparr>"
    by (simp_all add: q(1))
  have res: "Call_result gob rep = Some (Some r)" using fg by (simp add: rs Call_result_def faithful_def)
  have ret: "to_return s' i t = None \<or> to_return s' i t = Some no_reply \<or> srv = inst s t \<and> to_return s' i t = Some rep"
    using handler_pending [OF ci pl h] by (auto simp: to_return_def s' split: if_splits)
  have "\<not> to_run s' i t" using handler_pending [OF ci pl h] by (auto simp: to_run_def s')
  then have sh': "share gob s' i = {#} \<or> srv = inst s t \<and> share gob s' i = return_rpc (who s a) t args r"
    using ret pl res by (auto simp: share_def return_of_def Call_result_def s')
  have o: "only_call i s s'" by (simp add: only_call_def s')
  have cok: "call_ok N gob s' i" using ci pl h by (auto simp: call_ok_def s')
  have call: "call_ok N gob s' j" for j using c only_call_ok [OF o, of j N gob] cok by (cases "j = i") simp_all
  have tb': "tables_ok N s'" using tb by (simp add: tables_ok_def s' rs)
  have ins: "insts (world (rnet s')) = (insts (world (rnet s)))(srv := insts W srv)"
    using method_of_own [OF mt] by (simp add: s' rs)
  show ?thesis
  proof (cases "srv = inst s t")
    case True
    have sh: "share gob s i = {#request_rpc (who s a) t args#}" using pl h True by (simp add: share_def to_run_def)
    have "share gob s' i \<subseteq># return_rpc (who s a) t args r" using sh' by auto
    then have "under_way gob s' \<subseteq># calls w - {#request_rpc (who s a) t args#} + return_rpc (who s a) t args r"
      using under_way_call [OF o fin i u] by (simp add: sh)
    then have "matches N gob s' (put t (insts W srv) (calls w - {#request_rpc (who s a) t args#} + return_rpc (who s a) t args r) w)"
      using tb' call o ins True by (intro matches_put [OF m q(4)]) (simp_all add: rn_inv_def only_call_def)
    moreover have "request_rpc (who s a) t args \<in># calls w"
      using share_le [OF fin i, of gob] u sh by (metis mset_subset_eqD subset_mset.trans union_single_eq_member add.commute)
    from execute_request [OF this q(4) _ mt] have "cluster_step N w
        (put t (insts W srv) (calls w - {#request_rpc (who s a) t args#} + return_rpc (who s a) t args r) w)"
      using m q(4) True by (simp add: matches_def)
    ultimately show ?thesis by blast
  next
    case False
    have "matches N gob s' w"
    proof (rule call_moves [OF m o _ _ cok tb'])
      show "placed s i \<noteq> None" using pl by simp
      show "share gob s' i \<subseteq># share gob s i" using sh' False by auto
      have "inst s n \<noteq> srv" if "n \<in> peer_ids N" for n using that tb q(3) False by (auto simp: tables_ok_def)
      then show "\<forall>n \<in> peer_ids N. peer_at s' n = peer_at s n" using ins by (simp add: s')
    qed
    then show ?thesis by blast
  qed
qed

lemma simulate_network:
  assumes m: "matches N gob s w" and st: "net_step gob (rnet s) n'" and nw: "network n' = network (rnet s)"
    and dm: "dom (pending n') = dom (pending (rnet s))"
  shows "\<exists>w'. (cluster_step N)\<^sup>*\<^sup>* w w' \<and> matches N gob (s\<lparr>rnet := n'\<rparr>) w'"
  using st
proof cases
  case (tester rn')
  then have "n' = rnet s" using nw by simp
  then show ?thesis using m by auto
next
  case (call i endname svcMeth args)
  then have "i \<in> dom (pending n')" "i \<notin> dom (pending (rnet s))" by auto
  then show ?thesis using dm by simp
next
  case (refuse i req r)
  then show ?thesis using simulate_refuse [OF m refuse(2) refl] by auto
next
  case (dispatch i req r ms sn srv rel lre)
  then show ?thesis using simulate_dispatch [OF m dispatch(2,3) refl] by auto
next
  case (handle i req srv rs rep w')
  then show ?thesis using simulate_handle [OF m handle(2,3) refl] by simp
next
  case (receive i req sn srv rel lre rep r ans ms)
  have "matches N gob (s\<lparr>rnet := n'\<rparr>) w"
    by (rule simulate_receive [OF m receive(2) _ receive(4), of _ "(offered (rnet s))(i := None)"])
      (use receive(1,3) in simp_all)
  then show ?thesis by auto
next
  case (abandon i req sn srv rel lre r ans ms)
  have "matches N gob (s\<lparr>rnet := n'\<rparr>) w"
    by (rule simulate_receive [OF m abandon(2) _ abandon(4), of _ "offered (rnet s)"]) (use abandon(1) in simp_all)
  then show ?thesis by auto
qed

subsection \<open>The steps of the tester\<close>

lemma matches_same:
  assumes "matches N gob s w" and "same_calls s s'" and "todo s' = todo s" and "snaps s' = snaps s" and "tables_ok N s'"
    and "\<forall>n \<in> peer_ids N. peer_at s' n = peer_at s n"
  shows "matches N gob s' w"
  using assms same_calls_keeps(2) [OF assms(2), of N gob] under_way_same [OF assms(2-4), of gob]
  by (simp add: matches_def rn_inv_def)

lemma simulate_tester:
  assumes m: "matches N gob s w" and "connections rn' = connections (network (rnet s))"
    and "servers rn' \<subseteq>\<^sub>m servers (network (rnet s))" and s': "s' = s\<lparr>rnet := (rnet s)\<lparr>network := rn'\<rparr>\<rparr>"
  shows "matches N gob s' w"
proof (rule matches_same [OF m])
  have tb: "tables_ok N s" using m by (simp add: matches_def rn_inv_def)
  have sub: "servers (network (rnet s)) t = Some a" if "servers rn' t = Some a" for t a
    using assms(3) that by (auto simp: map_le_def dom_def)
  have "\<forall>t srv. servers (network (rnet s)) t = Some srv \<longrightarrow> t \<in> peer_ids N \<and> srv = inst s t"
    using tb by (simp add: tables_ok_def)
  then have "\<forall>t srv. servers rn' t = Some srv \<longrightarrow> t \<in> peer_ids N \<and> srv = inst s t" using sub by blast
  then show "tables_ok N s'" using tb assms(2) by (simp add: tables_ok_def s')
qed (simp_all add: s' same_calls_def)

lemma simulate_objects:
  assumes m: "matches N gob s w" and "\<forall>n \<in> peer_ids N. insts W (inst s n) = peer_at s n"
    and s': "s' = s\<lparr>rnet := (rnet s)\<lparr>world := W\<rparr>\<rparr>"
  shows "matches N gob s' w"
proof (rule matches_same [OF m])
  have tb: "tables_ok N s" using m by (simp add: matches_def rn_inv_def)
  then show "tables_ok N s'" by (simp add: tables_ok_def s')
qed (simp_all add: s' same_calls_def assms(2))

lemma sum_subset_mono:
  fixes f g :: "'i \<Rightarrow> 'm multiset"
  assumes "finite A" and "\<forall>i \<in> A. f i \<subseteq># g i"
  shows "sum f A \<subseteq># sum g A"
  using assms by induction (simp_all add: subset_mset.add_mono)

lemma share_restart:
  assumes c: "call_ok N gob s i" and s': "placed s' = placed s" "waiting s' = waiting s" "pending (rnet s') = pending (rnet s)"
      "handlers (rnet s') = handlers (rnet s)" "offered (rnet s') = offered (rnet s)"
    and i: "inst s' = (inst s)(n := top s)" "who s' = (who s)(top s := n)"
  shows "share gob s' i \<subseteq># share gob s i"
proof (cases "placed s i")
  case (Some x)
  then obtain a t args where pl: "placed s i = Some (a, t, args)" by (metis prod_cases3)
  note c = c [unfolded call_ok_def, THEN conjunct2, rule_format, OF pl]
  have w: "who s' a = who s a" using c i(2) by simp
  show ?thesis
  proof (cases "to_run s i t")
    case True
    show ?thesis
    proof (cases "\<exists>req. pending (rnet s) i = Some (Sent req)")
      case True
      then show ?thesis using pl by (auto simp: share_def to_run_def s' w)
    next
      case False
      then obtain req where h: "handlers (rnet s) i = Some (req, inst s t)"
        using \<open>to_run s i t\<close> by (auto simp: to_run_def)
      have "offered (rnet s) i = None" using c h by blast
      then have "to_return s' i t = None \<or> to_return s' i t = Some no_reply"
        using handler_pending [OF assms(1) pl h] by (auto simp: to_return_def s')
      then have "share gob s' i \<subseteq># {#request_rpc (who s a) t args#}"
        using pl by (auto simp: share_def s' w return_of_def Call_result_def)
      then show ?thesis using pl True by (simp add: share_def)
    qed
  next
    case False
    have hs: "srv < top s" if "handlers (rnet s) i = Some (req, srv)" for req srv using c that by blast
    have lp: "srv < top s" if "pending (rnet s) i = Some (InLoop req sn srv rel lre)" for req sn srv rel lre
      using c that by blast
    have run: "\<not> to_run s' i t"
      using False i hs [of _ "top s"] by (cases "t = n") (auto simp: to_run_def s')
    have "to_return s' i t = None \<or> to_return s' i t = to_return s i t"
      using i lp [of _ _ "top s"] by (cases "t = n") (auto simp: to_return_def s' split: option.split call_state.split)
    then show ?thesis using pl run False by (auto simp: share_def s' w split: option.split)
  qed
qed (simp add: share_def s')

lemma call_okI:
  assumes "placed s i = Some (a, t, args)" and "a < top s \<and>
        (\<forall>req. pending (rnet s) i = Some (Sent req) \<longrightarrow>
           req = raft_request gob a t args \<and> handlers (rnet s) i = None \<and> offered (rnet s) i = None) \<and>
        (\<forall>req sn srv rel lre. pending (rnet s) i = Some (InLoop req sn srv rel lre) \<longrightarrow>
           req = raft_request gob a t args \<and> sn = t \<and> srv < top s \<and> (\<forall>req' srv'. handlers (rnet s) i = Some (req', srv') \<longrightarrow> srv' = srv)) \<and>
        (\<forall>req srv. handlers (rnet s) i = Some (req, srv) \<longrightarrow>
           req = raft_request gob a t args \<and> srv < top s \<and> who s srv = t \<and> t \<in> peer_ids N \<and>
           offered (rnet s) i = None \<and> (\<forall>req' rep. pending (rnet s) i = Some (Answered req' rep) \<longrightarrow> rep = no_reply))"
      (is "?body a t args")
  shows "call_ok N gob s i"
proof -
  have "?body a' t' args'" if "placed s i = Some (a', t', args')" for a' t' args'
  proof -
    have "a' = a" "t' = t" "args' = args" using that assms(1) by simp_all
    then show ?thesis using assms(2) by blast
  qed
  moreover have "placed s i \<noteq> None" using assms(1) by simp
  ultimately show ?thesis unfolding call_ok_def by blast
qed

lemma call_ok_restart:
  assumes c: "call_ok N gob s i" and s': "placed s' = placed s" "pending (rnet s') = pending (rnet s)"
      "handlers (rnet s') = handlers (rnet s)" "offered (rnet s') = offered (rnet s)"
    and i: "top s' = top s + 1" "who s' = (who s)(top s := n)"
  shows "call_ok N gob s' i"
proof (cases "placed s i")
  case None
  then show ?thesis using c by (simp add: call_ok_def s')
next
  case (Some x)
  then obtain a t args where pl: "placed s i = Some (a, t, args)" by (metis prod_cases3)
  note c = c [unfolded call_ok_def, THEN conjunct2, rule_format, OF pl]
  have "a < top s'" using c i(1) by simp
  moreover have "\<forall>req. pending (rnet s') i = Some (Sent req) \<longrightarrow>
      req = raft_request gob a t args \<and> handlers (rnet s') i = None \<and> offered (rnet s') i = None" (is ?sent)
    using c unfolding s' by blast
  moreover have "\<forall>req sn srv rel lre. pending (rnet s') i = Some (InLoop req sn srv rel lre) \<longrightarrow>
      req = raft_request gob a t args \<and> sn = t \<and> srv < top s' \<and> (\<forall>req' srv'. handlers (rnet s') i = Some (req', srv') \<longrightarrow> srv' = srv)" (is ?loop)
    using c unfolding s' i(1) by (metis less_Suc_eq Suc_eq_plus1)
  moreover have "\<forall>req srv. handlers (rnet s') i = Some (req, srv) \<longrightarrow>
      req = raft_request gob a t args \<and> srv < top s' \<and> who s' srv = t \<and> t \<in> peer_ids N \<and> offered (rnet s') i = None \<and>
      (\<forall>req' rep. pending (rnet s') i = Some (Answered req' rep) \<longrightarrow> rep = no_reply)" (is ?handler)
  proof (intro allI impI)
    fix req srv
    assume "handlers (rnet s') i = Some (req, srv)"
    then have h: "handlers (rnet s) i = Some (req, srv)" by (simp add: s')
    then have "srv < top s" using c by blast
    then have "srv < top s'" "who s' srv = who s srv" by (simp_all add: i)
    then show "req = raft_request gob a t args \<and> srv < top s' \<and> who s' srv = t \<and> t \<in> peer_ids N \<and> offered (rnet s') i = None \<and>
        (\<forall>req' rep. pending (rnet s') i = Some (Answered req' rep) \<longrightarrow> rep = no_reply)"
      using c h unfolding s' by blast
  qed
  ultimately have "a < top s' \<and> ?sent \<and> ?loop \<and> ?handler" by blast
  moreover have "placed s' i = Some (a, t, args)" using pl by (simp add: s')
  ultimately show ?thesis by (rule call_okI [rotated])
qed

lemma attach_tables:
  "servers (attach N a n rn) = (servers rn)(n \<mapsto> a)"
  "connections (attach N a n rn) e = (if e \<in> {a} \<times> peer_ids N then Some (snd e) else connections rn e)"
  by (simp_all add: attach_def AddServer_def)

lemma Persister_Copy_id: "Persister_Copy ps = ps"
  by (simp add: Persister_Copy_def MakePersister_def)

lemma simulate_restart:
  assumes m: "matches N gob s w" and n: "n \<in> peer_ids N"
    and s': "s' = s\<lparr>rnet := (rnet s)\<lparr>network := attach N (top s) n (network (rnet s)),
         world := (world (rnet s))\<lparr>insts := (insts (world (rnet s)))
           (top s := fst (Make N n (Persister_Copy (persister (peer_at s n)))))\<rparr>\<rparr>,
       inst := (inst s)(n := top s), who := (who s)(top s := n), top := top s + 1\<rparr>"
  shows "\<exists>w'. cluster_step N w w' \<and> matches N gob s' w'"
proof -
  have tb: "tables_ok N s" and c: "\<forall>i. call_ok N gob s i" and u: "under_way gob s \<subseteq># calls w" and nd: "nodes w n = peer_at s n"
    using m n by (simp_all add: matches_def rn_inv_def)
  have below: "inst s k < top s" if "k \<in> peer_ids N" for k using tb that by (simp add: tables_ok_def)
  have td: "\<forall>x \<in># todo s. fst x < top s" "\<forall>x \<in># snaps s. fst x < top s" and fin: "finite (dom (placed s))"
    using tb by (simp_all add: tables_ok_def)
  have "goroutines s' = goroutines s"
    unfolding goroutines_def s' using td by (auto intro!: arg_cong2 [where f = "(+)"] image_mset_cong)
  moreover have "share gob s' i \<subseteq># share gob s i" for i
    using c by (intro share_restart [of N gob s i s' n]) (simp_all add: s')
  ultimately have "under_way gob s' \<subseteq># under_way gob s"
    unfolding under_way_def using fin by (auto simp: s' intro: subset_mset.add_mono sum_subset_mono)
  then have uw: "under_way gob s' \<subseteq># calls w" using u by (rule subset_mset.trans)
  have cok: "call_ok N gob s' i" for i
    using c by (intro call_ok_restart [of N gob s i s' n]) (simp_all add: s')
  have "\<forall>t srv. servers (network (rnet s)) t = Some srv \<longrightarrow> t \<in> peer_ids N \<and> srv = inst s t"
    and "\<forall>e sn. connections (network (rnet s)) e = Some sn \<longrightarrow> sn = snd e"
    using tb unfolding tables_ok_def by blast+
  then have "\<forall>t srv. servers (network (rnet s')) t = Some srv \<longrightarrow> t \<in> peer_ids N \<and> srv = inst s' t"
    and "\<forall>e sn. connections (network (rnet s')) e = Some sn \<longrightarrow> sn = snd e"
    using n by (simp_all add: s' attach_tables)
  moreover have "\<forall>k \<in> peer_ids N. who s' (inst s' k) = k \<and> inst s' k < top s'"
  proof
    fix k
    assume k: "k \<in> peer_ids N"
    then have "who s (inst s k) = k" using tb by (simp add: tables_ok_def)
    then show "who s' (inst s' k) = k \<and> inst s' k < top s'" using below [OF k] by (simp add: s')
  qed
  moreover have "\<forall>a. services (heap (rnet s') a) = services (raft_server a)"
    using tb by (simp add: tables_ok_def s')
  ultimately have "tables_ok N s'"
    unfolding tables_ok_def using td fin by (auto simp: s' less_Suc_eq)
  then have "rn_inv N gob s'" using cok by (simp add: rn_inv_def)
  moreover have "peer_at s' k = (if k = n then fst (Make N n (persister (nodes w n))) else peer_at s k)" if "k \<in> peer_ids N" for k
    using below [OF that] nd by (simp add: s' Persister_Copy_id)
  ultimately have "matches N gob s' (put n (fst (Make N n (persister (nodes w n)))) (calls w) w)"
    using m uw by (auto simp: matches_def put_def)
  then show ?thesis using cluster_step.restart [OF n] by blast
qed

subsection \<open>Refinement\<close>

lemma init_tables:
  "(servers (foldl (\<lambda>rn i. attach N i (int i) rn) MakeNetwork [0..<k]) t = Some srv \<longrightarrow> 0 \<le> t \<and> t < int k \<and> srv = nat t) \<and>
   (connections (foldl (\<lambda>rn i. attach N i (int i) rn) MakeNetwork [0..<k]) e = Some sn \<longrightarrow> sn = snd e)"
proof (induction k)
  case 0
  then show ?case by (simp add: MakeNetwork_def)
next
  case (Suc k)
  then show ?case by (auto simp: attach_tables)
qed

lemma matches_init:
  assumes "faithful gob"
  shows "matches N gob (rn_init N nil e) (init_cluster N nil)"
proof -
  let ?s = "rn_init N nil e :: ('a, 'b, 'c) raft_net"
  have "tables_ok N ?s"
    using init_tables [where N = N and k = N] by (simp add: tables_ok_def rn_init_def net_init_def nat_less_iff)
  moreover have "call_ok N gob ?s i" for i by (simp add: call_ok_def rn_init_def net_init_def)
  moreover have "under_way gob ?s = {#}" by (simp add: under_way_def goroutines_def rn_init_def)
  ultimately show ?thesis
    using assms by (simp add: matches_def rn_inv_def init_cluster_def) (simp add: rn_init_def net_init_def)
qed

lemma rn_step_simulated:
  assumes m: "matches N gob s w" and "rn_step N gob s s'"
  shows "\<exists>w'. (cluster_step N)\<^sup>*\<^sup>* w w' \<and> matches N gob s' w'"
  using assms(2)
proof cases
  case (rn_section n rf' cs ps)
  then show ?thesis using simulate_section [OF m rn_section(2,3) rn_section(1)] by blast
next
  case (rn_snapshot n p sa)
  then show ?thesis using simulate_snapshot [OF m rn_snapshot(2-4) rn_snapshot(1)] by blast
next
  case (rn_call a t args i)
  then show ?thesis using simulate_call [OF m rn_call(2,4,1)] by blast
next
  case (rn_network n')
  then show ?thesis using simulate_network [OF m rn_network(2-4)] by simp
next
  case (rn_tester rn')
  then show ?thesis using simulate_tester [OF m rn_tester(3,4,1)] by blast
next
  case (rn_clock e)
  then show ?thesis using simulate_objects [OF m _ rn_clock] by auto
next
  case (rn_reply i n t args req rep r e rf')
  then show ?thesis using simulate_reply [OF m rn_reply(2-7,1)] by blast
next
  case (rn_no_reply i req rep)
  then show ?thesis using simulate_no_reply [OF m rn_no_reply(3,1)] by blast
next
  case (rn_restart n)
  then show ?thesis using simulate_restart [OF m rn_restart(2,1)] by blast
next
  case (rn_ghost a rf')
  have "\<forall>n \<in> peer_ids N. insts ((world (rnet s))\<lparr>insts := (insts (world (rnet s)))(a := rf')\<rparr>) (inst s n) = peer_at s n"
    using rn_ghost(2) by auto
  then show ?thesis using simulate_objects [OF m _ rn_ghost(1)] by blast
qed

interpretation raft_over_labrpc: forward_simulation "rn_step N gob" "cluster_step N" "matches N gob" for N gob
  by unfold_locales (rule rn_step_simulated)

lemma raft_net_run:
  assumes "faithful gob" and "(rn_step N gob)\<^sup>*\<^sup>* (rn_init N nil e) s" and "(rn_step N gob)\<^sup>*\<^sup>* s s'"
  obtains w w' where "reachable N w" "(cluster_step N)\<^sup>*\<^sup>* w w'" "matches N gob s w" "matches N gob s' w'"
proof -
  obtain w where w: "(cluster_step N)\<^sup>*\<^sup>* (init_cluster N nil) w" "matches N gob s w"
    using raft_over_labrpc.simulates_run [OF assms(2) matches_init [OF assms(1)]] by blast
  moreover obtain w' where "(cluster_step N)\<^sup>*\<^sup>* w w'" "matches N gob s' w'"
    using raft_over_labrpc.simulates_run [OF assms(3) w(2)] by blast
  ultimately show ?thesis using that cluster_steps_reachable [OF w(1) reachable.init] by blast
qed

end
