(* ===== verification/Raft_Network_Theorems.thy ===== *)
theory Raft_Network_Theorems
  imports Raft_Network_Proofs Raft_Sample
begin

text \<open>
  What the refinement gives: a run of the peers over the network is a run of the cluster, so elections are
  safe over the network too. The witness is an election between two peers, carried by the network
  from the request of the candidate to the reply that makes it leader.
\<close>

subsection \<open>An election over the network\<close>

text \<open>A codec that decodes what it encodes.\<close>

definition plain :: "('a, 'r, 'a + 'r) rpc_codec" where
  "plain = \<lparr>enc_args = Inl, dec_args = (\<lambda>x. case x of Inl a \<Rightarrow> a | Inr _ \<Rightarrow> undefined), enc_reply = Inr,
     dec_reply = (\<lambda>x. case x of Inl _ \<Rightarrow> None | Inr r \<Rightarrow> Some r)\<rparr>"

lemma faithful_plain: "faithful plain"
  by (simp add: faithful_def plain_def)

type_synonym sample_net = "(nat, unit, (nat, unit) raft_args + raft_reply) raft_net"

definition follower0 :: "(nat, unit) Raft" where
  "follower0 = fst (tickFollower t0 (fst (Make 2 0 (MakePersister ()))))"

definition n0 :: sample_net where
  "n0 = (set_peer 0 follower0 (rn_init 2 () t1))\<lparr>todo := {#}, snaps := {#}\<rparr>"

definition candidate0 :: "(nat, unit) Raft" where
  "candidate0 = fst (doElection t1 follower0)"

definition n1 :: sample_net where
  "n1 = (set_peer 0 candidate0 n0)\<lparr>todo := {#(0, 1, VoteArgs vote0)#}, snaps := {#}\<rparr>"

definition n2 :: sample_net where
  "n2 = n1\<lparr>rnet := (rnet n1)\<lparr>network := Enable (0, 1) True (network (rnet n1))\<rparr>\<rparr>"

definition req0 :: "(nat \<times> int, (nat, unit) raft_args + raft_reply) reqMsg" where
  "req0 = raft_request plain 0 1 (VoteArgs vote0)"

definition n3 :: sample_net where
  "n3 = n2\<lparr>rnet := (rnet n2)\<lparr>pending := (pending (rnet n2))(0 \<mapsto> Sent req0)\<rparr>, todo := todo n2 - {#(0, 1, VoteArgs vote0)#},
     placed := (placed n2)(0 \<mapsto> (0, 1, VoteArgs vote0)), waiting := insert 0 (waiting n2)\<rparr>"

definition n4 :: sample_net where
  "n4 = n3\<lparr>rnet := (rnet n3)\<lparr>pending := (pending (rnet n3))(0 \<mapsto> InLoop req0 1 1 True False),
     handlers := (handlers (rnet n3))(0 \<mapsto> (req0, 1))\<rparr>\<rparr>"

definition voter1 :: "(nat, unit) Raft" where
  "voter1 = fst (RequestVote t1 (fst (Make 2 1 (MakePersister ()))) vote0)"

definition rep0 :: "((nat, unit) raft_args + raft_reply) replyMsg" where
  "rep0 = \<lparr>rep_ok = True, rep_reply = Some (Inr (VoteRep grant0))\<rparr>"

definition n5 :: sample_net where
  "n5 = n4\<lparr>rnet := (rnet n4)\<lparr>heap := (heap (rnet n4))(1 := (heap (rnet n4) 1)\<lparr>count := count (heap (rnet n4) 1) + 1\<rparr>),
     world := (world (rnet n4))\<lparr>insts := (insts (world (rnet n4)))(1 := voter1)\<rparr>,
     handlers := (handlers (rnet n4))(0 := None), offered := (offered (rnet n4))(0 \<mapsto> rep0),
     executed := executed (rnet n4) @ [(0, rep0)]\<rparr>\<rparr>"

definition n6 :: sample_net where
  "n6 = n5\<lparr>rnet := (rnet n5)\<lparr>pending := (pending (rnet n5))(0 \<mapsto> Answered req0 rep0), offered := (offered (rnet n5))(0 := None)\<rparr>\<rparr>"

definition leader0 :: "(nat, unit) Raft" where
  "leader0 = the (handleVoteReply t1 candidate0 1 (Some grant0))"

definition n7 :: sample_net where
  "n7 = (set_peer 0 leader0 n6)\<lparr>waiting := waiting n6 - {0}\<rparr>"

lemma upt_two: "[0..<2] = [0, 1::nat]" by code_simp

lemma election0: "doElection t1 follower0 = (candidate0, [(1, vote0)])"
  by (simp add: candidate0_def follower0_def init_node eval_defs upt_two)

lemma grants: "RequestVote t1 (fst (Make 2 1 (MakePersister ()))) vote0 = (voter1, grant0)"
  by (simp add: voter1_def init_node eval_defs)

lemma becomes_leader: "handleVoteReply t1 candidate0 1 (Some grant0) = Some leader0"
    "serverState leader0 = leader" "currentTerm leader0 = 1"
  by (simp_all add: leader0_def candidate0_def follower0_def init_node eval_defs upt_two numeral_2_eq_2)

lemma peers_n0: "insts (world (rnet n0)) 0 = follower0" "inst n0 0 = 0" "todo n0 = {#}" "snaps n0 = {#}"
  by (simp_all add: n0_def rn_init_def)

lemma net_step0: "rn_step 2 plain (rn_init 2 () t1) n0"
proof -
  obtain b where "tickFollower t0 (fst (Make 2 0 (MakePersister ()))) = (follower0, b)"
    using follower0_def by (metis prod.collapse)
  then have "peer_section (peer_at (rn_init 2 () t1 :: sample_net) 0) follower0 [] []"
    using peer_section.sec_tick by (simp add: rn_init_def net_init_def)
  from rn_step.rn_section [OF _ this] show ?thesis unfolding n0_def by (simp add: rn_init_def)
qed

lemma net_step1: "rn_step 2 plain n0 n1"
proof -
  have "peer_section (peer_at n0 0) candidate0 [(1, VoteArgs vote0)] []"
    using peer_section.sec_election [OF election0] by (simp add: peers_n0)
  from rn_step.rn_section [OF _ this] show ?thesis unfolding n1_def by (simp add: peers_n0)
qed

lemma net_step2: "rn_step 2 plain n1 n2"
  unfolding n2_def by (rule rn_step.rn_tester [OF reconfigure.intros(8)]) (simp_all add: Enable_def)

lemma net_step3: "rn_step 2 plain n2 n3"
  unfolding n3_def req0_def by (rule rn_step.rn_call)
    (simp_all add: n2_def n1_def n0_def rn_init_def net_init_def)

definition steady :: rolls where
  "steady = \<lparr>roll_delay = 0, roll_drop = 0, roll_drop_reply = 0, roll_reorder = 0, roll_wait = 0, roll_wait_max = 0, roll_timeout = 0\<rparr>"

lemma net_n3: "ReadEndnameInfo (0, 1) (network (rnet n3)) = (True, Some 1, Some 1, True, False)"
  by (simp add: ReadEndnameInfo_def n3_def n2_def n1_def n0_def rn_init_def upt_two attach_tables Enable_def set_peer_def
      attach_def AddServer_def MakeNetwork_def)

lemma target_n3: "enabled (network (rnet n3)) (0, 1)" "servers (network (rnet n3)) 1 = Some 1"
  by (simp_all add: n3_def n2_def n1_def n0_def rn_init_def upt_two attach_tables Enable_def set_peer_def)

lemma net_step4: "rn_step 2 plain n3 n4"
proof -
  have p: "pending (rnet n3) 0 = Some (Sent req0)" by (simp add: n3_def)
  have e: "req_endname req0 = (0, 1)" by (simp add: req0_def raft_request_def Call_request_def)
  have "ProcessReq_start steady (req_endname req0) (network (rnet n3)) = Dispatch 0 1 1 True False"
    unfolding e by (simp add: ProcessReq_start_def net_n3)
  from net_step.dispatch [OF p this, of plain] show ?thesis unfolding n4_def
    by (rule rn_step.rn_network) (auto simp: p)
qed

lemma world_n4: "insts (world (rnet n4)) 1 = fst (Make 2 1 (MakePersister ()))" "clock (world (rnet n4)) = t1"
  "heap (rnet n4) = raft_server" "handlers (rnet n4) 0 = Some (req0, 1)"
  by (simp_all add: n4_def n3_def n2_def n1_def n0_def rn_init_def net_init_def set_peer_def)

lemma net_step5: "rn_step 2 plain n4 n5"
proof -
  have "method_of 1 (VoteArgs vote0) (world (rnet n4)) =
      (VoteRep grant0, (world (rnet n4))\<lparr>insts := (insts (world (rnet n4)))(1 := voter1)\<rparr>)"
    using grants world_n4 by (simp add: method_of_def vote_method_def)
  from raft_dispatch [OF faithful_plain _ this, of "heap (rnet n4) 1" 0 1]
  have "Server_dispatch plain req0 (heap (rnet n4) 1) (world (rnet n4)) =
      Some ((heap (rnet n4) 1)\<lparr>count := count (heap (rnet n4) 1) + 1\<rparr>, rep0,
        (world (rnet n4))\<lparr>insts := (insts (world (rnet n4)))(1 := voter1)\<rparr>)"
    by (simp add: world_n4(3) req0_def rep0_def plain_def)
  from net_step.handle [OF world_n4(4) this] show ?thesis unfolding n5_def by (rule rn_step.rn_network) simp_all
qed

lemma net_step6: "rn_step 2 plain n5 n6"
proof -
  have p: "pending (rnet n5) 0 = Some (InLoop req0 1 1 True False)" "offered (rnet n5) 0 = Some rep0"
    by (simp_all add: n5_def n4_def)
  have "\<not> IsServerDead (req_endname req0) 1 1 (network (rnet n5))"
    using target_n3 by (simp add: IsServerDead_def n5_def n4_def req0_def raft_request_def Call_request_def)
  then have "ProcessReq_finish steady (req_endname req0) 1 1 True False (Some rep0) (network (rnet n5)) = (rep0, 0)"
    by (simp add: ProcessReq_finish_def)
  from net_step.receive [OF p this] show ?thesis unfolding n6_def by (rule rn_step.rn_network) (auto simp: p)
qed

text \<open>The objects along the run, one state at a time; only calls numbered 0 have been made.\<close>

lemma objects_n2: "inst n2 = nat" "insts (world (rnet n2)) 0 = candidate0" "snaps n2 = {#}"
  "todo n2 = {#(0, 1, VoteArgs vote0)#}" "0 < i \<Longrightarrow> pending (rnet n2) i = None \<and> placed n2 i = None"
  by (simp_all add: n2_def n1_def peers_n0 set_peer_def)
     (simp_all add: n0_def rn_init_def net_init_def set_peer_def)

lemma objects_n4: "inst n4 = nat" "insts (world (rnet n4)) 0 = candidate0" "snaps n4 = {#}" "todo n4 = {#}"
  "placed n4 0 = Some (0, 1, VoteArgs vote0)" "0 \<in> waiting n4"
  "0 < i \<Longrightarrow> pending (rnet n4) i = None \<and> placed n4 i = None"
  by (simp_all add: n4_def n3_def objects_n2)

lemma objects_n6: "inst n6 = nat" "insts (world (rnet n6)) 0 = candidate0" "snaps n6 = {#}" "todo n6 = {#}"
  "placed n6 0 = Some (0, 1, VoteArgs vote0)" "0 \<in> waiting n6"
  "0 < i \<Longrightarrow> pending (rnet n6) i = None \<and> placed n6 i = None"
  by (simp_all add: n6_def n5_def objects_n4)

lemma net_step7: "rn_step 2 plain n6 n7"
proof -
  have "pending (rnet n6) 0 = Some (Answered req0 rep0)" by (simp add: n6_def)
  moreover have "Call_result plain rep0 = Some (Some (VoteRep grant0))" by (simp add: rep0_def Call_result_def plain_def)
  moreover have "take_reply t1 candidate0 1 (VoteArgs vote0) (VoteRep grant0) = Some leader0"
    using becomes_leader(1) by (simp add: vote0_def)
  ultimately show ?thesis unfolding n7_def using objects_n6
    by (intro rn_step.rn_reply [where e = t1 and t = 1 and args = "VoteArgs vote0" and r = "VoteRep grant0"]) simp_all
qed

lemma election_run: "(rn_step 2 plain)\<^sup>*\<^sup>* (rn_init 2 () t1) n7"
  by (rule converse_rtranclp_into_rtranclp, rule net_step0, rule converse_rtranclp_into_rtranclp, rule net_step1,
      rule converse_rtranclp_into_rtranclp, rule net_step2, rule converse_rtranclp_into_rtranclp, rule net_step3,
      rule converse_rtranclp_into_rtranclp, rule net_step4, rule converse_rtranclp_into_rtranclp, rule net_step5,
      rule converse_rtranclp_into_rtranclp, rule net_step6, rule r_into_rtranclp, rule net_step7)

lemma leader_n7: "peer_at n7 0 = leader0"
  by (simp add: n7_def objects_n6)

subsection \<open>Refinement and election safety\<close>

text \<open>
  C6. The peers over the simulated network refine the cluster. Given that gob decodes what it encoded, every
  run of the system (sections of the peers, goroutines that call through \<^verbatim>\<open>labrpc\<close>, requests dropped,
  delayed or answered after their server was replaced, restarts, whatever the tester does to ends and
  switches) has a run of the cluster beside it, in which every peer is in the state of the instance
  that runs for it.
\<close>

theorem raft_net_refines:
  assumes "faithful gob" and "(rn_step N gob)\<^sup>*\<^sup>* (rn_init N nil e) s" and "(rn_step N gob)\<^sup>*\<^sup>* s s'"
  shows "\<exists>w w'. reachable N w \<and> (cluster_step N)\<^sup>*\<^sup>* w w' \<and>
    (\<forall>n \<in> peer_ids N. nodes w n = peer_at s n \<and> nodes w' n = peer_at s' n)"
proof -
  obtain w w' where "reachable N w" "(cluster_step N)\<^sup>*\<^sup>* w w'" "matches N gob s w" "matches N gob s' w'"
    using raft_net_run [OF assms] .
  then show ?thesis unfolding matches_def by blast
qed

theorem raft_net_refines_witness:
  "\<exists>s :: sample_net. serverState (peer_at s 0) = leader \<and> (\<exists>w :: (nat, unit) cluster. reachable 2 w \<and> nodes w 0 = peer_at s 0)"
proof -
  have "\<exists>w w'. reachable 2 w \<and> (cluster_step 2)\<^sup>*\<^sup>* w w' \<and> (\<forall>n \<in> peer_ids 2. nodes w n = peer_at n7 n \<and> nodes w' n = peer_at n7 n)"
    by (rule raft_net_refines [OF faithful_plain election_run rtranclp.rtrancl_refl])
  then show ?thesis using leader_n7 becomes_leader(2) by force
qed

text \<open>
  C7. Elections are safe over the network: a leader of some term in one state of the system and a leader
  of the same term in that or a later state are instances of one peer.
\<close>

theorem network_election_safety:
  assumes "faithful gob" and "(rn_step N gob)\<^sup>*\<^sup>* (rn_init N nil e) s" and "(rn_step N gob)\<^sup>*\<^sup>* s s'"
    and "a \<in> peer_ids N" and "serverState (peer_at s a) = leader"
    and "b \<in> peer_ids N" and "serverState (peer_at s' b) = leader"
    and "currentTerm (peer_at s a) = currentTerm (peer_at s' b)"
  shows "a = b"
proof -
  obtain w w' where "reachable N w" "(cluster_step N)\<^sup>*\<^sup>* w w'" "matches N gob s w" "matches N gob s' w'"
    using raft_net_run [OF assms(1-3)] .
  then show ?thesis using leader_unique [of N w w' a b] assms(4-8) by (simp add: matches_def)
qed

theorem network_election_safety_witness:
  "\<exists>s :: sample_net. (rn_step 2 plain)\<^sup>*\<^sup>* (rn_init 2 () t1) s \<and> serverState (peer_at s 0) = leader \<and> currentTerm (peer_at s 0) = 1 \<and>
     (\<forall>b. b \<in> peer_ids 2 \<longrightarrow> serverState (peer_at s b) = leader \<longrightarrow> currentTerm (peer_at s b) = 1 \<longrightarrow> b = 0)"
proof -
  have "\<forall>b. b \<in> peer_ids 2 \<longrightarrow> serverState (peer_at n7 b) = leader \<longrightarrow> currentTerm (peer_at n7 b) = 1 \<longrightarrow> b = 0"
    using network_election_safety [OF faithful_plain election_run rtranclp.rtrancl_refl, of 0] leader_n7 becomes_leader by auto
  then show ?thesis using election_run leader_n7 becomes_leader by auto
qed

end
