(* ===== verification/Raft_Network_Log.thy ===== *)
theory Raft_Network_Log
  imports Raft_Network_Theorems
begin

text \<open>
  Log matching over the network. The run of \<open>Raft_Network_Theorems\<close> goes on: the new leader accepts a
  command and the network carries its \<^verbatim>\<open>AppendEntries\<close> to the other peer, which stores it.
\<close>

subsection \<open>An entry replicated over the network\<close>

definition leader1 :: "(nat, unit) Raft" where
  "leader1 = fst (the (Start leader0 42))"

definition n8 :: sample_net where
  "n8 = (set_peer 0 leader1 n7)\<lparr>todo := {#(0, 1, AppendArgs append0)#}, snaps := {#}\<rparr>"

definition req1 :: "(nat \<times> int, (nat, unit) raft_args + raft_reply) reqMsg" where
  "req1 = raft_request plain 0 1 (AppendArgs append0)"

definition n9 :: sample_net where
  "n9 = n8\<lparr>rnet := (rnet n8)\<lparr>pending := (pending (rnet n8))(2 \<mapsto> Sent req1)\<rparr>,
     todo := todo n8 - {#(0, 1, AppendArgs append0)#},
     placed := (placed n8)(2 \<mapsto> (0, 1, AppendArgs append0)), waiting := insert 2 (waiting n8)\<rparr>"

definition n10 :: sample_net where
  "n10 = n9\<lparr>rnet := (rnet n9)\<lparr>pending := (pending (rnet n9))(2 \<mapsto> InLoop req1 1 1 True False),
     handlers := (handlers (rnet n9))(2 \<mapsto> (req1, 1))\<rparr>\<rparr>"

definition stored1 :: "(nat, unit) Raft" where
  "stored1 = fst (the (AppendEntries t1 voter1 append0))"

definition done1 :: AppendEntriesReply where
  "done1 = \<lparr>aer_Term = 1, Success = True, XTerm = 0, XIndex = 0, XLen = 0\<rparr>"

definition rep1 :: "((nat, unit) raft_args + raft_reply) replyMsg" where
  "rep1 = \<lparr>rep_ok = True, rep_reply = Some (Inr (AppendRep done1))\<rparr>"

definition n11 :: sample_net where
  "n11 = n10\<lparr>rnet := (rnet n10)\<lparr>heap := (heap (rnet n10))(1 := (heap (rnet n10) 1)\<lparr>count := count (heap (rnet n10) 1) + 1\<rparr>),
     world := (world (rnet n10))\<lparr>insts := (insts (world (rnet n10)))(1 := stored1)\<rparr>,
     handlers := (handlers (rnet n10))(2 := None), offered := (offered (rnet n10))(2 \<mapsto> rep1),
     executed := executed (rnet n10) @ [(2, rep1)]\<rparr>\<rparr>"

lemma replies1:
  "map_option snd (Start leader0 42) = Some ((1, 1, True), [GoAppendEntries 1 append0])"
  "map_option snd (AppendEntries t1 voter1 append0) = Some done1"
  by code_simp+

lemma accepts: "Start leader0 42 = Some (leader1, (1, 1, True), [GoAppendEntries 1 append0])"
  using replies1(1) by (auto simp: leader1_def)

lemma appends: "AppendEntries t1 voter1 append0 = Some (stored1, done1)"
  using replies1(2) by (auto simp: stored1_def)

lemma n7_idle: "inst n7 = nat" "todo n7 = {#}" "snaps n7 = {#}" "pending (rnet n7) 2 = None" "placed n7 2 = None"
  by (simp_all add: n7_def objects_n6)

lemma net_step8: "rn_step 2 plain n7 n8"
proof -
  have "peer_section (peer_at n7 0) leader1 [(1, AppendArgs append0)] []"
    using peer_section.sec_start [OF accepts] by (simp add: leader_n7)
  from rn_step.rn_section [OF _ this] show ?thesis unfolding n8_def by (simp add: n7_idle)
qed

lemma net_step9: "rn_step 2 plain n8 n9"
  unfolding n9_def req1_def by (rule rn_step.rn_call) (simp_all add: n8_def n7_idle)

lemma net_n9: "network (rnet n9) = network (rnet n3)"
  by (simp add: n9_def n8_def n7_def n6_def n5_def n4_def)

lemma net_step10: "rn_step 2 plain n9 n10"
proof -
  have p: "pending (rnet n9) 2 = Some (Sent req1)" by (simp add: n9_def)
  have e: "req_endname req1 = (0, 1)" by (simp add: req1_def raft_request_def Call_request_def)
  have "ProcessReq_start steady (req_endname req1) (network (rnet n9)) = Dispatch 0 1 1 True False"
    unfolding e by (simp add: ProcessReq_start_def net_n3 net_n9)
  from net_step.dispatch [OF p this, of plain] show ?thesis unfolding n10_def
    by (rule rn_step.rn_network) (auto simp: p)
qed

lemma world_n10: "insts (world (rnet n10)) 1 = voter1" "clock (world (rnet n10)) = t1"
  "services (heap (rnet n10) 1) = services (raft_server 1)" "handlers (rnet n10) 2 = Some (req1, 1)"
  by (simp_all add: n10_def n9_def n8_def n7_def set_peer_def objects_n6)
     (simp_all add: n6_def n5_def world_n4)

lemma net_step11: "rn_step 2 plain n10 n11"
proof -
  have "method_of 1 (AppendArgs append0) (world (rnet n10)) =
      (AppendRep done1, (world (rnet n10))\<lparr>insts := (insts (world (rnet n10)))(1 := stored1)\<rparr>)"
    using appends world_n10 by (simp add: method_of_def append_method_def)
  from raft_dispatch [OF faithful_plain world_n10(3) this, of 0 1]
  have "Server_dispatch plain req1 (heap (rnet n10) 1) (world (rnet n10)) =
      Some ((heap (rnet n10) 1)\<lparr>count := count (heap (rnet n10) 1) + 1\<rparr>, rep1,
        (world (rnet n10))\<lparr>insts := (insts (world (rnet n10)))(1 := stored1)\<rparr>)"
    by (simp add: req1_def rep1_def plain_def)
  from net_step.handle [OF world_n10(4) this] show ?thesis unfolding n11_def by (rule rn_step.rn_network) simp_all
qed

lemma replication_run: "(rn_step 2 plain)\<^sup>*\<^sup>* (rn_init 2 () t1) n11"
  using election_run net_step8 net_step9 net_step10 net_step11
  by (meson rtranclp.rtrancl_into_rtrancl)

lemma peers_n11: "peer_at n11 0 = leader1" "peer_at n11 1 = stored1"
  by (simp_all add: n11_def n10_def n9_def n8_def n7_idle)

lemma entries_n11:
  "entry_at leader1 1 = Some \<lparr>Term = 1, Index = 0, Command = 42\<rparr>"
  "entry_at stored1 1 = Some \<lparr>Term = 1, Index = 0, Command = 42\<rparr>"
  by code_simp+

subsection \<open>Log matching over the network\<close>

text \<open>
  C8. Logs match over the network: given that gob decodes what it encoded, two running instances that hold
  an entry of the same term at the same index hold the same entry at every index up to it that both
  still store, whatever the network and the tester did to the calls, the ends and the servers.
\<close>

theorem network_log_matching:
  assumes "faithful gob" and "(rn_step N gob)\<^sup>*\<^sup>* (rn_init N nil e) s"
    and "a \<in> peer_ids N" and "b \<in> peer_ids N"
    and "entry_at (peer_at s a) i = Some x" and "entry_at (peer_at s b) i = Some y"
    and "Term x = Term y" and "j \<le> i"
    and "entry_at (peer_at s a) j = Some u" and "entry_at (peer_at s b) j = Some v"
  shows "u = v"
proof -
  obtain w w' where w: "reachable N w" "matches N gob s w"
    using raft_net_run [OF assms(1,2) rtranclp.rtrancl_refl] by metis
  have n: "nodes w a = peer_at s a" "nodes w b = peer_at s b"
    using w(2) assms(3,4) by (simp_all add: matches_def)
  show ?thesis by (rule entries_agree [OF w(1) assms(3,4), unfolded n, OF assms(5-10)])
qed

theorem network_log_matching_witness:
  "\<exists>s :: sample_net. (rn_step 2 plain)\<^sup>*\<^sup>* (rn_init 2 () t1) s \<and> entry_at (peer_at s 0) 1 \<noteq> None \<and>
     entry_at (peer_at s 0) 1 = entry_at (peer_at s 1) 1"
proof -
  have "u = v" if "entry_at (peer_at n11 0) 1 = Some u" "entry_at (peer_at n11 1) 1 = Some v" for u v
    by (rule network_log_matching [OF faithful_plain replication_run, of 0 1 1 u v 1]) (use that in \<open>simp_all add: peers_n11 entries_n11\<close>)
  then have "entry_at (peer_at n11 0) 1 = entry_at (peer_at n11 1) 1"
    using entries_n11 by (simp add: peers_n11)
  then show ?thesis using replication_run entries_n11 peers_n11 by (intro exI [of _ n11]) simp
qed

end
