(* ===== verification/Raft_Loss.thy ===== *)
theory Raft_Loss
  imports Raft_Sample
begin

text \<open>
  Runs of a cluster as executable scripts, and a run in which two peers apply different commands at
  the same index. \<^verbatim>\<open>AppendEntries\<close> cuts the log after \<^verbatim>\<open>PrevLogIndex\<close> even when the entries it cuts agree
  with the request, so a heartbeat that is delivered late removes entries the peer has acknowledged
  and the leader has committed.
\<close>

subsection \<open>Scripts\<close>

text \<open>One action picks a step of the cluster; deliveries name the call they deliver.\<close>

datatype 'c action =
  Tick int env
| Elect int env
| VoteRequest int int RequestVoteArgs env
| VoteReply int int RequestVoteArgs RequestVoteReply env
| Submit int 'c
| Heartbeat int
| AppendRequest int int "'c AppendEntriesArgs" env
| AppendReply int int "'c AppendEntriesArgs" AppendEntriesReply env
| ApplyNext int
| Compact int int
| SendSnapshot int int
| SnapshotRequest int int "unit InstallSnapshotArgs"

definition member :: "nat \<Rightarrow> int \<Rightarrow> bool" where
  "member N n \<longleftrightarrow> 0 \<le> n \<and> n < int N"

fun act :: "nat \<Rightarrow> 'c action \<Rightarrow> ('c, unit) cluster \<Rightarrow> ('c, unit) cluster option" where
  "act N (Tick n e) w =
     (if member N n then Some (put n (fst (tickFollower e (nodes w n))) (calls w) w) else None)"
| "act N (Elect n e) w =
     (case doElection e (nodes w n) of (rf', ms) \<Rightarrow>
        if member N n then Some (put n rf' (calls w + mset (map (\<lambda>(p, a). VoteCall n p a) ms)) w)
        else None)"
| "act N (VoteRequest f t a e) w =
     (case RequestVote e (nodes w t) a of (rf', r) \<Rightarrow>
        if VoteCall f t a \<in># calls w
        then Some (put t rf' (calls w - {#VoteCall f t a#} + {#VoteReturn f t a r#}) w) else None)"
| "act N (VoteReply f t a r e) w =
     (if VoteReturn f t a r \<in># calls w
      then map_option (\<lambda>rf'. put f rf' (calls w - {#VoteReturn f t a r#}) w)
        (handleVoteReply e (nodes w f) (rv_Term a) (Some r)) else None)"
| "act N (Submit n c) w =
     (if member N n
      then map_option (\<lambda>(rf', res, gs). put n rf' (calls w + mset (map (task n) gs)) w)
        (Start (nodes w n) c) else None)"
| "act N (Heartbeat n) w =
     (if member N n
      then map_option (\<lambda>gs. put n (nodes w n) (calls w + mset (map (task n) gs)) w)
        (ticker_leader (nodes w n)) else None)"
| "act N (AppendRequest f t a e) w =
     (if member N t \<and> AppendCall f t a \<in># calls w
      then map_option (\<lambda>(rf', r).
          put t rf' (calls w - {#AppendCall f t a#} + {#AppendReturn f t a r#}) w)
        (AppendEntries e (nodes w t) a) else None)"
| "act N (AppendReply f t a r e) w =
     (if member N f \<and> AppendReturn f t a r \<in># calls w
      then map_option (\<lambda>rf'. put f rf' (calls w - {#AppendReturn f t a r#}) w)
        (processAppendEntriesReply e (nodes w f) t (ae_Term a) (PrevLogIndex a) (Entries a) r)
      else None)"
| "act N (ApplyNext n) w =
     (if member N n then
        (case BackgroundApply () (nodes w n) of
           Some (Applied rf' m) \<Rightarrow> Some (put n rf' (calls w) w)
         | _ \<Rightarrow> None)
      else None)"
| "act N (Compact n i) w =
     (if member N n then map_option (\<lambda>rf'. put n rf' (calls w) w) (Snapshot (nodes w n) i ())
      else None)"
| "act N (SendSnapshot n p) w =
     (if member N n \<and> SnapshotTask n p \<in># calls w
      then map_option (\<lambda>a. put n (nodes w n)
          (calls w - {#SnapshotTask n p#} + {#SnapshotCall n p a#}) w)
        (sendInstallSnapshot_args (nodes w n)) else None)"
| "act N (SnapshotRequest f t a) w =
     (case InstallSnapshot (nodes w t) a of (rf', r, d) \<Rightarrow>
        if member N t \<and> SnapshotCall f t a \<in># calls w
        then Some (put t rf' (calls w - {#SnapshotCall f t a#} + {#SnapshotReturn f t a r#}) w)
        else None)"

lemma act_step:
  assumes "act N x w = Some w'"
  shows "cluster_step N w w'"
proof (cases x)
  case (Tick n e)
  then show ?thesis
    using assms
    by (cases "tickFollower e (nodes w n)")
       (auto simp: member_def split: if_splits intro: cluster_step.tick_follower)
next
  case (Elect n e)
  then show ?thesis
    using assms cluster_step.election [of n N e w]
    by (auto simp: member_def split: if_splits prod.splits)
next
  case (VoteRequest f t a e)
  then show ?thesis
    using assms cluster_step.vote_request [of f t a w e _ _ N]
    by (auto split: if_splits prod.splits)
next
  case (VoteReply f t a r e)
  then show ?thesis
    using assms
    by (auto split: if_splits intro: cluster_step.vote_reply)
next
  case (Submit n c)
  then show ?thesis
    using assms cluster_step.start [of n N w c]
    by (auto simp: member_def split: if_splits)
next
  case (Heartbeat n)
  then show ?thesis
    using assms cluster_step.heartbeat [of n N w]
    by (auto simp: member_def split: if_splits)
next
  case (AppendRequest f t a e)
  then show ?thesis
    using assms cluster_step.append_request [of f t a w N e]
    by (auto simp: member_def split: if_splits)
next
  case (AppendReply f t a r e)
  then show ?thesis
    using assms
    by (auto simp: member_def split: if_splits intro: cluster_step.append_reply)
next
  case (ApplyNext n)
  then show ?thesis
    using assms
    by (auto simp: member_def split: if_splits option.splits apply_result.splits
        intro: cluster_step.apply_entry)
next
  case (Compact n i)
  then show ?thesis
    using assms by (auto simp: member_def split: if_splits intro: cluster_step.compact)
next
  case (SendSnapshot n p)
  then show ?thesis
    using assms cluster_step.snapshot_send [of n p w N]
    by (auto simp: member_def split: if_splits)
next
  case (SnapshotRequest f t a)
  then show ?thesis
    using assms cluster_step.snapshot_request [of f t a w N]
    by (auto simp: member_def split: if_splits prod.splits)
qed

fun acts :: "nat \<Rightarrow> 'c action list \<Rightarrow> ('c, unit) cluster \<Rightarrow> ('c, unit) cluster option" where
  "acts N [] w = Some w"
| "acts N (x # xs) w = do { w' \<leftarrow> act N x w; acts N xs w' }"

lemma acts_steps: "acts N xs w = Some w' \<Longrightarrow> (cluster_step N)\<^sup>*\<^sup>* w w'"
  by (induction xs arbitrary: w)
     (auto split: bind_splits intro: act_step converse_rtranclp_into_rtranclp)

subsection \<open>A run that loses a committed entry\<close>

text \<open>
  Peer 0 is elected in term 1 and sends a heartbeat, which is delayed. It accepts command 42,
  replicates it to peer 1, commits it and applies it. Then peer 1 receives the heartbeat and drops the
  entry. Peer 1 is elected in term 2 by the vote of peer 2, accepts command 77, replicates it to
  peer 2, commits it and applies it, at the same index.
\<close>

definition t2 :: env where "t2 = \<lparr>now = 9000, rnd = 0\<rparr>"

definition heartbeat0 :: "nat AppendEntriesArgs" where
  "heartbeat0 = \<lparr>ae_Term = 1, PrevLogIndex = 0, PrevLogTerm = 0, Entries = [], LeaderCommit = 0\<rparr>"

definition accepted :: "int \<Rightarrow> AppendEntriesReply" where
  "accepted t = \<lparr>aer_Term = t, Success = True, XTerm = 0, XIndex = 0, XLen = 0\<rparr>"

definition vote1 :: RequestVoteArgs where
  "vote1 = \<lparr>rv_Term = 2, CandidateId = 1, LastLogIndex = 0, LastLogTerm = 0\<rparr>"

definition append2 :: "nat AppendEntriesArgs" where
  "append2 = \<lparr>ae_Term = 2, PrevLogIndex = 0, PrevLogTerm = 0,
     Entries = [\<lparr>Term = 2, Index = 0, Command = 77\<rparr>], LeaderCommit = 0\<rparr>"

definition commit_42 :: "nat action list" where
  "commit_42 =
     [Tick 0 t0, Elect 0 t1, VoteRequest 0 1 vote0 t1, VoteReply 0 1 vote0 grant0 t1,
      Heartbeat 0, Submit 0 42, AppendRequest 0 1 append0 t1, AppendReply 0 1 append0 (accepted 1) t1]"

definition commit_77 :: "nat action list" where
  "commit_77 =
     [ApplyNext 0, AppendRequest 0 1 heartbeat0 t1, Elect 1 t2, VoteRequest 1 2 vote1 t2,
      VoteReply 1 2 vote1 \<lparr>rvr_Term = 2, VoteGranted = True\<rparr> t2, Submit 1 77,
      AppendRequest 1 2 append2 t2, AppendReply 1 2 append2 (accepted 2) t2]"

definition next_message :: "(nat, unit) cluster \<Rightarrow> int \<Rightarrow> (int \<times> nat option) option" where
  "next_message w n =
     (case BackgroundApply () (nodes w n) of
        Some (Applied rf' m) \<Rightarrow> Some (msg_Index m, msg_Command m)
      | _ \<Rightarrow> None)"

definition lossy_run :: "((int \<times> nat option) option \<times> (int \<times> nat option) option) option" where
  "lossy_run =
     do { w \<leftarrow> acts 3 commit_42 (init_cluster 3 ());
          w' \<leftarrow> acts 3 commit_77 w;
          Some (next_message w 0, next_message w' 1) }"

lemma lossy_run_eval: "lossy_run = Some (Some (1, Some 42), Some (1, Some 77))"
  by code_simp

text \<open>
  C13. State machine safety fails. A cluster of three reaches a state in which peer 0 applies one command
  at index 1 and, later in the same run, a state in which peer 1 applies another command at index 1:
  a delayed heartbeat truncated the log of the peer that completed the majority.
\<close>

theorem committed_entry_lost:
  "\<exists>(w :: (nat, unit) cluster) w' rf m rf' m'.
     reachable 3 w \<and> BackgroundApply () (nodes w 0) = Some (Applied rf m) \<and>
     (cluster_step 3)\<^sup>*\<^sup>* w w' \<and> BackgroundApply () (nodes w' 1) = Some (Applied rf' m') \<and>
     msg_Index m = msg_Index m' \<and> msg_Command m \<noteq> msg_Command m'"
proof -
  obtain w w' where w: "acts 3 commit_42 (init_cluster 3 ()) = Some w" "acts 3 commit_77 w = Some w'"
    "next_message w 0 = Some (1, Some 42)" "next_message w' 1 = Some (1, Some 77)"
    using lossy_run_eval by (auto simp: lossy_run_def split: bind_splits)
  have "reachable 3 w" by (rule cluster_steps_reachable [OF acts_steps [OF w(1)] reachable.init])
  moreover obtain rf m where m: "BackgroundApply () (nodes w 0) = Some (Applied rf m)"
    "msg_Index m = 1" "msg_Command m = Some 42"
    using w(3) by (auto simp: next_message_def split: option.splits apply_result.splits)
  moreover obtain rf' m' where m': "BackgroundApply () (nodes w' 1) = Some (Applied rf' m')"
    "msg_Index m' = 1" "msg_Command m' = Some 77"
    using w(4) by (auto simp: next_message_def split: option.splits apply_result.splits)
  moreover have "msg_Index m = msg_Index m'" "msg_Command m \<noteq> msg_Command m'"
    using m(2,3) m'(2,3) by simp_all
  ultimately show ?thesis using acts_steps [OF w(2)] by blast
qed

end
