(* ===== verification/Raft_Invariants.thy ===== *)
theory Raft_Invariants
  imports Raft_Log_Matching
begin

text \<open>
  Invariants of single peers in a running cluster. The locale \<open>guarded_invariant\<close> is the contract of
  a predicate that every section of a peer keeps, whatever arguments reach it, except that a snapshot
  keeps it only under a guard: a peer loses the predicate only by installing a snapshot outside the
  guard. \<open>peer_invariant\<close> is the case of no guard: the predicate holds of every peer of every
  reachable cluster. It is interpreted for the order of the indices and for the shape of the arrays.
\<close>

text \<open>A step that delivers a peer a snapshot outside a guard.\<close>

definition breaks ::
  "(('c, 'b) Raft \<Rightarrow> 'b InstallSnapshotArgs \<Rightarrow> bool) \<Rightarrow>
     ('c, 'b) cluster \<Rightarrow> ('c, 'b) cluster \<Rightarrow> int \<Rightarrow> bool" where
  "breaks installs w w' n \<longleftrightarrow> (\<exists>f a r d. SnapshotCall f n a \<in># calls w \<and>
     InstallSnapshot (nodes w n) a = (nodes w' n, r, d) \<and> \<not> installs (nodes w n) a)"

locale guarded_invariant =
  fixes N :: nat and P :: "('c, 'b) Raft \<Rightarrow> bool"
    and installs :: "('c, 'b) Raft \<Rightarrow> 'b InstallSnapshotArgs \<Rightarrow> bool"
  assumes inv_make: "P (fst (Make N n (MakePersister nil)))"
    and inv_restart: "P rf \<Longrightarrow> durable rf \<Longrightarrow> peers rf = N \<Longrightarrow> me rf \<in> peer_ids N \<Longrightarrow>
          P (fst (Make N (me rf) (persister rf)))"
    and inv_tickFollower: "P rf \<Longrightarrow> tickFollower e rf = (rf', b) \<Longrightarrow> P rf'"
    and inv_doElection: "P rf \<Longrightarrow> doElection e rf = (rf', ms) \<Longrightarrow> P rf'"
    and inv_RequestVote: "P rf \<Longrightarrow> RequestVote e rf rva = (rf', rvr) \<Longrightarrow> P rf'"
    and inv_handleVoteReply: "P rf \<Longrightarrow> handleVoteReply e rf T ok = Some rf' \<Longrightarrow> P rf'"
    and inv_Start: "P rf \<Longrightarrow> Start rf c = Some (rf', res, gs) \<Longrightarrow> P rf'"
    and inv_AppendEntries: "P rf \<Longrightarrow> AppendEntries e rf aea = Some (rf', aer) \<Longrightarrow> P rf'"
    and inv_AppendReply:
          "P rf \<Longrightarrow> processAppendEntriesReply e rf p T i ents aer = Some rf' \<Longrightarrow> P rf'"
    and inv_InstallSnapshot:
          "P rf \<Longrightarrow> installs rf isa \<Longrightarrow> InstallSnapshot rf isa = (rf', isr, d) \<Longrightarrow> P rf'"
    and inv_SnapshotReply:
          "P rf \<Longrightarrow> sendInstallSnapshot_reply e rf p isa isr = Some rf' \<Longrightarrow> P rf'"
    and inv_Snapshot: "P rf \<Longrightarrow> Snapshot rf i s = Some rf' \<Longrightarrow> P rf'"
    and inv_BackgroundApply: "P rf \<Longrightarrow> BackgroundApply nil rf = Some (Applied rf' msg) \<Longrightarrow> P rf'"
    and inv_Kill: "P rf \<Longrightarrow> P (Kill rf)"
begin

lemma inv_step:
  assumes "reachable N w" "cluster_step N w w'" "n \<in> peer_ids N" "P (nodes w n)"
  shows "P (nodes w' n) \<or> breaks installs w w' n"
proof -
  obtain C where e: "election_inv N C w" using election_inv_reachable [OF assms(1)] ..
  have put: "P (nodes w' n) \<or> breaks installs w w' n"
    if "w' = put x rf' cs w" "P (nodes w x) \<Longrightarrow> P rf'" for x rf' cs
    using that assms(4) by auto
  show ?thesis
    using assms(2)
  proof cases
    case (restart x)
    have "durable (nodes w x)" "peers (nodes w x) = N" "me (nodes w x) = x"
      using e restart(2) by (auto simp: election_inv_def node_inv_def Let_def)
    then show ?thesis using put [OF restart(1)] inv_restart [of "nodes w x"] restart(2) by simp
  next
    case (tick_follower x e rf' b)
    show ?thesis by (rule put [OF tick_follower(1)]) (rule inv_tickFollower [OF _ tick_follower(3)])
  next
    case (election x e rf' ms)
    show ?thesis by (rule put [OF election(1)]) (rule inv_doElection [OF _ election(3)])
  next
    case (vote_request f x a e rf' r)
    show ?thesis by (rule put [OF vote_request(1)]) (rule inv_RequestVote [OF _ vote_request(3)])
  next
    case (vote_reply x t a r e rf')
    show ?thesis by (rule put [OF vote_reply(1)]) (rule inv_handleVoteReply [OF _ vote_reply(3)])
  next
    case (start x c rf' res gs)
    show ?thesis by (rule put [OF start(1)]) (rule inv_Start [OF _ start(3)])
  next
    case (append_request f x a e rf' r)
    show ?thesis by (rule put [OF append_request(1)]) (rule inv_AppendEntries [OF _ append_request(4)])
  next
    case (append_reply x t a r e rf')
    show ?thesis by (rule put [OF append_reply(1)]) (rule inv_AppendReply [OF _ append_reply(4)])
  next
    case (snapshot_request f x a rf' r d)
    show ?thesis
    proof (cases "x = n \<and> \<not> installs (nodes w x) a")
      case True
      then show ?thesis using snapshot_request by (auto simp: breaks_def)
    next
      case False
      then show ?thesis
        using snapshot_request(1) assms(4) inv_InstallSnapshot [OF _ _ snapshot_request(4)] by auto
    qed
  next
    case (snapshot_reply x t a r e rf')
    show ?thesis by (rule put [OF snapshot_reply(1)]) (rule inv_SnapshotReply [OF _ snapshot_reply(4)])
  next
    case (compact x i s rf')
    show ?thesis by (rule put [OF compact(1)]) (rule inv_Snapshot [OF _ compact(3)])
  next
    case (apply_entry x nil rf' m)
    show ?thesis by (rule put [OF apply_entry(1)]) (rule inv_BackgroundApply [OF _ apply_entry(3)])
  next
    case (kill x)
    show ?thesis by (rule put [OF kill(1)]) (rule inv_Kill)
  next
    case (heartbeat x gs)
    show ?thesis by (rule put [OF heartbeat(1)])
  next
    case (snapshot_send x p a)
    show ?thesis by (rule put [OF snapshot_send(1)])
  next
    case (lose m)
    then show ?thesis using assms(4) by simp
  qed
qed

text \<open>A peer without the predicate has lost it at a step of the run that led to it.\<close>

lemma broken:
  assumes "reachable N w" "n \<in> peer_ids N" "\<not> P (nodes w n)"
  shows "\<exists>u u'. reachable N u \<and> cluster_step N u u' \<and> (cluster_step N)\<^sup>*\<^sup>* u' w \<and> breaks installs u u' n"
  using assms(1,3)
proof (induction rule: reachable.induct)
  case (init nil)
  then show ?case by (simp add: init_cluster_def inv_make)
next
  case (step w w')
  show ?case
  proof (cases "P (nodes w n)")
    case True
    then have "breaks installs w w' n" using inv_step [OF step.hyps assms(2)] step.prems by blast
    then show ?thesis using step.hyps by blast
  next
    case False
    then show ?thesis using step.IH step.hyps(2) by (meson rtranclp.rtrancl_into_rtrancl)
  qed
qed

end

text \<open>A predicate that every section keeps holds of every peer of every reachable cluster.\<close>

locale peer_invariant = guarded_invariant N P "\<lambda>rf isa. True"
  for N :: nat and P :: "('c, 'b) Raft \<Rightarrow> bool"
begin

lemma holds: "reachable N w \<Longrightarrow> \<forall>n \<in> peer_ids N. P (nodes w n)"
  using broken by (fastforce simp: breaks_def)

end

subsection \<open>The order of the indices\<close>

definition ordered :: "('c, 'b) Raft \<Rightarrow> bool" where
  "ordered rf \<longleftrightarrow> 0 \<le> lastIncludedIndex rf \<and> lastIncludedIndex rf \<le> lastApplied rf \<and>
     lastApplied rf \<le> commitIndex rf"

lemma ordered_simps [simp]:
  "ordered (persist rf) = ordered rf" "ordered (resetDeadline e rf) = ordered rf"
  "ordered (adoptTerm t rf) = ordered rf" "ordered (stepDown e t rf) = ordered rf"
  "ordered (rf\<lparr>nextIndex := ni\<rparr>) = ordered rf" "ordered (rf\<lparr>matchIndex := mi\<rparr>) = ordered rf"
  "ordered (rf\<lparr>persister := ps\<rparr>) = ordered rf" "ordered (rf\<lparr>log := l\<rparr>) = ordered rf"
  "ordered (rf\<lparr>votesReceived := v\<rparr>) = ordered rf" "ordered (rf\<lparr>serverState := ss\<rparr>) = ordered rf"
  by (simp_all add: ordered_def)

lemma ordered_commit: "ordered rf \<Longrightarrow> commitIndex rf \<le> c \<Longrightarrow> ordered (rf\<lparr>commitIndex := c\<rparr>)"
  by (simp add: ordered_def)

lemma ordered_advanceCommit: "advanceCommit rf = Some rf' \<Longrightarrow> ordered rf \<Longrightarrow> ordered rf'"
  using advanceCommit_commit ordered_commit by blast

lemma ordered_AppendEntries:
  assumes "ordered rf" "AppendEntries e rf a = Some (rf', r)"
  shows "ordered rf'"
  using assms(2)
proof (cases rule: AppendEntries_cases)
  case (accepted rf1)
  note f = acceptEntries_fields [OF accepted(3,4,7)]
  have "lastIncludedIndex rf' \<le> lastLogIndex rf'" by (simp add: lastLogIndex_def)
  then show ?thesis
    using assms(1) f(7,13,14) accepted(1)
    by (auto simp: ordered_def min_le_iff_disj le_max_iff_disj)
qed (use assms(1) in simp_all)

lemma ordered_Make: "0 \<le> lastIncludedIndex (fst (Make n i ps)) \<Longrightarrow> ordered (fst (Make n i ps))"
  by (simp add: ordered_def Make_def Let_def)

interpretation ord: peer_invariant N "ordered :: ('c, 'b) Raft \<Rightarrow> bool" for N
proof
  fix rf rf' :: "('c, 'b) Raft" and e c res gs T ok p i ents aer isa isr d s nil msg b ms rva rvr aea n
  show "ordered (fst (Make N n (MakePersister nil)) :: ('c, 'b) Raft)"
    by (rule ordered_Make)
       (simp add: Make_def readPersist_def MakePersister_def ReadRaftState_def Let_def)
  show "ordered (Kill rf)" if "ordered rf" using that by (simp add: Kill_def ordered_def)
  assume o: "ordered rf"
  show "ordered (fst (Make N (me rf) (persister rf)))" if "durable rf" "peers rf = N"
    using o that by (intro ordered_Make) (simp add: durable_def persistent_def ordered_def)
  show "ordered rf'" if "tickFollower e rf = (rf', b)"
    using o that by (auto simp: tickFollower_def split: option.splits)
  show "ordered rf'" if "doElection e rf = (rf', ms)"
    using o that by (auto simp: doElection_def Let_def ordered_def split: option.splits if_splits)
  show "ordered rf'" if "RequestVote e rf rva = (rf', rvr)"
    using o that by (auto simp: RequestVote_def Let_def ordered_def split: if_splits)
  show "ordered rf'" if "handleVoteReply e rf T ok = Some rf'"
    using o that by (auto simp: handleVoteReply_def Let_def split: if_splits option.splits
        dest!: initLeaderIndex_arrays)
  show "ordered rf'" if "Start rf c = Some (rf', res, gs)"
    using o that by (auto simp: Start_def Let_def split: if_splits bind_splits)
  show "ordered rf'" if "AppendEntries e rf aea = Some (rf', aer)"
    using ordered_AppendEntries [OF o that] .
  show "ordered rf'" if "processAppendEntriesReply e rf p T i ents aer = Some rf'"
    using o that by (auto simp: processAppendEntriesReply_def Let_def split: if_splits bind_splits
        dest!: ordered_advanceCommit)
  show "ordered rf'" if "InstallSnapshot rf isa = (rf', isr, d)"
    using o that by (auto simp: InstallSnapshot_def Let_def ordered_def split: if_splits)
  show "ordered rf'" if "sendInstallSnapshot_reply e rf p isa isr = Some rf'"
    using o that by (auto simp: sendInstallSnapshot_reply_def Let_def split: if_splits bind_splits
        dest!: ordered_advanceCommit)
  show "ordered rf'" if "Snapshot rf i s = Some rf'"
    using o that by (auto simp: Snapshot_def Let_def ordered_def split: if_splits bind_splits)
  show "ordered rf'" if "BackgroundApply nil rf = Some (Applied rf' msg)"
    using o that by (auto simp: BackgroundApply_def Let_def ordered_def split: if_splits bind_splits)
qed

subsection \<open>The shape of the arrays\<close>

definition shaped :: "nat \<Rightarrow> ('c, 'b) Raft \<Rightarrow> bool" where
  "shaped N rf \<longleftrightarrow> peers rf = N \<and> length (nextIndex rf) = N \<and> length (matchIndex rf) = N"

lemma shaped_simps [simp]:
  "shaped N (persist rf) = shaped N rf" "shaped N (resetDeadline e rf) = shaped N rf"
  "shaped N (adoptTerm t rf) = shaped N rf" "shaped N (stepDown e t rf) = shaped N rf"
  "shaped N (rf\<lparr>persister := ps\<rparr>) = shaped N rf" "shaped N (rf\<lparr>log := l\<rparr>) = shaped N rf"
  "shaped N (rf\<lparr>votesReceived := v\<rparr>) = shaped N rf"
  "shaped N (rf\<lparr>serverState := ss\<rparr>) = shaped N rf"
  "shaped N (rf\<lparr>commitIndex := ci\<rparr>) = shaped N rf"
  "shaped N (rf\<lparr>lastApplied := la\<rparr>) = shaped N rf"
  by (simp_all add: shaped_def)

lemma setAll_length: "setAll xs js v = Some ys \<Longrightarrow> length ys = length xs"
  by (induction js arbitrary: xs) (auto simp: go_set_eq_Some split: bind_splits)

lemma setAll_total: "\<forall>j \<in> set js. j < length xs \<Longrightarrow> \<exists>ys. setAll xs js v = Some ys"
  by (induction js arbitrary: xs) (auto simp: go_set_def)

lemma setAll_nth:
  "setAll xs js v = Some ys \<Longrightarrow> i < length xs \<Longrightarrow> ys ! i = (if i \<in> set js then v else xs ! i)"
  by (induction js arbitrary: xs) (auto simp: go_set_eq_Some nth_list_update split: bind_splits)

lemma shaped_initLeaderIndex: "initLeaderIndex rf = Some rf' \<Longrightarrow> shaped N rf \<Longrightarrow> shaped N rf'"
  by (auto simp: initLeaderIndex_def Let_def shaped_def go_set_eq_Some split: bind_splits
      dest!: setAll_length)

lemma shaped_advanceCommit: "advanceCommit rf = Some rf' \<Longrightarrow> shaped N rf' = shaped N rf"
  using advanceCommit_commit by fastforce

lemma shaped_AppendEntries:
  assumes "shaped N rf" "AppendEntries e rf a = Some (rf', r)"
  shows "shaped N rf'"
  using assms(2)
proof (cases rule: AppendEntries_cases)
  case (accepted rf1)
  then show ?thesis
    using assms(1) acceptEntries_fields(2,9,10) [OF accepted(3,4,7)] by (simp add: shaped_def)
qed (use assms(1) in simp_all)

lemma shaped_Make: "shaped N (fst (Make N i ps))"
  by (simp add: shaped_def Make_def readPersist_def Let_def split: option.splits)

interpretation shp: peer_invariant N "shaped N :: ('c, 'b) Raft \<Rightarrow> bool" for N
proof
  fix rf rf' :: "('c, 'b) Raft" and e c res gs T ok p i ents aer isa isr d s nil msg b ms rva rvr aea n
  show "shaped N (fst (Make N n (MakePersister nil)) :: ('c, 'b) Raft)" by (rule shaped_Make)
  show "shaped N (fst (Make N (me rf) (persister rf)))" by (rule shaped_Make)
  show "shaped N (Kill rf)" if "shaped N rf" using that by (simp add: Kill_def shaped_def)
  assume o: "shaped N rf"
  show "shaped N rf'" if "tickFollower e rf = (rf', b)"
    using o that by (auto simp: tickFollower_def split: option.splits)
  show "shaped N rf'" if "doElection e rf = (rf', ms)"
    using o that by (auto simp: doElection_def Let_def shaped_def split: option.splits if_splits)
  show "shaped N rf'" if "RequestVote e rf rva = (rf', rvr)"
    using o that by (auto simp: RequestVote_def Let_def shaped_def split: if_splits)
  show "shaped N rf'" if "handleVoteReply e rf T ok = Some rf'"
    using o that by (auto simp: handleVoteReply_def Let_def split: if_splits option.splits
        dest!: shaped_initLeaderIndex [where N = N])
  show "shaped N rf'" if "Start rf c = Some (rf', res, gs)"
    using o that by (auto simp: Start_def Let_def shaped_def go_set_eq_Some
        split: if_splits bind_splits)
  show "shaped N rf'" if "AppendEntries e rf aea = Some (rf', aer)"
    using shaped_AppendEntries [OF o that] .
  show "shaped N rf'" if "processAppendEntriesReply e rf p T i ents aer = Some rf'"
    using o that by (auto simp: processAppendEntriesReply_def Let_def go_set_eq_Some
        split: if_splits bind_splits dest!: shaped_advanceCommit [where N = N])
      (auto simp: shaped_def)
  show "shaped N rf'" if "InstallSnapshot rf isa = (rf', isr, d)"
    using o that by (auto simp: InstallSnapshot_def Let_def shaped_def split: if_splits)
  show "shaped N rf'" if "sendInstallSnapshot_reply e rf p isa isr = Some rf'"
    using o that by (auto simp: sendInstallSnapshot_reply_def Let_def go_set_eq_Some
        split: if_splits bind_splits dest!: shaped_advanceCommit [where N = N])
      (auto simp: shaped_def)
  show "shaped N rf'" if "Snapshot rf i s = Some rf'"
    using o that by (auto simp: Snapshot_def Let_def shaped_def split: if_splits bind_splits)
  show "shaped N rf'" if "BackgroundApply nil rf = Some (Applied rf' msg)"
    using o that by (auto simp: BackgroundApply_def Let_def split: if_splits bind_splits)
qed

end
