(* ===== verification/Raft_Panic.thy ===== *)
theory Raft_Panic
  imports Raft_Invariants Raft_Local Raft_Sample
begin

text \<open>
  Which sections of a peer can panic. A leader's sections index its log by \<^verbatim>\<open>nextIndex\<close>, which is set
  from the replies it gets; the invariant bounds every reply under way by the log of the leader it
  returns to.
\<close>

subsection \<open>What a section does to the log of a leader\<close>

text \<open>
  A section that leaves a peer in its term and not a follower found it so, and kept the log or made
  it longer.
\<close>

definition grows :: "('c, 'b) Raft \<Rightarrow> ('c, 'b) Raft \<Rightarrow> bool" where
  "grows rf rf' \<longleftrightarrow> currentTerm rf \<le> currentTerm rf' \<and>
     (currentTerm rf' = currentTerm rf \<longrightarrow> serverState rf' \<noteq> follower \<longrightarrow>
        serverState rf \<noteq> follower \<and> lastLogIndex rf \<le> lastLogIndex rf')"

lemma grows_refl [simp]: "grows rf rf"
  by (simp add: grows_def)

lemma grows_kept:
  "silent rf rf' \<Longrightarrow> log_kept rf rf' \<Longrightarrow> grows rf rf'"
  by (auto simp: silent_def log_kept_def grows_def lastLogIndex_def)

lemma grows_AppendEntries:
  assumes "AppendEntries e rf a = Some (rf', r)"
  shows "grows rf rf'"
  using assms
proof (cases rule: AppendEntries_cases)
  case (accepted rf1)
  then show ?thesis
    using acceptEntries_fields(3,5) [OF accepted(3,4,7)] by (simp add: grows_def)
qed (simp_all add: grows_def)

lemma grows_InstallSnapshot: "InstallSnapshot rf a = (rf', r, d) \<Longrightarrow> grows rf rf'"
  by (auto simp: InstallSnapshot_def Let_def grows_def split: if_splits)

lemma grows_Snapshot:
  assumes "Snapshot rf i s = Some rf'"
  shows "grows rf rf'" and "lastLogIndex rf' = lastLogIndex rf"
proof -
  show "lastLogIndex rf' = lastLogIndex rf"
    using assms by (auto simp: Snapshot_def Let_def lastLogIndex_def go_slice_from_eq_Some
        split: if_splits bind_splits)
  then show "grows rf rf'"
    using silent_Snapshot [OF assms] by (auto simp: grows_def silent_def)
qed

lemma grows_Start: "Start rf c = Some (rf', res, gs) \<Longrightarrow> grows rf rf'"
  by (auto simp: Start_def Let_def grows_def lastLogIndex_def split: if_splits bind_splits)

lemma lastLogIndex_volatile [simp]:
  "lastLogIndex (rf\<lparr>votedFor := v\<rparr>) = lastLogIndex rf"
  "lastLogIndex (rf\<lparr>serverState := ss\<rparr>) = lastLogIndex rf"
  "lastLogIndex (rf\<lparr>nextIndex := ni\<rparr>) = lastLogIndex rf"
  "lastLogIndex (rf\<lparr>matchIndex := mi\<rparr>) = lastLogIndex rf"
  "lastLogIndex (rf\<lparr>votesReceived := vr\<rparr>) = lastLogIndex rf"
  "lastLogIndex (rf\<lparr>commitIndex := ci\<rparr>) = lastLogIndex rf"
  by (simp_all add: lastLogIndex_def)

lemma grows_RequestVote: "RequestVote e rf a = (rf', r) \<Longrightarrow> grows rf rf'"
  by (auto simp: RequestVote_def Let_def grows_def split: if_splits)

lemma grows_doElection: "doElection e rf = (rf', ms) \<Longrightarrow> grows rf rf'"
  by (auto simp: doElection_def Let_def grows_def split: if_splits option.splits)

lemma grows_handleVoteReply:
  assumes "handleVoteReply e rf T ok = Some rf'"
  shows "grows rf rf'"
  using assms
  by (auto simp: handleVoteReply_def Let_def grows_def lastLogIndex_def split: if_splits option.splits
      dest!: initLeaderIndex_arrays)

lemma grows_Make: "durable rf \<Longrightarrow> grows rf (fst (Make (peers rf) (me rf) (persister rf)))"
  by (simp add: grows_def durable_def persistent_def)

lemma grows_others:
  "tickFollower e rf = (rf', b) \<Longrightarrow> grows rf rf'"
  "BackgroundApply nil rf = Some (Applied rf' m) \<Longrightarrow> grows rf rf'"
  "grows rf (Kill rf)"
  "processAppendEntriesReply e rf p T i ents aer = Some rf' \<Longrightarrow> grows rf rf'"
  "sendInstallSnapshot_reply e rf p isa isr = Some rf' \<Longrightarrow> grows rf rf'"
  by (blast intro: grows_kept silent_steps log_kept_steps log_kept_processAppendEntriesReply
      log_kept_sendInstallSnapshot_reply)+

subsection \<open>Bounds on the calls under way\<close>

definition within :: "('c, 'b) Raft \<Rightarrow> int \<Rightarrow> int \<Rightarrow> bool" where
  "within rf T k \<longleftrightarrow> 0 \<le> k \<and> T \<le> currentTerm rf \<and>
     (T = currentTerm rf \<longrightarrow> serverState rf \<noteq> follower \<longrightarrow> k \<le> lastLogIndex rf)"

lemma within_grows: "within rf T k \<Longrightarrow> grows rf rf' \<Longrightarrow> within rf' T k"
  by (auto simp: within_def grows_def)

definition append_end :: "'c AppendEntriesArgs \<Rightarrow> int" where
  "append_end a = PrevLogIndex a + int (length (Entries a))"

fun rpc_bound :: "nat \<Rightarrow> (int \<Rightarrow> ('c, 'b) Raft) \<Rightarrow> ('c, 'b) rpc \<Rightarrow> bool" where
  "rpc_bound N nd (AppendCall f t a) \<longleftrightarrow> f \<in> peer_ids N \<and> t \<in> peer_ids N \<and> 0 \<le> PrevLogIndex a \<and>
     within (nd f) (ae_Term a) (append_end a)"
| "rpc_bound N nd (AppendReturn f t a r) \<longleftrightarrow> f \<in> peer_ids N \<and> t \<in> peer_ids N \<and> 0 \<le> PrevLogIndex a \<and>
     within (nd f) (ae_Term a) (append_end a) \<and> XLen r \<le> PrevLogIndex a \<and> XIndex r \<le> PrevLogIndex a"
| "rpc_bound N nd (SnapshotTask f t) \<longleftrightarrow> f \<in> peer_ids N \<and> t \<in> peer_ids N"
| "rpc_bound N nd (SnapshotCall f t a) \<longleftrightarrow> f \<in> peer_ids N \<and> t \<in> peer_ids N \<and>
     within (nd f) (is_Term a) (is_LastIncludedIndex a)"
| "rpc_bound N nd (SnapshotReturn f t a r) \<longleftrightarrow> f \<in> peer_ids N \<and> t \<in> peer_ids N \<and>
     within (nd f) (is_Term a) (is_LastIncludedIndex a)"
| "rpc_bound N nd _ \<longleftrightarrow> True"

lemma rpc_bound_grows:
  "rpc_bound N nd m \<Longrightarrow> grows (nd n) rf' \<Longrightarrow> rpc_bound N (nd(n := rf')) m"
  by (cases m) (auto intro: within_grows)

definition next_ok :: "('c, 'b) Raft \<Rightarrow> bool" where
  "next_ok rf \<longleftrightarrow> serverState rf = leader \<longrightarrow>
     (\<forall>k \<in> set (nextIndex rf). 1 \<le> k \<and> k \<le> lastLogIndex rf + 1)"

definition bounds_inv :: "nat \<Rightarrow> ('c, 'b) cluster \<Rightarrow> bool" where
  "bounds_inv N w \<longleftrightarrow> (\<forall>m. m \<in># calls w \<longrightarrow> rpc_bound N (nodes w) m) \<and>
     (\<forall>n \<in> peer_ids N. next_ok (nodes w n))"

lemma bounds_inv_put:
  assumes "bounds_inv N w" "grows (nodes w n) rf'" "next_ok (nodes w n) \<Longrightarrow> next_ok rf'"
    and "\<And>m. m \<in># cs \<Longrightarrow> m \<in># calls w \<or> rpc_bound N ((nodes w)(n := rf')) m"
  shows "bounds_inv N (put n rf' cs w)"
  using assms rpc_bound_grows [of N "nodes w" _ n rf'] by (fastforce simp: bounds_inv_def)

subsection \<open>What the leader's sections send\<close>

lemma replicateTo_bound:
  assumes "replicateTo rf p = Some g" "ordered rf" "rf = nd n" "n \<in> peer_ids N" "p \<in> peer_ids N"
  shows "rpc_bound N nd (task n g)"
proof (cases g)
  case (GoAppendEntries q a)
  from assms(1) GoAppendEntries have "q = p" "ae_Term a = currentTerm rf"
    "lastIncludedIndex rf \<le> PrevLogIndex a"
    "go_slice_from (log rf) (PrevLogIndex a - lastIncludedIndex rf) = Some (Entries a)"
    by (auto simp: replicateTo_def Let_def algebra_simps split: if_splits bind_splits)
  moreover from this have "append_end a = lastLogIndex rf"
    by (auto simp: append_end_def lastLogIndex_def go_slice_from_eq_Some)
  ultimately show ?thesis
    using GoAppendEntries assms(2-) by (auto simp: within_def ordered_def append_end_def)
next
  case (GoInstallSnapshot q)
  with assms(1) have "q = p"
    by (auto simp: replicateTo_def Let_def split: if_splits bind_splits)
  then show ?thesis using GoInstallSnapshot assms(4,5) by simp
qed

lemma replicateAll_bound:
  assumes "replicateAll rf js = Some gs" "g \<in> set gs" "ordered rf" "rf = nd n" "n \<in> peer_ids N"
    "\<forall>j \<in> set js. j < N"
  shows "rpc_bound N nd (task n g)"
  using assms(1,2,6)
proof (induction js arbitrary: gs)
  case (Cons j js)
  have "rpc_bound N nd (task n g)" if "replicateTo rf (int j) = Some g"
    using replicateTo_bound [where nd = nd and n = n, OF that assms(3-5)] Cons.prems(3) by simp
  then show ?case using Cons by (auto split: if_splits bind_splits)
qed simp

lemma replicateTo_total:
  assumes "ordered rf" "0 \<le> p" "p < int (length (nextIndex rf))"
    "\<forall>k \<in> set (nextIndex rf). 1 \<le> k \<and> k \<le> lastLogIndex rf + 1"
  shows "\<exists>g. replicateTo rf p = Some g"
proof -
  have "nextIndex rf ! nat p \<in> set (nextIndex rf)" using assms(2,3) by simp
  then have "1 \<le> nextIndex rf ! nat p" "nextIndex rf ! nat p \<le> lastLogIndex rf + 1"
    using assms(4) by blast+
  then show ?thesis
    using assms(1-3)
    by (auto simp: replicateTo_def Let_def go_index_def go_slice_from_def lastLogIndex_def)
qed

lemma replicateAll_total:
  assumes "ordered rf" "\<forall>j \<in> set js. j < length (nextIndex rf)"
    "\<forall>k \<in> set (nextIndex rf). 1 \<le> k \<and> k \<le> lastLogIndex rf + 1"
  shows "\<exists>gs. replicateAll rf js = Some gs"
  using assms(2)
proof (induction js)
  case (Cons j js)
  then obtain gs where "replicateAll rf js = Some gs" by auto
  moreover obtain g where "replicateTo rf (int j) = Some g"
    using replicateTo_total [OF assms(1) _ _ assms(3), of "int j"] Cons.prems by auto
  ultimately show ?case by simp
qed simp

subsection \<open>The leader's next indices\<close>

lemma next_ok_set:
  assumes "next_ok rf" "go_set (nextIndex rf) p k = Some (nextIndex rf')" "1 \<le> k"
    "k \<le> lastLogIndex rf + 1" "serverState rf' = serverState rf" "lastLogIndex rf' = lastLogIndex rf"
  shows "next_ok rf'"
proof -
  have "set (nextIndex rf') \<subseteq> insert k (set (nextIndex rf))"
    using assms(2) by (auto simp: go_set_eq_Some dest: set_update_subset_insert [THEN subsetD])
  then show ?thesis using assms(1,3-) unfolding next_ok_def by auto
qed

lemma next_ok_cong:
  "next_ok rf \<Longrightarrow> nextIndex rf' = nextIndex rf \<Longrightarrow> lastLogIndex rf' = lastLogIndex rf \<Longrightarrow>
     (serverState rf' = leader \<longrightarrow> serverState rf = leader) \<Longrightarrow> next_ok rf'"
  by (auto simp: next_ok_def)

lemma next_ok_follower [simp]: "serverState rf \<noteq> leader \<Longrightarrow> next_ok rf"
  by (simp add: next_ok_def)

lemma next_ok_advanceCommit: "advanceCommit rf = Some rf' \<Longrightarrow> next_ok rf \<Longrightarrow> next_ok rf'"
  by (auto dest!: advanceCommit_commit intro: next_ok_cong)

lemma next_ok_matchIndex [simp]: "next_ok (rf\<lparr>matchIndex := mi\<rparr>) = next_ok rf"
  by (auto simp: next_ok_def)

lemma lastWithTerm_le: "lastWithTerm l xt d i \<le> max d (int i + 1)"
  by (induction i) auto

lemma next_ok_AppendReply:
  assumes r: "processAppendEntriesReply e rf p (ae_Term a) (PrevLogIndex a) (Entries a) aer = Some rf'"
    and "ordered rf" "next_ok rf" "0 \<le> PrevLogIndex a" "within rf (ae_Term a) (append_end a)"
    and "XLen aer \<le> PrevLogIndex a" "XIndex aer \<le> PrevLogIndex a"
  shows "next_ok rf'"
proof (cases "serverState rf = leader \<and> currentTerm rf = ae_Term a")
  case False
  then have "rf' = rf" using r by (auto simp: processAppendEntriesReply_def)
  then show ?thesis using assms(3) by simp
next
  case lead: True
  have last: "append_end a \<le> lastLogIndex rf" "PrevLogIndex a \<le> lastLogIndex rf"
    "int (length (log rf)) \<le> lastLogIndex rf"
    using lead assms(2,5) by (auto simp: within_def append_end_def ordered_def lastLogIndex_def)
  consider (newer) "rf' = stepDown e (aer_Term aer) rf"
    | (ok) rf1 where "go_set (nextIndex rf) p (append_end a + 1) = Some (nextIndex rf1)"
        "serverState rf1 = serverState rf" "lastLogIndex rf1 = lastLogIndex rf"
        "advanceCommit rf1 = Some rf'"
    | (no) k where "go_set (nextIndex rf) p (if k < 1 then 1 else k) = Some (nextIndex rf')"
        "serverState rf' = serverState rf" "lastLogIndex rf' = lastLogIndex rf" "k \<le> PrevLogIndex a \<or> k \<le> int (length (log rf) - 1) + 1"
  proof (cases "aer_Term aer > currentTerm rf")
    case False
    show ?thesis
    proof (cases "Success aer")
      case True
      have nm: "(if length (Entries a) > 0 then PrevLogIndex a + int (length (Entries a))
        else PrevLogIndex a) = append_end a" by (simp add: append_end_def)
      obtain mi ni where
        "go_set (nextIndex rf) p (append_end a + 1) = Some ni"
        "advanceCommit (rf\<lparr>matchIndex := mi, nextIndex := ni\<rparr>) = Some rf'"
        using r lead False True unfolding processAppendEntriesReply_def nm Let_def
        by (auto split: bind_splits)
      then show ?thesis using that(2) [of "rf\<lparr>matchIndex := mi, nextIndex := ni\<rparr>"] by simp
    next
      case fail: False
      define k where "k = (if XTerm aer = -1 then XLen aer
        else lastWithTerm (log rf) (XTerm aer) (XIndex aer) (length (log rf) - 1))"
      have "k \<le> PrevLogIndex a \<or> k \<le> int (length (log rf) - 1) + 1"
        using lastWithTerm_le [of "log rf" "XTerm aer" "XIndex aer" "length (log rf) - 1"] assms(6,7)
        by (auto simp: k_def)
      moreover have "go_set (nextIndex rf) p (if k < 1 then 1 else k) = Some (nextIndex rf')"
        "serverState rf' = serverState rf" "lastLogIndex rf' = lastLogIndex rf"
        using r lead False fail
        by (auto simp: processAppendEntriesReply_def Let_def k_def split: bind_splits)
      ultimately show ?thesis using that(3) by blast
    qed
  qed (use r lead that(1) in \<open>simp add: processAppendEntriesReply_def\<close>)
  then show ?thesis
  proof cases
    case newer
    then show ?thesis by simp
  next
    case (ok rf1)
    have "next_ok rf1"
      using next_ok_set [OF assms(3) ok(1) _ _ ok(2,3)] last(1) assms(4)
      by (simp add: append_end_def)
    then show ?thesis by (rule next_ok_advanceCommit [OF ok(4)])
  next
    case (no k)
    have "(if k < 1 then 1 else k) \<le> lastLogIndex rf + 1"
      using no(4) last assms(4) by auto
    then show ?thesis using next_ok_set [OF assms(3) no(1) _ _ no(2,3)] by simp
  qed
qed

lemma next_ok_SnapshotReply:
  assumes r: "sendInstallSnapshot_reply e rf p a isr = Some rf'"
    and "next_ok rf" "within rf (is_Term a) (is_LastIncludedIndex a)"
  shows "next_ok rf'"
proof (cases "serverState rf = leader \<and> currentTerm rf = is_Term a")
  case False
  then have "rf' = rf" using r by (auto simp: sendInstallSnapshot_reply_def Let_def)
  then show ?thesis using assms(2) by simp
next
  case lead: True
  have last: "0 \<le> is_LastIncludedIndex a" "is_LastIncludedIndex a \<le> lastLogIndex rf"
    using lead assms(3) by (auto simp: within_def)
  consider (same) "rf' = rf" | (newer) "rf' = stepDown e (isr_Term isr) rf"
    | (moved) rf0 rf1 where "advanceCommit rf0 = Some rf1" "rf' = persist rf1"
        "serverState rf0 = serverState rf" "lastLogIndex rf0 = lastLogIndex rf"
        "nextIndex rf0 = nextIndex rf \<or>
           go_set (nextIndex rf) p (is_LastIncludedIndex a + 1) = Some (nextIndex rf0)"
  proof (cases "isr_Term isr = currentTerm rf")
    case True
    then obtain n mi ni rf1 where m:
      "(if n < is_LastIncludedIndex a + 1 then go_set (nextIndex rf) p (is_LastIncludedIndex a + 1)
        else Some (nextIndex rf)) = Some ni"
      "advanceCommit (rf\<lparr>matchIndex := mi, nextIndex := ni\<rparr>) = Some rf1" "rf' = persist rf1"
      using r lead by (auto simp: sendInstallSnapshot_reply_def Let_def split: bind_splits)
    then have "ni = nextIndex rf \<or> go_set (nextIndex rf) p (is_LastIncludedIndex a + 1) = Some ni"
      by (auto split: if_splits)
    with m(2,3) show ?thesis using that(3) [of "rf\<lparr>matchIndex := mi, nextIndex := ni\<rparr>" rf1] by simp
  next
    case False
    then show ?thesis
      using r lead that(1,2) by (auto simp: sendInstallSnapshot_reply_def Let_def split: if_splits)
  qed
  then show ?thesis
  proof cases
    case (moved rf0 rf1)
    have "next_ok rf0"
      using moved(5)
    proof
      assume "nextIndex rf0 = nextIndex rf"
      then show ?thesis using assms(2) moved(3,4) by (auto intro: next_ok_cong)
    next
      assume s: "go_set (nextIndex rf) p (is_LastIncludedIndex a + 1) = Some (nextIndex rf0)"
      show ?thesis by (rule next_ok_set [OF assms(2) s _ _ moved(3,4)]) (use last in simp_all)
    qed
    from next_ok_advanceCommit [OF moved(1) this] show ?thesis
      unfolding moved(2) by (rule next_ok_cong) simp_all
  qed (use assms(2) in simp_all)
qed

lemma initLeaderIndex_total:
  assumes "shaped N rf" "me rf \<in> peer_ids N"
  shows "\<exists>rf'. initLeaderIndex rf = Some rf'"
proof -
  obtain ni m0 where s: "setAll (nextIndex rf) [0..<peers rf] (lastLogIndex rf + 1) = Some ni"
    "setAll (matchIndex rf) [0..<peers rf] 0 = Some m0"
    using setAll_total [of "[0..<peers rf]" "nextIndex rf"]
      setAll_total [of "[0..<peers rf]" "matchIndex rf"] assms(1)
    by (force simp: shaped_def)
  moreover have "length m0 = N" using setAll_length [OF s(2)] assms(1) by (simp add: shaped_def)
  ultimately show ?thesis using assms by (auto simp: initLeaderIndex_def Let_def go_set_def)
qed

lemma next_ok_initLeaderIndex:
  assumes "initLeaderIndex rf = Some rf'" "shaped N rf" "ordered rf"
  shows "next_ok rf'"
proof -
  obtain ni mi where ni: "setAll (nextIndex rf) [0..<peers rf] (lastLogIndex rf + 1) = Some ni"
    "rf' = rf\<lparr>nextIndex := ni, matchIndex := mi\<rparr>"
    using assms(1) by (auto simp: initLeaderIndex_def Let_def split: bind_splits)
  have "k = lastLogIndex rf + 1" if "k \<in> set ni" for k
    using that setAll_nth [OF ni(1)] setAll_length [OF ni(1)] assms(2)
    by (auto simp: in_set_conv_nth shaped_def)
  moreover have "0 \<le> lastLogIndex rf" using assms(3) by (simp add: ordered_def lastLogIndex_def)
  ultimately show ?thesis using ni(2) by (force simp: next_ok_def)
qed

lemma next_ok_handleVoteReply:
  assumes "handleVoteReply e rf T ok = Some rf'" "next_ok rf" "shaped N rf" "ordered rf"
  shows "next_ok rf'"
  using assms
  by (auto simp: handleVoteReply_def Let_def split: if_splits option.splits
      intro: next_ok_initLeaderIndex)

lemma next_ok_Start:
  assumes "Start rf c = Some (rf', res, gs)" "next_ok rf"
  shows "next_ok rf'"
  using assms by (fastforce simp: Start_def Let_def next_ok_def lastLogIndex_def
      split: if_splits bind_splits)

subsection \<open>The invariant\<close>

text \<open>The contract of a reply to \<^verbatim>\<open>AppendEntries\<close>: its hints do not point past the request.\<close>

lemma xIndex_from_le: "xIndex_from rf t i = Some x \<Longrightarrow> x \<le> i"
proof (induction rf t i rule: xIndex_from.induct)
  case (1 rf t i)
  consider "x = i"
    | xe where "i > lastIncludedIndex rf + 1"
        "go_index (log rf) (i - 1 - lastIncludedIndex rf - 1) = Some xe" "\<not> Term xe \<noteq> t"
        "xIndex_from rf t (i - 1) = Some x"
    using "1.prems" by (subst (asm) xIndex_from.simps) (auto split: if_splits bind_splits)
  then show ?case
  proof cases
    case 2
    from "1.IH" [OF this] show ?thesis by simp
  qed simp
qed

lemma AppendEntries_reply_bound:
  assumes "AppendEntries e rf a = Some (rf', r)" "0 \<le> PrevLogIndex a"
  shows "XLen r \<le> PrevLogIndex a \<and> XIndex r \<le> PrevLogIndex a"
proof (cases "ae_Term a < currentTerm rf")
  case True
  then show ?thesis using assms by (auto simp: AppendEntries_stale)
next
  case False
  then show ?thesis
    using assms by (auto simp: AppendEntries_eq split: if_splits dest: xIndex_from_le)
qed

lemma next_ok_silent:
  "log_kept rf rf' \<Longrightarrow> nextIndex rf' = nextIndex rf \<Longrightarrow> next_ok rf \<Longrightarrow> next_ok rf'"
  by (rule next_ok_cong) (auto simp: log_kept_def lastLogIndex_def)

lemma next_ok_others:
  "tickFollower e rf = (rf', b) \<Longrightarrow> next_ok rf \<Longrightarrow> next_ok rf'"
  "doElection e rf = (rf', ms) \<Longrightarrow> next_ok rf \<Longrightarrow> next_ok rf'"
  "RequestVote e rf rva = (rf', rvr) \<Longrightarrow> next_ok rf \<Longrightarrow> next_ok rf'"
  "BackgroundApply nil rf = Some (Applied rf' m) \<Longrightarrow> next_ok rf \<Longrightarrow> next_ok rf'"
  "next_ok rf \<Longrightarrow> next_ok (Kill rf)"
  by (auto simp: next_ok_def tickFollower_def doElection_def RequestVote_def BackgroundApply_def
      Kill_def lastLogIndex_def Let_def split: option.splits if_splits bind_splits)

lemma next_ok_Snapshot: "Snapshot rf i s = Some rf' \<Longrightarrow> next_ok rf \<Longrightarrow> next_ok rf'"
  using grows_Snapshot(2) [of rf i s rf']
  by (intro next_ok_cong [of rf rf']) (auto simp: Snapshot_def Let_def split: if_splits bind_splits)

lemma next_ok_InstallSnapshot: "InstallSnapshot rf a = (rf', r, d) \<Longrightarrow> next_ok rf \<Longrightarrow> next_ok rf'"
  by (auto simp: InstallSnapshot_def Let_def split: if_splits)

lemma next_ok_AppendEntries:
  assumes "AppendEntries e rf a = Some (rf', r)" "next_ok rf"
  shows "next_ok rf'"
  using assms(1)
proof (cases rule: AppendEntries_cases)
  case (accepted rf1)
  then show ?thesis using acceptEntries_fields(5) [OF accepted(3,4,7)] by simp
qed (use assms(2) in simp_all)

lemma bounds_inv_same:
  assumes "bounds_inv N w" "w' = put n rf' (calls w) w" "grows (nodes w n) rf'"
    "next_ok (nodes w n) \<Longrightarrow> next_ok rf'"
  shows "bounds_inv N w'"
  unfolding assms(2) by (rule bounds_inv_put [OF assms(1,3,4)]) blast+

lemma bounds_inv_drop:
  assumes "bounds_inv N w" "w' = put n rf' (calls w - {#m#}) w" "grows (nodes w n) rf'"
    "next_ok (nodes w n) \<Longrightarrow> next_ok rf'"
  shows "bounds_inv N w'"
  unfolding assms(2) by (rule bounds_inv_put [OF assms(1,3,4)]) (auto dest: in_diffD)

lemma bounds_inv_answer:
  assumes "bounds_inv N w" "w' = put n rf' (calls w - {#m#} + {#m'#}) w" "grows (nodes w n) rf'"
    "next_ok (nodes w n) \<Longrightarrow> next_ok rf'"
    and "rpc_bound N (nodes w) m'"
  shows "bounds_inv N w'"
  unfolding assms(2)
proof (rule bounds_inv_put [OF assms(1,3,4)])
  fix x assume "x \<in># calls w - {#m#} + {#m'#}"
  then have "x \<in># calls w \<or> x = m'" by (auto dest: in_diffD)
  then show "x \<in># calls w \<or> rpc_bound N ((nodes w)(n := rf')) x"
    using rpc_bound_grows [OF assms(5,3)] by blast
qed

lemma bounds_inv_send:
  assumes "bounds_inv N w" "w' = put n rf' (calls w + mset (map (task n) gs)) w"
    "grows (nodes w n) rf'" "next_ok (nodes w n) \<Longrightarrow> next_ok rf'"
    and "\<And>g. g \<in> set gs \<Longrightarrow> rpc_bound N ((nodes w)(n := rf')) (task n g)"
  shows "bounds_inv N w'"
  unfolding assms(2) by (rule bounds_inv_put [OF assms(1,3,4)]) (use assms(5) in auto)

lemma replicateTo_persist [simp]: "replicateTo (persist rf) p = replicateTo rf p"
  unfolding replicateTo_def persist_fields ..

lemma replicateAll_persist [simp]: "replicateAll (persist rf) js = replicateAll rf js"
  by (induction js) simp_all

lemma Start_sends:
  "Start rf c = Some (rf', res, gs) \<Longrightarrow> gs = [] \<or> replicateAll rf' [0..<peers rf'] = Some gs"
  by (auto simp: Start_def Let_def split: if_splits bind_splits)

lemma bounds_inv_step:
  assumes "reachable N w" "cluster_step N w w'" and inv: "bounds_inv N w"
  shows "bounds_inv N w'"
proof -
  obtain C where e: "election_inv N C w" using election_inv_reachable [OF assms(1)] ..
  then have node: "durable (nodes w n)" "peers (nodes w n) = N" "me (nodes w n) = n"
    if "n \<in> peer_ids N" for n
    using that by (auto simp: election_inv_def node_inv_def Let_def)
  have ord: "ordered (nodes w n)" and shp: "shaped N (nodes w n)" if "n \<in> peer_ids N" for n
    using ord.holds [OF assms(1)] shp.holds [OF assms(1)] that by blast+
  have rpc: "rpc_bound N (nodes w) m" if "m \<in># calls w" for m
    using inv that by (simp add: bounds_inv_def)
  show ?thesis
    using assms(2)
  proof cases
    case (tick_follower n e rf' b)
    show ?thesis
      by (rule bounds_inv_same [OF inv tick_follower(1)])
         (auto intro: grows_others(1) next_ok_others(1) tick_follower(3))
  next
    case (election n e rf' ms)
    show ?thesis
      unfolding election(1)
      by (rule bounds_inv_put [OF inv])
         (auto intro: grows_doElection next_ok_others(2) election(3))
  next
    case (vote_request f t a e rf' r)
    show ?thesis
      by (rule bounds_inv_answer [OF inv vote_request(1)])
         (auto intro: grows_RequestVote next_ok_others(3) vote_request(3))
  next
    case (vote_reply f t a r e rf')
    have f: "f \<in> peer_ids N" using vote_return_ids [OF e vote_reply(2)] by simp
    show ?thesis
      by (rule bounds_inv_drop [OF inv vote_reply(1) grows_handleVoteReply [OF vote_reply(3)]
            next_ok_handleVoteReply [OF vote_reply(3) _ shp [OF f] ord [OF f]]])
  next
    case (start n c rf' res gs)
    have o: "ordered rf'" by (rule ord.inv_Start [OF ord [OF start(2)] start(3)])
    have "peers rf' = N" using silent_Start [OF start(3)] node(2) [OF start(2)] by (simp add: silent_def)
    then have sends: "rpc_bound N ((nodes w)(n := rf')) (task n g)" if "g \<in> set gs" for g
      using Start_sends [OF start(3)] replicateAll_bound [OF _ that o, of _ _ n] that start(2)
      by fastforce
    show ?thesis
      by (rule bounds_inv_send [OF inv start(1) grows_Start [OF start(3)] next_ok_Start [OF start(3)]])
         (assumption, rule sends)
  next
    case (heartbeat n gs)
    have sends: "rpc_bound N ((nodes w)(n := nodes w n)) (task n g)" if "g \<in> set gs" for g
      using replicateAll_bound [OF _ that ord [OF heartbeat(2)], of _ _ n N] node(2) [OF heartbeat(2)]
        heartbeat(2,3) by (auto simp: ticker_leader_def)
    show ?thesis
      by (rule bounds_inv_send [OF inv heartbeat(1) grows_refl]) (assumption, rule sends)
  next
    case (append_request f t a e rf' r)
    have b: "rpc_bound N (nodes w) (AppendCall f t a)" by (rule rpc [OF append_request(2)])
    then have r: "rpc_bound N (nodes w) (AppendReturn f t a r)"
      using AppendEntries_reply_bound [OF append_request(4)] by simp
    show ?thesis
      by (rule bounds_inv_answer [OF inv append_request(1) grows_AppendEntries [OF append_request(4)]
            next_ok_AppendEntries [OF append_request(4)] r])
  next
    case (append_reply f t a r e rf')
    have b: "rpc_bound N (nodes w) (AppendReturn f t a r)" by (rule rpc [OF append_reply(2)])
    show ?thesis
      by (rule bounds_inv_drop [OF inv append_reply(1) grows_others(4) [OF append_reply(4)]
            next_ok_AppendReply [OF append_reply(4) ord [OF append_reply(3)]]])
         (use b in simp_all)
  next
    case (snapshot_send n p a)
    have "is_Term a = currentTerm (nodes w n)"
      "is_LastIncludedIndex a = lastIncludedIndex (nodes w n)"
      using snapshot_send(4) by (auto simp: sendInstallSnapshot_args_def split: if_splits)
    then have r: "rpc_bound N (nodes w) (SnapshotCall n p a)"
      using rpc [OF snapshot_send(2)] ord [OF snapshot_send(3)]
      by (simp add: within_def ordered_def lastLogIndex_def)
    show ?thesis by (rule bounds_inv_answer [OF inv snapshot_send(1) grows_refl _ r])
  next
    case (snapshot_request f t a rf' r d)
    have ret: "rpc_bound N (nodes w) (SnapshotReturn f t a r)"
      using rpc [OF snapshot_request(2)] by simp
    show ?thesis
      by (rule bounds_inv_answer [OF inv snapshot_request(1)
            grows_InstallSnapshot [OF snapshot_request(4)]
            next_ok_InstallSnapshot [OF snapshot_request(4)] ret])
  next
    case (snapshot_reply f t a r e rf')
    have b: "rpc_bound N (nodes w) (SnapshotReturn f t a r)" by (rule rpc [OF snapshot_reply(2)])
    show ?thesis
      by (rule bounds_inv_drop [OF inv snapshot_reply(1) grows_others(5) [OF snapshot_reply(4)]
            next_ok_SnapshotReply [OF snapshot_reply(4)]])
         (use b in simp_all)
  next
    case (compact n i s rf')
    show ?thesis
      by (rule bounds_inv_same [OF inv compact(1) grows_Snapshot(1) [OF compact(3)]
            next_ok_Snapshot [OF compact(3)]])
  next
    case (apply_entry n nil rf' m)
    show ?thesis
      by (rule bounds_inv_same [OF inv apply_entry(1) grows_others(2) [OF apply_entry(3)]
            next_ok_others(4) [OF apply_entry(3)]])
  next
    case (kill n)
    show ?thesis
      by (rule bounds_inv_same [OF inv kill(1) grows_others(3) next_ok_others(5)])
  next
    case (restart n)
    have "grows (nodes w n) (fst (Make N n (persister (nodes w n))))"
      using grows_Make [of "nodes w n"] node [OF restart(2)] by simp
    then show ?thesis by (rule bounds_inv_same [OF inv restart(1)]) simp
  next
    case (lose m)
    then show ?thesis using inv by (auto simp: bounds_inv_def dest: in_diffD)
  qed
qed

lemma bounds_inv_reachable: "reachable N w \<Longrightarrow> bounds_inv N w"
proof (induction rule: reachable.induct)
  case (init nil)
  then show ?case by (simp add: bounds_inv_def init_cluster_def)
qed (rule bounds_inv_step)

subsection \<open>Theorems\<close>

lemma advanceCommit_total: "length (matchIndex rf) = peers rf \<Longrightarrow> \<exists>rf'. advanceCommit rf = Some rf'"
  using advanceCommit_from_spec [of rf "lastLogIndex rf"]
  by (auto simp: advanceCommit_def committable_def)

lemma processAppendEntriesReply_total:
  assumes "shaped N rf" "p \<in> peer_ids N"
  shows "\<exists>rf'. processAppendEntriesReply e rf p T i ents r = Some rf'"
proof -
  have "\<exists>rf'. advanceCommit (rf\<lparr>matchIndex := (matchIndex rf)[k := v], nextIndex := ni\<rparr>) = Some rf'"
    "\<exists>rf'. advanceCommit (rf\<lparr>nextIndex := ni\<rparr>) = Some rf'" for k v ni
    using assms(1) by (intro advanceCommit_total; simp add: shaped_def)+
  then show ?thesis
    using assms by (auto simp: processAppendEntriesReply_def Let_def go_index_def go_set_def shaped_def)
qed

lemma sendInstallSnapshot_reply_total:
  assumes "shaped N rf" "p \<in> peer_ids N"
  shows "\<exists>rf'. sendInstallSnapshot_reply e rf p a r = Some rf'"
proof -
  have "\<exists>rf'. advanceCommit (rf\<lparr>matchIndex := mi, nextIndex := ni\<rparr>) = Some rf'"
    if "length mi = N" for mi ni
    using assms(1) that by (intro advanceCommit_total) (simp add: shaped_def)
  moreover have "length mi = N"
    if "(if c then go_set (matchIndex rf) p v else Some (matchIndex rf)) = Some mi" for c v mi
    using that assms by (auto simp: go_set_def shaped_def split: if_splits)
  moreover have "\<exists>x. go_set (matchIndex rf) p v = Some x" "\<exists>x. go_set (nextIndex rf) p v = Some x" for v
    using assms by (auto simp: go_set_def shaped_def)
  moreover have "\<exists>m. go_index (matchIndex rf) p = Some m" "\<exists>n. go_index (nextIndex rf) p = Some n"
    using assms by (auto simp: go_index_def shaped_def)
  ultimately show ?thesis
    unfolding sendInstallSnapshot_reply_def Let_def
    by (auto intro!: bind_total)
qed

lemma handleVoteReply_total:
  assumes "shaped N rf" "me rf \<in> peer_ids N"
  shows "\<exists>rf'. handleVoteReply e rf T ok = Some rf'"
proof -
  have "\<exists>rf'. initLeaderIndex (rf\<lparr>votesReceived := v, serverState := leader\<rparr>) = Some rf'" for v
    using assms by (intro initLeaderIndex_total [of N]) simp_all
  then show ?thesis by (auto simp: handleVoteReply_def Let_def split: option.split)
qed

lemma Start_total:
  assumes "shaped N rf" "me rf \<in> peer_ids N" "ordered rf" "next_ok rf"
  shows "\<exists>x. Start rf c = Some x"
proof (cases "serverState rf = leader")
  case True
  let ?rf1 = "rf\<lparr>log := log rf @ [\<lparr>Term = currentTerm rf, Index = 0, Command = c\<rparr>]\<rparr>"
  obtain mi where mi: "go_set (matchIndex ?rf1) (me ?rf1) (lastLogIndex ?rf1) = Some mi"
    using assms(1,2) by (auto simp: go_set_def shaped_def)
  have "\<exists>gs. replicateAll (?rf1\<lparr>matchIndex := mi\<rparr>) [0..<peers rf] = Some gs"
    using assms True by (intro replicateAll_total)
      (auto simp: shaped_def next_ok_def lastLogIndex_def)
  then show ?thesis using True mi by (auto simp: Start_def Let_def)
qed (auto simp: Start_def)

text \<open>
  C11. Handlers do not panic, nor does the heartbeat of a peer that still leads. In every reachable cluster a peer's
  \<^verbatim>\<open>Start\<close> returns, its replies to \<^verbatim>\<open>AppendEntries\<close> are computed and every reply under way to it is processed
  without panic; and a peer that is leader at the time its ticker runs the leader's section assembles its
  heartbeats without panic: the \<^verbatim>\<open>nextIndex\<close> a leader takes from conflict hints and acknowledgements never leaves
  its log. Nothing is said of a ticker that runs this section after its peer has stepped down, which \<^verbatim>\<open>ticker\<close>
  does not exclude: that one can panic (lemma \<open>stale_ticker_panics\<close> of \<open>Raft_Ticker\<close>).
\<close>

theorem protocol_sections_return:
  assumes "reachable N w" and "n \<in> peer_ids N"
  shows "(\<exists>x. Start (nodes w n) c = Some x) \<and> (\<exists>x. AppendEntries e (nodes w n) a = Some x) \<and>
    (serverState (nodes w n) = leader \<longrightarrow> (\<exists>gs. ticker_leader (nodes w n) = Some gs)) \<and>
    (\<forall>t va vr. VoteReturn n t va vr \<in># calls w \<longrightarrow>
       (\<exists>rf'. handleVoteReply e (nodes w n) (rv_Term va) (Some vr) = Some rf')) \<and>
    (\<forall>t aa ar. AppendReturn n t aa ar \<in># calls w \<longrightarrow>
       (\<exists>rf'. processAppendEntriesReply e (nodes w n) t (ae_Term aa) (PrevLogIndex aa) (Entries aa) ar
              = Some rf')) \<and>
    (\<forall>t sa sr. SnapshotReturn n t sa sr \<in># calls w \<longrightarrow>
       (\<exists>rf'. sendInstallSnapshot_reply e (nodes w n) t sa sr = Some rf'))"
proof -
  obtain C where "election_inv N C w" using election_inv_reachable [OF assms(1)] ..
  then have m: "me (nodes w n) \<in> peer_ids N" "peers (nodes w n) = N"
    using assms(2) by (auto simp: election_inv_def node_inv_def Let_def)
  have o: "ordered (nodes w n)" and s: "shaped N (nodes w n)"
    using ord.holds [OF assms(1)] shp.holds [OF assms(1)] assms(2) by blast+
  have b: "next_ok (nodes w n)" "\<And>x. x \<in># calls w \<Longrightarrow> rpc_bound N (nodes w) x"
    using bounds_inv_reachable [OF assms(1)] assms(2) by (auto simp: bounds_inv_def)
  have t: "t \<in> peer_ids N" if "AppendReturn n t aa ar \<in># calls w \<or> SnapshotReturn n t sa sr \<in># calls w"
    for t aa ar sa sr using that b(2) by fastforce
  have "\<exists>gs. ticker_leader (nodes w n) = Some gs" if "serverState (nodes w n) = leader"
    using replicateAll_total [OF o, of "[0..<peers (nodes w n)]"] b(1) s m that
    by (auto simp: ticker_leader_def next_ok_def shaped_def)
  moreover have "\<exists>x. AppendEntries e (nodes w n) a = Some x"
    using AppendEntries_total [of e "nodes w n" a] by blast
  ultimately show ?thesis
    using Start_total [OF s m(1) o b(1)] handleVoteReply_total [OF s m(1)]
      processAppendEntriesReply_total [OF s] sendInstallSnapshot_reply_total [OF s] t by blast
qed

theorem protocol_sections_return_witness:
  "\<exists>gs. ticker_leader (nodes w6 0) = Some gs"
  using protocol_sections_return [OF reachable_w6, of 0] w6_eval by simp

text \<open>
  The order of the indices. In every reachable cluster every peer has
  0 \<open>\<le>\<close> \<^verbatim>\<open>lastIncludedIndex\<close> \<open>\<le>\<close> \<^verbatim>\<open>lastApplied\<close> \<open>\<le>\<close> \<^verbatim>\<open>commitIndex\<close>: it never applies what it has not
  committed and never throws away what it has not applied.
\<close>

lemma index_order:
  assumes "reachable N w" and "n \<in> peer_ids N"
  shows "0 \<le> lastIncludedIndex (nodes w n) \<and> lastIncludedIndex (nodes w n) \<le> lastApplied (nodes w n) \<and>
    lastApplied (nodes w n) \<le> commitIndex (nodes w n)"
  using ord.holds [OF assms(1)] assms(2) unfolding ordered_def by blast

lemma grows_step:
  assumes "reachable N w" "cluster_step N w w'" "n \<in> peer_ids N"
  shows "grows (nodes w n) (nodes w' n)"
proof -
  obtain C where e: "election_inv N C w" using election_inv_reachable [OF assms(1)] ..
  have put: "grows (nodes w n) (nodes w' n)" if "w' = put x rf' cs w" "grows (nodes w x) rf'" for x rf' cs
    using that by simp
  show ?thesis
    using assms(2)
  proof cases
    case (restart x)
    have "durable (nodes w x)" "peers (nodes w x) = N" "me (nodes w x) = x"
      using e restart(2) by (auto simp: election_inv_def node_inv_def Let_def)
    then show ?thesis using put [OF restart(1)] grows_Make [of "nodes w x"] by simp
  next
    case (lose m)
    then show ?thesis by simp
  qed (metis put grows_refl grows_AppendEntries grows_InstallSnapshot grows_Snapshot(1) grows_Start
      grows_RequestVote grows_doElection grows_handleVoteReply grows_others)+
qed

text \<open>
  Terms never go back. Along every run of a cluster the term of each peer only grows, across
  crashes too.
\<close>

lemma terms_never_decrease:
  assumes "reachable N w" and "(cluster_step N)\<^sup>*\<^sup>* w w'" and "n \<in> peer_ids N"
  shows "currentTerm (nodes w n) \<le> currentTerm (nodes w' n)"
  using assms(2)
proof induction
  case (step u v)
  have "reachable N u" by (rule cluster_steps_reachable [OF step.hyps(1) assms(1)])
  from grows_step [OF this step.hyps(2) assms(3)] step.IH show ?case by (simp add: grows_def)
qed simp

end
