(* ===== verification/Raft_Apply_Panic.thy ===== *)
theory Raft_Apply_Panic
  imports Raft_Loss Raft_Panic
begin

text \<open>
  When the apply routine of a peer indexes its log out of range. \<^verbatim>\<open>BackgroundApplyRoutine\<close> takes the
  entry after \<^verbatim>\<open>lastApplied\<close> from the log without looking whether the log reaches so far; every
  section keeps the commit index inside the log but \<^verbatim>\<open>InstallSnapshot\<close>, which keeps \<^verbatim>\<open>lastApplied\<close> and
  \<^verbatim>\<open>commitIndex\<close> when they are ahead of the snapshot and discards the whole log. So the routine panics
  only after a snapshot behind the commit index was installed, and a run shows that it does.
\<close>

subsection \<open>The committed entries are in the log\<close>

definition covered :: "('c, 'b) Raft \<Rightarrow> bool" where
  "covered rf \<longleftrightarrow> commitIndex rf \<le> lastLogIndex rf"

text \<open>The requests after which the log is empty and the commit index ahead of the snapshot.\<close>

definition installs_behind :: "('c, 'b) Raft \<Rightarrow> 'b InstallSnapshotArgs \<Rightarrow> bool" where
  "installs_behind rf a \<longleftrightarrow> currentTerm rf \<le> is_Term a \<and>
     lastIncludedIndex rf < is_LastIncludedIndex a \<and> is_LastIncludedIndex a < commitIndex rf"

lemma covered_simps [simp]:
  "covered (persist rf) = covered rf" "covered (resetDeadline e rf) = covered rf"
  "covered (adoptTerm t rf) = covered rf" "covered (stepDown e t rf) = covered rf"
  "covered (rf\<lparr>nextIndex := ni\<rparr>) = covered rf" "covered (rf\<lparr>matchIndex := mi\<rparr>) = covered rf"
  "covered (rf\<lparr>persister := ps\<rparr>) = covered rf" "covered (rf\<lparr>lastApplied := la\<rparr>) = covered rf"
  "covered (rf\<lparr>votesReceived := v\<rparr>) = covered rf" "covered (rf\<lparr>serverState := ss\<rparr>) = covered rf"
  by (simp_all add: covered_def lastLogIndex_def)

lemma advanceCommit_from_covered:
  "advanceCommit_from rf n = Some rf' \<Longrightarrow> n \<le> lastLogIndex rf \<Longrightarrow> covered rf \<Longrightarrow> covered rf'"
proof (induction rf n rule: advanceCommit_from.induct)
  case (1 rf n)
  then show ?case
    by (subst (asm) (3) advanceCommit_from.simps)
       (auto simp: covered_def split: if_splits bind_splits)
qed

lemma covered_advanceCommit: "advanceCommit rf = Some rf' \<Longrightarrow> covered rf \<Longrightarrow> covered rf'"
  unfolding advanceCommit_def by (erule advanceCommit_from_covered) auto

lemma covered_AppendEntries:
  assumes "covered rf" "AppendEntries e rf a = Some (rf', r)"
  shows "covered rf'"
  using assms(2)
proof (cases rule: AppendEntries_cases)
  case (accepted rf1)
  then show ?thesis using acceptEntries_fields(13) [OF accepted(3,4,7)] by (simp add: covered_def)
qed (use assms(1) in simp_all)

lemma covered_Make: "covered (fst (Make n i ps))"
  by (simp add: covered_def Make_def Let_def lastLogIndex_def)

interpretation cov: guarded_invariant N "covered :: ('c, 'b) Raft \<Rightarrow> bool"
  "\<lambda>rf isa. \<not> installs_behind rf isa" for N
proof
  fix rf rf' :: "('c, 'b) Raft" and e c res gs T ok p i ents aer isa isr d s nil msg b ms rva rvr aea n
  show "covered (fst (Make N n (MakePersister nil)) :: ('c, 'b) Raft)" by (rule covered_Make)
  show "covered (fst (Make N (me rf) (persister rf)))" by (rule covered_Make)
  show "covered (Kill rf)" if "covered rf" using that by (simp add: Kill_def covered_def lastLogIndex_def)
  assume o: "covered rf"
  show "covered rf'" if "tickFollower e rf = (rf', b)"
    using o that by (auto simp: tickFollower_def split: option.splits)
  show "covered rf'" if "doElection e rf = (rf', ms)"
    using o that by (auto simp: doElection_def Let_def covered_def lastLogIndex_def
        split: option.splits if_splits)
  show "covered rf'" if "RequestVote e rf rva = (rf', rvr)"
    using o that by (auto simp: RequestVote_def Let_def covered_def lastLogIndex_def split: if_splits)
  show "covered rf'" if "handleVoteReply e rf T ok = Some rf'"
    using o that by (auto simp: handleVoteReply_def Let_def split: if_splits option.splits
        dest!: initLeaderIndex_arrays)
  show "covered rf'" if "Start rf c = Some (rf', res, gs)"
    using o that by (auto simp: Start_def Let_def covered_def lastLogIndex_def
        split: if_splits bind_splits)
  show "covered rf'" if "AppendEntries e rf aea = Some (rf', aer)"
    using covered_AppendEntries [OF o that] .
  show "covered rf'" if "processAppendEntriesReply e rf p T i ents aer = Some rf'"
    using o that by (auto simp: processAppendEntriesReply_def Let_def split: if_splits bind_splits
        dest!: covered_advanceCommit)
  show "covered rf'" if "\<not> installs_behind rf isa" "InstallSnapshot rf isa = (rf', isr, d)"
    using o that by (auto simp: InstallSnapshot_def Let_def covered_def installs_behind_def
        lastLogIndex_def split: if_splits)
  show "covered rf'" if "sendInstallSnapshot_reply e rf p isa isr = Some rf'"
    using o that by (auto simp: sendInstallSnapshot_reply_def Let_def split: if_splits bind_splits
        dest!: covered_advanceCommit)
  show "covered rf'" if "Snapshot rf i s = Some rf'"
    using o that grows_Snapshot(2) [OF that]
    by (auto simp: Snapshot_def Let_def covered_def split: if_splits bind_splits)
  show "covered rf'" if "BackgroundApply nil rf = Some (Applied rf' msg)"
    using o that by (auto simp: BackgroundApply_def Let_def split: if_splits bind_splits)
qed

lemma BackgroundApply_returns:
  assumes "ordered rf" "covered rf"
  shows "BackgroundApply nil rf \<noteq> None"
proof (cases "dead rf \<or> commitIndex rf \<le> lastApplied rf")
  case True
  then show ?thesis by (auto simp: BackgroundApply_def killed_def)
next
  case False
  then show ?thesis
    using BackgroundApply_next [of rf nil] assms by (simp add: ordered_def covered_def)
qed

subsection \<open>A run that panics\<close>

text \<open>
  Peer 0 leads term 1 and commits command 41 with peer 2. Commands 42 and 43 are sent to peer 1 in one
  request with 41. Before it arrives, peer 0 compacts its log at index 1 and sends peer 1 the
  snapshot, which is delayed. Peer 1 gets the three entries, learns that they are committed and applies
  two of them; then the snapshot arrives and empties its log. Peer 1 is elected in term 2 by peer 2,
  which has only command 41, and accepts a command: its log is no longer empty, and the apply routine
  asks it for index 3.
\<close>

definition sent :: "nat \<Rightarrow> nat LogEntry" where
  "sent c = \<lparr>Term = 1, Index = 0, Command = c\<rparr>"

definition append_from :: "int \<Rightarrow> int \<Rightarrow> nat list \<Rightarrow> int \<Rightarrow> nat AppendEntriesArgs" where
  "append_from i t cs c = \<lparr>ae_Term = 1, PrevLogIndex = i, PrevLogTerm = t,
     Entries = map sent cs, LeaderCommit = c\<rparr>"

definition snapshot_at :: "int \<Rightarrow> unit InstallSnapshotArgs" where
  "snapshot_at i = \<lparr>is_Term = 1, LeaderId = 0, is_LastIncludedIndex = i, is_LastIncludedTerm = 1, Data = ()\<rparr>"

definition vote2 :: RequestVoteArgs where
  "vote2 = \<lparr>rv_Term = 2, CandidateId = 1, LastLogIndex = 1, LastLogTerm = 1\<rparr>"

definition script_lag :: "nat action list" where
  "script_lag =
     [Tick 0 t0, Elect 0 t1, VoteRequest 0 1 vote0 t1, VoteReply 0 1 vote0 grant0 t1,
      Submit 0 41, AppendRequest 0 2 (append_from 0 0 [41] 0) t1,
      AppendReply 0 2 (append_from 0 0 [41] 0) (accepted 1) t1,
      Submit 0 42, Submit 0 43, ApplyNext 0, Compact 0 1, Heartbeat 0, SendSnapshot 0 1]"

definition script_overtake :: "nat action list" where
  "script_overtake =
     [AppendRequest 0 1 (append_from 0 0 [41, 42, 43] 1) t1,
      AppendReply 0 1 (append_from 0 0 [41, 42, 43] 1) (accepted 1) t1, Heartbeat 0,
      AppendRequest 0 1 (append_from 3 1 [] 3) t1, ApplyNext 1, ApplyNext 1,
      SnapshotRequest 0 1 (snapshot_at 1)]"

definition script_lead :: "nat action list" where
  "script_lead =
     [Elect 1 t2, VoteRequest 1 2 vote2 t2,
      VoteReply 1 2 vote2 \<lparr>rvr_Term = 2, VoteGranted = True\<rparr> t2, Submit 1 44]"

definition panic_run :: "bool option" where
  "panic_run =
     do { w \<leftarrow> acts 3 (script_lag @ script_overtake @ script_lead) (init_cluster 3 ());
          Some (dead (nodes w 1) \<or> BackgroundApply () (nodes w 1) \<noteq> None) }"

lemma panic_run_eval: "panic_run = Some False"
  by code_simp

lemma panic_run_reached:
  obtains w :: "(nat, unit) cluster" where "reachable 3 w" "\<not> dead (nodes w 1)"
    "BackgroundApply () (nodes w 1) = None"
proof -
  obtain w where w: "acts 3 (script_lag @ script_overtake @ script_lead) (init_cluster 3 ()) = Some w"
    "\<not> dead (nodes w 1)" "BackgroundApply () (nodes w 1) = None"
    using panic_run_eval by (auto simp: panic_run_def split: bind_splits)
  show ?thesis by (rule that [OF cluster_steps_reachable [OF acts_steps [OF w(1)] reachable.init] w(2,3)])
qed

text \<open>
  C14. The apply routine can panic. A cluster of three reaches a state in which a live peer's
  \<^verbatim>\<open>BackgroundApplyRoutine\<close> indexes its log out of range.
\<close>

theorem apply_routine_panics:
  "\<exists>w :: (nat, unit) cluster. reachable 3 w \<and> \<not> dead (nodes w 1) \<and> BackgroundApply () (nodes w 1) = None"
  using panic_run_reached by blast

text \<open>
  C12. The one cause of a panic in the apply routine. When the routine of a peer panics in a reachable
  cluster, then at some step of the run the peer has executed an \<^verbatim>\<open>InstallSnapshot\<close> of a leader not
  behind its term whose index was above its own snapshot and below its commit index. Without such a
  delivery, in particular in a cluster that takes no snapshots, the routine never panics.
\<close>

theorem apply_panic_cause:
  assumes "reachable N w" and "n \<in> peer_ids N" and "BackgroundApply nil (nodes w n) = None"
  shows "\<exists>u u' f a r d. reachable N u \<and> cluster_step N u u' \<and> (cluster_step N)\<^sup>*\<^sup>* u' w \<and>
    SnapshotCall f n a \<in># calls u \<and> InstallSnapshot (nodes u n) a = (nodes u' n, r, d) \<and>
    currentTerm (nodes u n) \<le> is_Term a \<and> lastIncludedIndex (nodes u n) < is_LastIncludedIndex a \<and>
    is_LastIncludedIndex a < commitIndex (nodes u n)"
proof -
  have "ordered (nodes w n)" using ord.holds [OF assms(1)] assms(2) by blast
  then have "\<not> covered (nodes w n)" using BackgroundApply_returns [of "nodes w n" nil] assms(3) by auto
  then show ?thesis
    using cov.broken [OF assms(1,2)] unfolding breaks_def not_not installs_behind_def by blast
qed

theorem apply_panic_cause_witness:
  "\<exists>(u :: (nat, unit) cluster) f a. reachable 3 u \<and> SnapshotCall f 1 a \<in># calls u \<and>
     is_LastIncludedIndex a < commitIndex (nodes u 1)"
proof -
  obtain w :: "(nat, unit) cluster" where w: "reachable 3 w" "BackgroundApply () (nodes w 1) = None"
    using panic_run_reached by blast
  show ?thesis using apply_panic_cause [OF w(1) _ w(2)] by (fastforce simp: atLeastLessThan_iff)
qed

end
