(* ===== verification/Raft_Progress.thy ===== *)
theory Raft_Progress
  imports Raft_Panic
begin

text \<open>
  Elections can succeed. Whatever has happened to a cluster of two or more, a peer whose log ends at the
  latest position can restart, let its timer fire until its term is ahead of all others, and collect the
  votes of a majority; nobody's log changes on the way.
\<close>

definition same_logs :: "('c, 'b) cluster \<Rightarrow> ('c, 'b) cluster \<Rightarrow> bool" where
  "same_logs w w' \<longleftrightarrow> (\<forall>p. log (nodes w' p) = log (nodes w p) \<and>
     lastIncludedIndex (nodes w' p) = lastIncludedIndex (nodes w p) \<and>
     lastIncludedTerm (nodes w' p) = lastIncludedTerm (nodes w p))"

lemma same_logs_refl [simp]: "same_logs w w"
  by (simp add: same_logs_def)

lemma same_logs_trans [trans]: "same_logs u v \<Longrightarrow> same_logs v w \<Longrightarrow> same_logs u w"
  by (simp add: same_logs_def)

lemma same_logs_put:
  "log rf = log (nodes w n) \<Longrightarrow> lastIncludedIndex rf = lastIncludedIndex (nodes w n) \<Longrightarrow>
   lastIncludedTerm rf = lastIncludedTerm (nodes w n) \<Longrightarrow> same_logs w (put n rf cs w)"
  by (simp add: same_logs_def)

lemma same_logs_last:
  assumes "same_logs w w'"
  shows "lastLogIndex (nodes w' p) = lastLogIndex (nodes w p)" "lastLogTerm (nodes w' p) = lastLogTerm (nodes w p)"
  using assms by (simp_all add: same_logs_def lastLogIndex_def lastLogTerm_def)

text \<open>A peer of a reachable cluster knows who it is.\<close>

lemma peer_identity:
  assumes "reachable N w" "n \<in> peer_ids N"
  shows "me (nodes w n) = n" "peers (nodes w n) = N" "durable (nodes w n)"
proof -
  obtain C where "election_inv N C w" using election_inv_reachable [OF assms(1)] ..
  then show "me (nodes w n) = n" "peers (nodes w n) = N" "durable (nodes w n)"
    using assms(2) by (auto simp: election_inv_def node_inv_def Let_def)
qed

subsection \<open>Collecting votes\<close>

definition up_to_date :: "RequestVoteArgs \<Rightarrow> ('c, 'b) Raft \<Rightarrow> bool" where
  "up_to_date a rf \<longleftrightarrow> last_pos rf \<le> LogPos (LastLogTerm a) (LastLogIndex a)"

text \<open>
  Candidate \<open>c\<close> has the votes of the peers \<open>D\<close>; its request is on the way to the others, whose terms are
  older and whose logs do not end later.
\<close>

definition campaign :: "nat \<Rightarrow> int \<Rightarrow> RequestVoteArgs \<Rightarrow> int set \<Rightarrow> ('c, 'b) cluster \<Rightarrow> bool" where
  "campaign N c a D w \<longleftrightarrow> c \<in> peer_ids N \<and> D \<subseteq> peer_ids N - {c} \<and> CandidateId a = c \<and>
     serverState (nodes w c) = candidate \<and> currentTerm (nodes w c) = rv_Term a \<and>
     votesReceived (nodes w c) = 1 + int (card D) \<and>
     (\<forall>p \<in> peer_ids N - {c} - D. VoteCall c p a \<in># calls w \<and>
        currentTerm (nodes w p) < rv_Term a \<and> up_to_date a (nodes w p))"

lemma vote_granted:
  assumes "currentTerm rf < rv_Term a" "up_to_date a rf"
  shows "\<exists>rf'. RequestVote e rf a = (rf', \<lparr>rvr_Term = rv_Term a, VoteGranted = True\<rparr>) \<and>
    log rf' = log rf \<and> lastIncludedIndex rf' = lastIncludedIndex rf \<and> lastIncludedTerm rf' = lastIncludedTerm rf"
  using assms by (auto simp: RequestVote_def Let_def up_to_date_def last_pos_def less_eq_logpos_def
      lastLogTerm_def lastLogIndex_def)

lemma vote_counted:
  assumes "shaped N rf" "me rf \<in> peer_ids N" "serverState rf = candidate"
  shows "\<exists>rf'. handleVoteReply e rf (currentTerm rf) (Some \<lparr>rvr_Term = currentTerm rf, VoteGranted = True\<rparr>) = Some rf' \<and>
    log rf' = log rf \<and> lastIncludedIndex rf' = lastIncludedIndex rf \<and> lastIncludedTerm rf' = lastIncludedTerm rf \<and>
    currentTerm rf' = currentTerm rf \<and>
    (if votesReceived rf + 1 > int (N div 2) then serverState rf' = leader
     else serverState rf' = candidate \<and> votesReceived rf' = votesReceived rf + 1)"
proof -
  let ?rf = "rf\<lparr>votesReceived := votesReceived rf + 1, serverState := leader\<rparr>"
  have "shaped N ?rf" "me ?rf \<in> peer_ids N" using assms(1,2) by simp_all
  from initLeaderIndex_total [OF this] obtain rf1 where i: "initLeaderIndex ?rf = Some rf1" ..
  have "peers rf = N" using assms(1) by (simp add: shaped_def)
  then show ?thesis
    using assms(3) i initLeaderIndex_arrays [OF i] by (auto simp: handleVoteReply_def Let_def)
qed

lemma campaign_vote:
  assumes "reachable N w" "campaign N c a D w" "p \<in> peer_ids N - {c} - D"
  shows "\<exists>w'. (cluster_step N)\<^sup>*\<^sup>* w w' \<and> same_logs w w' \<and> currentTerm (nodes w' c) = rv_Term a \<and>
    (if 2 + card D > N div 2 then serverState (nodes w' c) = leader else campaign N c a (insert p D) w')"
proof -
  let ?r = "\<lparr>rvr_Term = rv_Term a, VoteGranted = True\<rparr>" and ?e = "\<lparr>now = 0, rnd = 0\<rparr>"
  have c: "c \<in> peer_ids N" "serverState (nodes w c) = candidate" "currentTerm (nodes w c) = rv_Term a"
    "votesReceived (nodes w c) = 1 + int (card D)" "D \<subseteq> peer_ids N - {c}"
    and p: "VoteCall c p a \<in># calls w" "currentTerm (nodes w p) < rv_Term a" "up_to_date a (nodes w p)"
    using assms(2,3) by (auto simp: campaign_def)
  have pc: "p \<noteq> c" using assms(3) by auto
  obtain rp where rp: "RequestVote ?e (nodes w p) a = (rp, ?r)" "log rp = log (nodes w p)"
    "lastIncludedIndex rp = lastIncludedIndex (nodes w p)" "lastIncludedTerm rp = lastIncludedTerm (nodes w p)"
    using vote_granted [OF p(2,3)] by blast
  define w1 where "w1 = put p rp (calls w - {#VoteCall c p a#} + {#VoteReturn c p a ?r#}) w"
  have s1: "cluster_step N w w1" unfolding w1_def by (rule cluster_step.vote_request [OF p(1) rp(1)])
  have n1: "nodes w1 c = nodes w c" using pc by (simp add: w1_def)
  have "shaped N (nodes w c)" using shp.holds [OF assms(1)] c(1) by blast
  moreover have "me (nodes w c) \<in> peer_ids N" using peer_identity(1) [OF assms(1) c(1)] c(1) by simp
  ultimately obtain rc where rc: "handleVoteReply ?e (nodes w c) (rv_Term a) (Some ?r) = Some rc"
    "log rc = log (nodes w c)" "lastIncludedIndex rc = lastIncludedIndex (nodes w c)"
    "lastIncludedTerm rc = lastIncludedTerm (nodes w c)" "currentTerm rc = rv_Term a"
    "if 2 + int (card D) > int (N div 2) then serverState rc = leader
     else serverState rc = candidate \<and> votesReceived rc = 2 + int (card D)"
    using vote_counted [of N "nodes w c" ?e] c(2-4) by auto
  define w2 where "w2 = put c rc (calls w1 - {#VoteReturn c p a ?r#}) w1"
  have s2: "cluster_step N w1 w2"
    unfolding w2_def by (rule cluster_step.vote_reply [where e = ?e]) (simp add: w1_def, simp add: n1 rc(1))
  have "same_logs w w1" unfolding w1_def by (rule same_logs_put [OF rp(2-4)])
  moreover have "same_logs w1 w2" unfolding w2_def using rc(2-4) by (intro same_logs_put) (simp_all add: n1)
  ultimately have l: "same_logs w w2" by (rule same_logs_trans)
  have "campaign N c a (insert p D) w2" if "\<not> 2 + card D > N div 2"
  proof -
    have "finite D" using c(5) by (rule finite_subset) simp
    then have "card (insert p D) = card D + 1" using assms(3) by simp
    moreover have "VoteCall c q a \<in># calls w2" if "q \<noteq> p" "VoteCall c q a \<in># calls w" for q
      using that by (simp add: w2_def w1_def in_diff_count)
    moreover have "nodes w2 q = nodes w q" if "q \<noteq> p" "q \<noteq> c" for q using that by (simp add: w2_def w1_def)
    moreover have "nodes w2 c = rc" by (simp add: w2_def)
    ultimately show ?thesis
      using assms(2,3) rc(5,6) that by (simp add: campaign_def)
  qed
  then have "if 2 + card D > N div 2 then serverState (nodes w2 c) = leader else campaign N c a (insert p D) w2"
    using rc(6) by (auto simp: w2_def split: if_splits)
  moreover have "(cluster_step N)\<^sup>*\<^sup>* w w2" using s1 s2 by (meson converse_rtranclp_into_rtranclp rtranclp.rtrancl_refl)
  moreover have "currentTerm (nodes w2 c) = rv_Term a" using rc(5) by (simp add: w2_def)
  ultimately show ?thesis using l by blast
qed

lemma campaign_wins:
  assumes "2 \<le> N" "reachable N w" "campaign N c a D w" "card D + 1 \<le> N div 2"
  shows "\<exists>w'. (cluster_step N)\<^sup>*\<^sup>* w w' \<and> same_logs w w' \<and> serverState (nodes w' c) = leader \<and>
    currentTerm (nodes w' c) = rv_Term a"
  using assms(2-4)
proof (induction "N div 2 - card D" arbitrary: w D rule: less_induct)
  case less
  have c: "c \<in> peer_ids N" "D \<subseteq> peer_ids N - {c}" using less.prems(2) by (auto simp: campaign_def)
  have "card (peer_ids N - {c}) = N - 1" using c(1) by (simp add: card_Diff_singleton)
  moreover have "card D < N - 1" using less.prems(3) assms(1) by linarith
  ultimately have "D \<noteq> peer_ids N - {c}" by auto
  then obtain p where p: "p \<in> peer_ids N - {c} - D" using c(2) by blast
  obtain w1 where w1: "(cluster_step N)\<^sup>*\<^sup>* w w1" "same_logs w w1" "currentTerm (nodes w1 c) = rv_Term a"
    "if 2 + card D > N div 2 then serverState (nodes w1 c) = leader else campaign N c a (insert p D) w1"
    using campaign_vote [OF less.prems(1,2) p] by blast
  show ?case
  proof (cases "2 + card D > N div 2")
    case False
    have fin: "finite D" using c(2) by (rule finite_subset) simp
    have k: "card (insert p D) = card D + 1" using fin p by simp
    have "\<exists>w'. (cluster_step N)\<^sup>*\<^sup>* w1 w' \<and> same_logs w1 w' \<and> serverState (nodes w' c) = leader \<and>
        currentTerm (nodes w' c) = rv_Term a"
      by (rule less.hyps [of "insert p D"])
         (use False w1(4) k less.prems(3) cluster_steps_reachable [OF w1(1) less.prems(1)] in auto)
    then show ?thesis using w1(1,2) same_logs_trans by (meson rtranclp_trans)
  qed (use w1 in auto)
qed

subsection \<open>Getting ahead\<close>

text \<open>The candidate alone takes steps, and ends up in a later term with its timer set.\<close>

definition alone :: "int \<Rightarrow> ('c, 'b) cluster \<Rightarrow> ('c, 'b) cluster \<Rightarrow> bool" where
  "alone c w w' \<longleftrightarrow> same_logs w w' \<and> (\<forall>p. p \<noteq> c \<longrightarrow> nodes w' p = nodes w p) \<and>
     serverState (nodes w' c) \<noteq> leader \<and> electionDeadline (nodes w' c) \<noteq> None"

lemma doElection_starts:
  assumes "serverState rf \<noteq> leader" "electionDeadline rf = Some d" "d < now e"
  shows "doElection e rf =
    (resetDeadline e (persist (rf\<lparr>currentTerm := currentTerm rf + 1, serverState := candidate,
       votedFor := me rf, votesReceived := 1\<rparr>)),
     map (\<lambda>i. (int i, \<lparr>rv_Term = currentTerm rf + 1, CandidateId = me rf, LastLogIndex = lastLogIndex rf,
       LastLogTerm = lastLogTerm rf\<rparr>)) (filter (\<lambda>i. int i \<noteq> me rf) [0..<peers rf]))"
  using assms by (simp add: doElection_def Let_def lastLogIndex_def lastLogTerm_def)

lemma restarted:
  assumes "reachable N w" "c \<in> peer_ids N"
  shows "\<exists>w'. (cluster_step N)\<^sup>*\<^sup>* w w' \<and> alone c w w' \<and> currentTerm (nodes w' c) = currentTerm (nodes w c)"
proof -
  note id = peer_identity [OF assms]
  define rf where "rf = fst (Make N c (persister (nodes w c)))"
  have "persistent rf = persistent (nodes w c)"
    using id(3) unfolding durable_def rf_def id(1,2) .
  then have k: "log rf = log (nodes w c)" "lastIncludedIndex rf = lastIncludedIndex (nodes w c)"
    "lastIncludedTerm rf = lastIncludedTerm (nodes w c)" "currentTerm rf = currentTerm (nodes w c)"
    by (simp_all add: persistent_def)
  have f: "serverState rf = follower" "electionDeadline rf = None"
    by (simp_all add: rf_def Make_def readPersist_def Let_def split: option.splits)
  define e :: env where "e = \<lparr>now = 0, rnd = 0\<rparr>"
  define w1 where "w1 = put c rf (calls w) w"
  define w2 where "w2 = put c (resetDeadline e rf) (calls w1) w1"
  have s1: "cluster_step N w w1" unfolding w1_def rf_def by (rule cluster_step.restart [OF assms(2)])
  have "doElection e (nodes w1 c) = (resetDeadline e rf, [])" using f by (simp add: doElection_def w1_def)
  from cluster_step.election [OF assms(2) this] have s2: "cluster_step N w1 w2" by (simp add: w2_def)
  have "alone c w w2" "currentTerm (nodes w2 c) = currentTerm (nodes w c)"
    using k f by (simp_all add: alone_def same_logs_def w2_def w1_def resetDeadline_def)
  moreover have "(cluster_step N)\<^sup>*\<^sup>* w w2" using s1 s2 by (meson converse_rtranclp_into_rtranclp rtranclp.rtrancl_refl)
  ultimately show ?thesis by blast
qed

lemma terms_raised:
  assumes "reachable N w" "c \<in> peer_ids N"
  shows "\<exists>w'. (cluster_step N)\<^sup>*\<^sup>* w w' \<and> alone c w w' \<and> currentTerm (nodes w' c) = currentTerm (nodes w c) + int k"
proof (induction k)
  case 0
  then show ?case using restarted [OF assms] by simp
next
  case (Suc k)
  then obtain w1 where w1: "(cluster_step N)\<^sup>*\<^sup>* w w1" "alone c w w1"
    "currentTerm (nodes w1 c) = currentTerm (nodes w c) + int k" by blast
  then obtain d where d: "electionDeadline (nodes w1 c) = Some d" "serverState (nodes w1 c) \<noteq> leader"
    by (auto simp: alone_def)
  obtain rf ms where rf: "doElection \<lparr>now = d + 1, rnd = 0\<rparr> (nodes w1 c) = (rf, ms)"
    and k: "log rf = log (nodes w1 c)" "lastIncludedIndex rf = lastIncludedIndex (nodes w1 c)"
    "lastIncludedTerm rf = lastIncludedTerm (nodes w1 c)" "serverState rf = candidate"
    "electionDeadline rf \<noteq> None" "currentTerm rf = currentTerm (nodes w1 c) + 1"
    using doElection_starts [OF d(2,1), of "\<lparr>now = d + 1, rnd = 0\<rparr>"] by (simp add: resetDeadline_def)
  note s = cluster_step.election [OF assms(2) rf]
  let ?w = "put c rf (calls w1 + mset (map (\<lambda>(p, a). VoteCall c p a) ms)) w1"
  have "alone c w ?w" using w1(2) k by (auto simp: alone_def same_logs_def)
  moreover have "currentTerm (nodes ?w c) = currentTerm (nodes w c) + int (Suc k)" using w1(3) k(6) by simp
  ultimately show ?case using rtranclp.rtrancl_into_rtrancl [OF w1(1) s] by blast
qed

lemma campaign_starts:
  fixes w :: "('c, 'b) cluster"
  assumes "reachable N w" "c \<in> peer_ids N" "\<forall>p \<in> peer_ids N. last_pos (nodes w p) \<le> last_pos (nodes w c)"
  shows "\<exists>w' a. (cluster_step N)\<^sup>*\<^sup>* w w' \<and> same_logs w w' \<and> campaign N c a {} w' \<and>
    (\<forall>p \<in> peer_ids N. currentTerm (nodes w p) < rv_Term a)"
proof -
  obtain m where m: "currentTerm (nodes w p) \<le> m" if "p \<in> peer_ids N" for p
    using Max_ge [of "(\<lambda>p. currentTerm (nodes w p)) ` peer_ids N"] by (metis finite_atLeastLessThan_int finite_imageI imageI)
  obtain w1 where w1: "(cluster_step N)\<^sup>*\<^sup>* w w1" "alone c w w1"
    "currentTerm (nodes w1 c) = currentTerm (nodes w c) + int (nat (m - currentTerm (nodes w c)))"
    using terms_raised [OF assms(1,2)] by blast
  then obtain d where d: "electionDeadline (nodes w1 c) = Some d" "serverState (nodes w1 c) \<noteq> leader"
    and l: "same_logs w w1" and o: "\<And>p. p \<noteq> c \<Longrightarrow> nodes w1 p = nodes w p"
    by (auto simp: alone_def)
  have t: "m \<le> currentTerm (nodes w1 c)" using w1(3) m [OF assms(2)] by simp
  note id = peer_identity [OF cluster_steps_reachable [OF w1(1) assms(1)] assms(2)]
  let ?e = "\<lparr>now = d + 1, rnd = 0\<rparr>"
  let ?a = "\<lparr>rv_Term = currentTerm (nodes w1 c) + 1, CandidateId = c, LastLogIndex = lastLogIndex (nodes w1 c),
    LastLogTerm = lastLogTerm (nodes w1 c)\<rparr>"
  let ?ms = "map (\<lambda>i. (int i, ?a)) (filter (\<lambda>i. int i \<noteq> c) [0..<N])"
  obtain rf where rf: "doElection ?e (nodes w1 c) = (rf, ?ms)"
    "log rf = log (nodes w1 c)" "lastIncludedIndex rf = lastIncludedIndex (nodes w1 c)"
    "lastIncludedTerm rf = lastIncludedTerm (nodes w1 c)" "serverState rf = candidate"
    "currentTerm rf = currentTerm (nodes w1 c) + 1" "votesReceived rf = 1"
    using doElection_starts [OF d(2,1), of ?e] id(1,2) by simp
  define w2 where "w2 = put c rf (calls w1 + mset (map (\<lambda>(p, a). VoteCall c p a) ?ms)) w1"
  have s: "cluster_step N w1 w2" unfolding w2_def by (rule cluster_step.election [OF assms(2) rf(1)])
  have "campaign N c ?a {} w2"
  proof -
    have "VoteCall c p ?a \<in># calls w2 \<and> currentTerm (nodes w2 p) < rv_Term ?a \<and> up_to_date ?a (nodes w2 p)"
      if p: "p \<in> peer_ids N - {c}" for p
    proof -
      have "nat p \<in> set (filter (\<lambda>i. int i \<noteq> c) [0..<N])" using p by auto
      then have "(\<lambda>i. VoteCall c (int i) ?a :: ('c, 'b) rpc) (nat p) \<in>
          (\<lambda>i. VoteCall c (int i) ?a) ` set (filter (\<lambda>i. int i \<noteq> c) [0..<N])" by (rule imageI)
      then have "VoteCall c p ?a \<in># calls w2" using p by (simp add: w2_def image_image comp_def)
      moreover have "last_pos (nodes w p) \<le> last_pos (nodes w1 c)"
        using assms(3) p same_logs_last [OF l, of c] by (simp add: last_pos_def)
      moreover have "currentTerm (nodes w p) < rv_Term ?a" using m [of p] p t by simp
      ultimately show ?thesis using p o [of p] by (simp add: up_to_date_def last_pos_def w2_def)
    qed
    then show ?thesis using assms(2) rf(5-7) by (simp add: campaign_def w2_def)
  qed
  moreover have "same_logs w w2"
    using same_logs_trans [OF l] same_logs_put [of rf w1 c] rf(2-4) by (simp add: w2_def)
  moreover have "\<forall>p \<in> peer_ids N. currentTerm (nodes w p) < rv_Term ?a" using m t by fastforce
  ultimately show ?thesis using rtranclp.rtrancl_into_rtrancl [OF w1(1) s] by blast
qed

subsection \<open>A leader\<close>

text \<open>
  C3. A cluster can always elect a leader. From every reachable state of a cluster of at least two servers some
  run leads to a state with a leader of a term later than every term the servers had, and no server's
  log or snapshot position has changed: no sequence of votes, crashes, lost calls and stale leaders
  locks the elections up.
\<close>

theorem leader_can_be_elected:
  assumes "2 \<le> N" and "reachable N w"
  shows "\<exists>w' c. (cluster_step N)\<^sup>*\<^sup>* w w' \<and> c \<in> peer_ids N \<and> serverState (nodes w' c) = leader \<and>
    (\<forall>p \<in> peer_ids N. currentTerm (nodes w p) < currentTerm (nodes w' c)) \<and>
    (\<forall>p. log (nodes w' p) = log (nodes w p) \<and> lastIncludedIndex (nodes w' p) = lastIncludedIndex (nodes w p))"
proof -
  let ?P = "(\<lambda>p. last_pos (nodes w p)) ` peer_ids N"
  have "finite ?P" "?P \<noteq> {}" using assms(1) by auto
  then have "Max ?P \<in> ?P" "\<forall>p \<in> peer_ids N. last_pos (nodes w p) \<le> Max ?P" by (rule Max_in, simp)
  then obtain c where c: "c \<in> peer_ids N" "\<forall>p \<in> peer_ids N. last_pos (nodes w p) \<le> last_pos (nodes w c)"
    by fastforce
  obtain w1 a where w1: "(cluster_step N)\<^sup>*\<^sup>* w w1" "same_logs w w1" "campaign N c a {} w1"
    "\<forall>p \<in> peer_ids N. currentTerm (nodes w p) < rv_Term a"
    using campaign_starts [OF assms(2) c] by blast
  obtain w2 where w2: "(cluster_step N)\<^sup>*\<^sup>* w1 w2" "same_logs w1 w2" "serverState (nodes w2 c) = leader"
    "currentTerm (nodes w2 c) = rv_Term a"
    using campaign_wins [OF assms(1) cluster_steps_reachable [OF w1(1) assms(2)] w1(3)] div_le_mono [OF assms(1), of 2]
    by auto
  have "same_logs w w2" using w1(2) w2(2) by (rule same_logs_trans)
  then show ?thesis
    using rtranclp_trans [OF w1(1) w2(1)] c(1) w2(3,4) w1(4) unfolding same_logs_def by metis
qed

theorem leader_can_be_elected_witness:
  "\<exists>(w :: (nat, unit) cluster) c. reachable 3 w \<and> serverState (nodes w c) = leader \<and> 1 < currentTerm (nodes w c)"
proof -
  obtain w' c where w: "(cluster_step 3)\<^sup>*\<^sup>* w6 w'" "serverState (nodes w' c) = leader"
    "\<forall>p \<in> peer_ids 3. currentTerm (nodes w6 p) < currentTerm (nodes w' c)"
    using leader_can_be_elected [OF _ reachable_w6] by auto
  have "currentTerm (nodes w6 0) < currentTerm (nodes w' c)" using w(3) by auto
  moreover have "currentTerm (nodes w6 0) = 1" by (simp add: w6_eval)
  ultimately show ?thesis using w(1,2) cluster_steps_reachable [OF w(1) reachable_w6] by auto
qed

end
