(* ===== verification/Raft_Stuck.thy ===== *)
theory Raft_Stuck
  imports Raft_Loss
begin

text \<open>
  Replication that does not get ahead. A follower refuses a request whose \<^verbatim>\<open>PrevLogIndex\<close> is below its
  snapshot without telling the leader where its log begins; the leader takes the empty hint for index 1.
  A leader that has not compacted its own log then sends the same request again, for ever.
\<close>

lemma lastWithTerm_none:
  assumes "\<forall>x \<in> set l. Term x \<noteq> xt" "i < length l \<or> i = 0"
  shows "lastWithTerm l xt d i = d"
  using assms by (induction i) auto

definition lagging :: "('c, 'b) Raft \<Rightarrow> int \<Rightarrow> ('c, 'b) Raft \<Rightarrow> bool" where
  "lagging l p f \<longleftrightarrow> serverState l = leader \<and> lastIncludedIndex l = 0 \<and> go_index (nextIndex l) p = Some 1 \<and>
     (\<forall>x \<in> set (log l). 0 < Term x) \<and>
     serverState f = follower \<and> currentTerm f = currentTerm l \<and> 0 < lastIncludedIndex f"

text \<open>
  C16. A follower that is never reached again. Let a leader with an uncompacted log have \<^verbatim>\<open>nextIndex\<close> 1 for a
  follower of its term that has compacted its log. Then the request the leader sends is refused, the
  refusal leaves the leader exactly as it was, and the follower too but for its election timer, which is
  set back, so that it does not call an election either. A reply that was lost before the follower
  compacted its log brings this about (the witness is such a run).
\<close>

theorem replication_stuck:
  assumes "lagging l p f"
  shows "\<exists>a r. replicateTo l p = Some (GoAppendEntries p a) \<and> AppendEntries e f a = Some (resetDeadline e f, r) \<and>
    \<not> Success r \<and>
    processAppendEntriesReply e' l p (ae_Term a) (PrevLogIndex a) (Entries a) r = Some l"
proof -
  have l: "serverState l = leader" "lastIncludedIndex l = 0" "go_index (nextIndex l) p = Some 1"
    "\<forall>x \<in> set (log l). Term x \<noteq> 0"
    and f: "serverState f = follower" "currentTerm f = currentTerm l" "0 < lastIncludedIndex f"
    using assms by (auto simp: lagging_def)
  let ?a = "\<lparr>ae_Term = currentTerm l, PrevLogIndex = 0, PrevLogTerm = lastIncludedTerm l, Entries = log l,
    LeaderCommit = commitIndex l\<rparr>"
  let ?r = "\<lparr>aer_Term = currentTerm l, Success = False, XTerm = 0, XIndex = 0, XLen = 0\<rparr>"
  have "replicateTo l p = Some (GoAppendEntries p ?a)"
    using l by (simp add: replicateTo_def Let_def go_slice_from_def)
  moreover have "adoptTerm (currentTerm l) f = f" using f(1,2) by (cases f) (simp add: adoptTerm_def)
  then have "AppendEntries e f ?a = Some (resetDeadline e f, ?r)"
    using f(2,3) by (simp add: AppendEntries_def Let_def lastLogIndex_def)
  moreover have "(nextIndex l)[nat p := 1] = nextIndex l"
    using l(3) by (metis go_index_eq_Some list_update_id)
  then have "processAppendEntriesReply e' l p (currentTerm l) 0 (log l) ?r = Some l"
    using l lastWithTerm_none [of "log l" 0 "length (log l) - 1" 0]
    by (cases "log l") (auto simp: processAppendEntriesReply_def Let_def go_set_def go_index_eq_Some)
  ultimately show ?thesis
    by (intro exI [of _ ?a] exI [of _ ?r]) simp
qed

subsection \<open>How it comes about\<close>

text \<open>
  Peer 0 leads term 1 and replicates command 42 to both peers; the reply of peer 1 is lost. A heartbeat
  tells peer 1 that the entry is committed, its reply is lost too, peer 1 applies the entry and its
  service takes a snapshot. Then peer 0 accepts command 43.
\<close>

definition append_42 :: "int \<Rightarrow> nat AppendEntriesArgs" where
  "append_42 c = append0\<lparr>LeaderCommit := c\<rparr>"

definition compacted_behind :: "nat action list" where
  "compacted_behind =
     [Tick 0 t0, Elect 0 t1, VoteRequest 0 1 vote0 t1, VoteReply 0 1 vote0 grant0 t1, Submit 0 42,
      AppendRequest 0 1 (append_42 0) t1, AppendRequest 0 2 (append_42 0) t1,
      AppendReply 0 2 (append_42 0) (accepted 1) t1, Heartbeat 0, AppendRequest 0 1 (append_42 1) t1,
      ApplyNext 1, Compact 1 1, Submit 0 43]"

lemma compacted_behind_eval:
  "map_option (\<lambda>w. (lagging (nodes w 0) 1 (nodes w 1), lastLogIndex (nodes w 0), lastLogIndex (nodes w 1)))
     (acts 3 compacted_behind (init_cluster 3 ())) = Some (True, 2, 1)"
  by code_simp

theorem replication_stuck_witness:
  "\<exists>(w :: (nat, unit) cluster) a r. reachable 3 w \<and> lastLogIndex (nodes w 1) < lastLogIndex (nodes w 0) \<and>
     replicateTo (nodes w 0) 1 = Some (GoAppendEntries 1 a) \<and>
     AppendEntries t1 (nodes w 1) a = Some (resetDeadline t1 (nodes w 1), r) \<and>
     processAppendEntriesReply t1 (nodes w 0) 1 (ae_Term a) (PrevLogIndex a) (Entries a) r = Some (nodes w 0)"
proof -
  obtain w where w: "acts 3 compacted_behind (init_cluster 3 ()) = Some w" "lagging (nodes w 0) 1 (nodes w 1)"
    "lastLogIndex (nodes w 0) = 2" "lastLogIndex (nodes w 1) = 1"
    using compacted_behind_eval by auto
  have "reachable 3 w" by (rule cluster_steps_reachable [OF acts_steps [OF w(1)] reachable.init])
  then show ?thesis using replication_stuck [OF w(2), of t1 t1] w(3,4) by auto
qed

end
