(* ===== verification/Raft_Ticker.thy ===== *)
theory Raft_Ticker
  imports Raft_Loss
begin

text \<open>
  The loop of \<^verbatim>\<open>ticker\<close>. An iteration looks at the peer three times, in the loop condition, to read
  its state and in the section of a leader or a follower; it holds the lock only within each of them,
  so what it sees is three states of the peer in the order of time. Intervals are in milliseconds.
\<close>

definition heartbeatInterval :: nat where "heartbeatInterval = 100"

definition electionPollInterval :: nat where "electionPollInterval = 10"

record ('c, 'b) glimpse =
  at_loop :: "('c, 'b) Raft"
  at_read :: "('c, 'b) Raft"
  at_section :: "('c, 'b) Raft"
  at_time :: env

text \<open>
  What an iteration leaves: the peer after its section, the goroutines it starts, whether the election
  timer has fired (the election has a section of its own), and how long it sleeps.
\<close>

record ('c, 'b) turn =
  turn_peer :: "('c, 'b) Raft"
  turn_calls :: "'c goroutine list"
  turn_timeout :: bool
  turn_sleep :: nat

definition ticker_turn :: "('c, 'b) glimpse \<Rightarrow> ('c, 'b) turn option" where
  "ticker_turn g =
     (if ticker_read (at_read g) = leader
      then map_option (\<lambda>gs. \<lparr>turn_peer = at_section g, turn_calls = gs, turn_timeout = False,
                             turn_sleep = heartbeatInterval\<rparr>) (ticker_leader (at_section g))
      else (case tickFollower (at_time g) (at_section g) of (rf, timedOut) \<Rightarrow>
              Some \<lparr>turn_peer = rf, turn_calls = [], turn_timeout = timedOut,
                    turn_sleep = electionPollInterval\<rparr>))"

text \<open>The loop over what its iterations see, up to the first that finds the peer killed; \<open>None\<close> is a panic.\<close>

fun ticker :: "('c, 'b) glimpse list \<Rightarrow> ('c, 'b) turn list option" where
  "ticker [] = Some []"
| "ticker (g # gs) =
     (if killed (at_loop g) then Some []
      else do { t \<leftarrow> ticker_turn g; ts \<leftarrow> ticker gs; Some (t # ts) })"

subsection \<open>Pacing\<close>

lemma ticker_turn_cases:
  assumes "ticker_turn g = Some t"
  obtains "serverState (at_read g) = leader" "turn_sleep t = heartbeatInterval" "turn_peer t = at_section g"
      "ticker_leader (at_section g) = Some (turn_calls t)" "\<not> turn_timeout t"
  | "serverState (at_read g) \<noteq> leader" "turn_sleep t = electionPollInterval" "turn_calls t = []"
      "tickFollower (at_time g) (at_section g) = (turn_peer t, turn_timeout t)"
  using assms by (auto simp: ticker_turn_def ticker_read_def split: if_splits prod.splits)

text \<open>
  Heartbeats are steady and polls short: an iteration that sends anything sleeps a tenth of a second, so at
  most ten rounds of heartbeats begin within any second slept, and every iteration sleeps.
\<close>

lemma ticker_pacing:
  assumes "ticker gs = Some ts"
  shows "100 * length (filter (\<lambda>t. turn_calls t \<noteq> []) ts) + 10 * length (filter (\<lambda>t. turn_calls t = []) ts)
    \<le> sum_list (map turn_sleep ts)"
  using assms
proof (induction gs arbitrary: ts)
  case (Cons g gs)
  show ?case
  proof (cases "killed (at_loop g)")
    case False
    then obtain t ts' where t: "ticker_turn g = Some t" "ticker gs = Some ts'" "ts = t # ts'"
      using Cons.prems by (auto split: bind_splits)
    from t(1) have "if turn_calls t = [] then 10 \<le> turn_sleep t else turn_sleep t = 100"
      by (cases rule: ticker_turn_cases) (auto simp: heartbeatInterval_def electionPollInterval_def)
    then show ?thesis using Cons.IH [OF t(2)] t(3) by (auto split: if_splits)
  qed (use Cons.prems in simp)
qed simp

text \<open>The loop ends with the peer: a killed peer's ticker starts no further iteration.\<close>

lemma ticker_killed: "killed (at_loop g) \<Longrightarrow> ticker (gs @ g # hs) = ticker gs"
  by (induction gs) simp_all

subsection \<open>A peer that lost its leadership between the reading and the sending\<close>

text \<open>
  Peer 0 leads term 1 and its ticker reads so. Before the ticker takes the lock again, peer 1 calls an
  election of term 2, peer 0 grants its vote and peer 1 becomes leader. The ticker goes on and sends
  heartbeats in the name of term 2.
\<close>

definition lead_0 :: "nat action list" where
  "lead_0 = [Tick 0 t0, Elect 0 t1, VoteRequest 0 1 vote0 t1, VoteReply 0 1 vote0 grant0 t1]"

definition lead_1 :: "nat action list" where
  "lead_1 = [Elect 1 t2, VoteRequest 1 0 vote1 t2, VoteReply 1 0 vote1 \<lparr>rvr_Term = 2, VoteGranted = True\<rparr> t2]"

definition stale_turn :: "(nat, unit) cluster \<Rightarrow> (nat, unit) cluster \<Rightarrow> (nat, unit) turn option" where
  "stale_turn w w' = ticker_turn \<lparr>at_loop = nodes w 0, at_read = nodes w 0, at_section = nodes w' 0, at_time = t2\<rparr>"

lemma stale_run_eval:
  "(do { w \<leftarrow> acts 3 lead_0 (init_cluster 3 ()); w' \<leftarrow> acts 3 lead_1 w; t \<leftarrow> stale_turn w w';
         Some (turn_calls t, dead (nodes w 0), serverState (nodes w' 1), currentTerm (nodes w' 1)) }) =
     Some ([GoAppendEntries 1 (heartbeat0\<lparr>ae_Term := 2\<rparr>), GoAppendEntries 2 (heartbeat0\<lparr>ae_Term := 2\<rparr>)],
       False, leader, 2)"
  by code_simp

text \<open>
  C15. Heartbeats of a term that another peer leads. A cluster of three has a run in which peer 1 is leader of a
  term and the ticker of peer 0, which read its state before, sends \<^verbatim>\<open>AppendEntries\<close> requests with that
  term to peer 1 itself and to the others. So a peer that gets a request of some term cannot conclude
  that it comes from the leader of the term.
\<close>

theorem stale_ticker_sends:
  "\<exists>(w :: (nat, unit) cluster) w' t a. reachable 3 w \<and> (cluster_step 3)\<^sup>*\<^sup>* w w' \<and> \<not> killed (nodes w 0) \<and>
     ticker_turn \<lparr>at_loop = nodes w 0, at_read = nodes w 0, at_section = nodes w' 0, at_time = t2\<rparr> = Some t \<and>
     GoAppendEntries 1 a \<in> set (turn_calls t) \<and> GoAppendEntries 2 a \<in> set (turn_calls t) \<and>
     serverState (nodes w' 1) = leader \<and> ae_Term a = currentTerm (nodes w' 1)"
proof -
  obtain w w' t where w: "acts 3 lead_0 (init_cluster 3 ()) = Some w" "acts 3 lead_1 w = Some w'"
    "stale_turn w w' = Some t" "\<not> dead (nodes w 0)" "serverState (nodes w' 1) = leader" "currentTerm (nodes w' 1) = 2"
    "turn_calls t = [GoAppendEntries 1 (heartbeat0\<lparr>ae_Term := 2\<rparr>), GoAppendEntries 2 (heartbeat0\<lparr>ae_Term := 2\<rparr>)]"
    using stale_run_eval by (auto split: bind_splits)
  have "reachable 3 w" by (rule cluster_steps_reachable [OF acts_steps [OF w(1)] reachable.init])
  then show ?thesis
    using acts_steps [OF w(2)] w(3-7)
    by (intro exI [of _ w] exI [of _ w'] exI [of _ t] exI [of _ "heartbeat0\<lparr>ae_Term := 2\<rparr>"])
       (simp add: stale_turn_def killed_def)
qed

subsection \<open>A peer that lost its leadership and its entries\<close>

text \<open>
  Peer 0 leads term 1 and has replicated an entry to peer 1, so that its \<^verbatim>\<open>nextIndex\<close> for peer 1 is 2; its
  ticker reads that it is leader. Then peer 1 loses the entry to a late heartbeat, is elected for term 2 and
  sends a heartbeat of its own, which empties the log of peer 0. The ticker of peer 0 goes on with the section
  of a leader and indexes an empty log: a leader's section that is run by a peer that is no longer leader can panic.
\<close>

definition depose_0 :: "nat action list" where
  "depose_0 =
     [AppendRequest 0 1 heartbeat0 t1, Elect 1 t2, VoteRequest 1 2 vote1 t2,
      VoteReply 1 2 vote1 \<lparr>rvr_Term = 2, VoteGranted = True\<rparr> t2, Heartbeat 1,
      AppendRequest 1 0 (heartbeat0\<lparr>ae_Term := 2\<rparr>) t2]"

lemma stale_panic_eval:
  "(do { w \<leftarrow> acts 3 commit_42 (init_cluster 3 ()); w' \<leftarrow> acts 3 depose_0 w;
         Some (serverState (nodes w 0), dead (nodes w 0), serverState (nodes w' 0), stale_turn w w' = None) }) =
     Some (leader, False, follower, True)"
  by code_simp

lemma stale_ticker_panics:
  "\<exists>(w :: (nat, unit) cluster) w'. reachable 3 w \<and> (cluster_step 3)\<^sup>*\<^sup>* w w' \<and> \<not> killed (nodes w 0) \<and>
     serverState (nodes w 0) = leader \<and> serverState (nodes w' 0) \<noteq> leader \<and>
     ticker_turn \<lparr>at_loop = nodes w 0, at_read = nodes w 0, at_section = nodes w' 0, at_time = t2\<rparr> = None"
proof -
  obtain w w' where w: "acts 3 commit_42 (init_cluster 3 ()) = Some w" "acts 3 depose_0 w = Some w'"
    "stale_turn w w' = None" "\<not> dead (nodes w 0)" "serverState (nodes w 0) = leader" "serverState (nodes w' 0) = follower"
    using stale_panic_eval by (auto split: bind_splits)
  have "reachable 3 w" by (rule cluster_steps_reachable [OF acts_steps [OF w(1)] reachable.init])
  then show ?thesis using acts_steps [OF w(2)] w(3-6)
    by (intro exI [of _ w] exI [of _ w']) (simp add: stale_turn_def killed_def)
qed

end
