(* ===== verification/Raft_Types.thy ===== *)
theory Raft_Types
  imports Raft_Invariants Raft_Sample
begin

text \<open>
  The type invariant of a peer: what its arrays and its persister may hold. The persister is a stream of
  encoded values, which decoding reads back without being told their types.
\<close>

definition typed_state :: "('c, 'b) Raft \<Rightarrow> bool" where
  "typed_state rf \<longleftrightarrow> raftstate (persister rf) = [] \<or>
     (\<exists>v t l i lt. raftstate (persister rf) = [GInt v, GInt t, GLog l, GInt i, GInt lt])"

lemma typed_state_cong: "raftstate (persister rf') = raftstate (persister rf) \<Longrightarrow> typed_state rf' = typed_state rf"
  by (simp add: typed_state_def)

lemma typed_persist [simp, intro]: "typed_state (persist rf)"
  by (simp add: typed_state_def persist_def SaveRaftState_def)

lemma typed_SaveSnapshot [simp]:
  "typed_state (persist rf\<lparr>persister := SaveSnapshot s (persister (persist rf))\<rparr>)"
  by (simp add: typed_state_def persist_def SaveRaftState_def SaveSnapshot_def)

lemma typed_simps [simp]:
  "typed_state (rf\<lparr>votesReceived := v\<rparr>) = typed_state rf" "typed_state (rf\<lparr>serverState := ss\<rparr>) = typed_state rf"
  "typed_state (rf\<lparr>commitIndex := ci\<rparr>) = typed_state rf" "typed_state (rf\<lparr>lastApplied := la\<rparr>) = typed_state rf"
  "typed_state (rf\<lparr>nextIndex := ni\<rparr>) = typed_state rf" "typed_state (rf\<lparr>matchIndex := mi\<rparr>) = typed_state rf"
  "typed_state (rf\<lparr>electionDeadline := dl\<rparr>) = typed_state rf" "typed_state (rf\<lparr>dead := x\<rparr>) = typed_state rf"
  "typed_state (resetDeadline e rf) = typed_state rf" "typed_state (stepDown e t rf)"
  "typed_state rf \<Longrightarrow> typed_state (adoptTerm t rf)"
  by (simp_all add: typed_state_def resetDeadline_def stepDown_def adoptTerm_def persist_def SaveRaftState_def)

lemma typed_advanceCommit: "advanceCommit rf = Some rf' \<Longrightarrow> typed_state rf' = typed_state rf"
  using advanceCommit_commit by fastforce

lemma typed_initLeaderIndex: "initLeaderIndex rf = Some rf' \<Longrightarrow> typed_state rf' = typed_state rf"
  by (auto simp: initLeaderIndex_def Let_def split: bind_splits)

lemma persister_Make [simp]: "persister (fst (Make N i ps)) = ps"
  by (simp add: Make_def readPersist_def Let_def split: option.splits)

lemma typed_AppendEntries:
  assumes "typed_state rf" "AppendEntries e rf a = Some (rf', r)"
  shows "typed_state rf'"
  using assms by (auto simp: AppendEntries_def acceptEntries_def Let_def split: if_splits bind_splits option.splits)

interpretation tyd: peer_invariant N "typed_state :: ('c, 'b) Raft \<Rightarrow> bool" for N
proof
  fix rf rf' :: "('c, 'b) Raft" and e c res gs T ok p i ents aer isa isr d s nil msg b ms rva rvr aea n
  show "typed_state (fst (Make N n (MakePersister nil)) :: ('c, 'b) Raft)" by (simp add: typed_state_def MakePersister_def)
  assume o: "typed_state rf"
  show "typed_state (fst (Make N (me rf) (persister rf)))" using o by (simp add: typed_state_def)
  show "typed_state (Kill rf)" using o by (simp add: Kill_def)
  show "typed_state rf'" if "tickFollower e rf = (rf', b)"
    using o that by (auto simp: tickFollower_def split: option.splits)
  show "typed_state rf'" if "doElection e rf = (rf', ms)"
    using o that by (auto simp: doElection_def Let_def split: option.splits if_splits)
  show "typed_state rf'" if "RequestVote e rf rva = (rf', rvr)"
    using o that by (auto simp: RequestVote_def Let_def split: if_splits)
  show "typed_state rf'" if "handleVoteReply e rf T ok = Some rf'"
    using o that by (auto simp: handleVoteReply_def Let_def split: if_splits option.splits dest!: typed_initLeaderIndex)
  show "typed_state rf'" if "Start rf c = Some (rf', res, gs)"
    using o that by (auto simp: Start_def Let_def split: if_splits bind_splits)
  show "typed_state rf'" if "AppendEntries e rf aea = Some (rf', aer)"
    using typed_AppendEntries [OF o that] .
  show "typed_state rf'" if "processAppendEntriesReply e rf p T i ents aer = Some rf'"
    using o that by (auto simp: processAppendEntriesReply_def Let_def split: if_splits bind_splits dest!: typed_advanceCommit)
  show "typed_state rf'" if "InstallSnapshot rf isa = (rf', isr, d)"
    using o that by (auto simp: InstallSnapshot_def Let_def split: if_splits)
  show "typed_state rf'" if "sendInstallSnapshot_reply e rf p isa isr = Some rf'"
    using o that by (auto simp: sendInstallSnapshot_reply_def Let_def split: if_splits bind_splits dest!: typed_advanceCommit)
  show "typed_state rf'" if "Snapshot rf i s = Some rf'"
    using o that by (auto simp: Snapshot_def Let_def split: if_splits bind_splits)
  show "typed_state rf'" if "BackgroundApply nil rf = Some (Applied rf' msg)"
    using o that by (auto simp: BackgroundApply_def Let_def split: if_splits bind_splits)
qed

text \<open>A durable peer with a typed state has exactly its own state in the persister.\<close>

lemma durable_stream:
  assumes "durable rf" and "typed_state rf"
  shows "raftstate (persister rf) = [GInt (votedFor rf), GInt (currentTerm rf), GLog (log rf),
      GInt (lastIncludedIndex rf), GInt (lastIncludedTerm rf)] \<or>
    raftstate (persister rf) = [] \<and> votedFor rf = -1 \<and> currentTerm rf = 0 \<and> log rf = [] \<and>
      lastIncludedIndex rf = 0 \<and> lastIncludedTerm rf = 0"
  using assms(2) unfolding typed_state_def
proof (elim disjE exE)
  assume "raftstate (persister rf) = []"
  then show ?thesis using assms(1)
    by (auto simp: durable_def persistent_def Make_def readPersist_def ReadRaftState_def Let_def)
next
  fix v t l i lt
  assume "raftstate (persister rf) = [GInt v, GInt t, GLog l, GInt i, GInt lt]"
  then show ?thesis using assms(1)
    by (auto simp: durable_def persistent_def Make_def readPersist_def ReadRaftState_def Let_def)
qed

text \<open>
  C33. The type of a peer. In every reachable cluster peer \<open>n\<close> knows its number and the number of peers, its two
  index arrays have a place per peer, and its persister holds exactly the five values of its persistent
  state with the types and in the order in which \<^verbatim>\<open>readPersist\<close> decodes them, or nothing at all as long as
  that state is the initial one.
\<close>

theorem peer_well_typed:
  assumes "reachable N w" and "n \<in> peer_ids N" and "rf = nodes w n"
  shows "me rf = n \<and> peers rf = N \<and> length (nextIndex rf) = N \<and> length (matchIndex rf) = N \<and>
    (raftstate (persister rf) = [GInt (votedFor rf), GInt (currentTerm rf), GLog (log rf),
       GInt (lastIncludedIndex rf), GInt (lastIncludedTerm rf)] \<or>
     raftstate (persister rf) = [] \<and> votedFor rf = -1 \<and> currentTerm rf = 0 \<and> log rf = [] \<and>
       lastIncludedIndex rf = 0 \<and> lastIncludedTerm rf = 0)"
proof -
  obtain C where "election_inv N C w" using election_inv_reachable [OF assms(1)] ..
  then have "me rf = n" "durable rf" using assms(2,3) by (auto simp: election_inv_def node_inv_def Let_def)
  moreover have "shaped N rf" "typed_state rf" using shp.holds [OF assms(1)] tyd.holds [OF assms(1)] assms(2,3) by auto
  ultimately show ?thesis using durable_stream [of rf] by (simp add: shaped_def)
qed

theorem peer_well_typed_witness:
  "reachable 3 w6 \<and> raftstate (persister (nodes w6 1)) =
     [GInt 0, GInt 1, GLog [\<lparr>Term = 1, Index = 0, Command = 42\<rparr>], GInt 0, GInt (lastIncludedTerm (nodes w6 1))]"
  using peer_well_typed [OF reachable_w6, of 1] reachable_w6 w6_eval by auto

end
