(* ===== verification/Service_Prelude.thy ===== *)
theory Service_Prelude
  imports Raft_Node
begin

text \<open>
  What the services on top of Raft (\<^verbatim>\<open>kvraft\<close>, \<^verbatim>\<open>shardmaster\<close>) share: the waiting of a request for its
  log entry, and the contract of a state machine that drops repeated requests.
\<close>

subsection \<open>Waiting for an entry to be applied\<close>

text \<open>
  \<^verbatim>\<open>results map[int]chan Op\<close> and the channels it points to. A channel is an identity and a buffer of
  one element; \<open>fresh\<close> is the next identity \<^verbatim>\<open>make(chan Op, 1)\<close> hands out. A request keeps the identity of
  its own channel, whatever happens to the map in between.
\<close>

record 'op waiting =
  results :: "int \<rightharpoonup> nat"
  buffers :: "nat \<rightharpoonup> 'op"
  fresh :: nat

definition no_waiting :: "'op waiting" where
  "no_waiting = \<lparr>results = Map.empty, buffers = Map.empty, fresh = 0\<rparr>"

definition register :: "int \<Rightarrow> 'op waiting \<Rightarrow> 'op waiting \<times> nat" where
  "register idx ws =
     (ws\<lparr>results := (results ws)(idx \<mapsto> fresh ws), buffers := (buffers ws)(fresh ws := None),
         fresh := fresh ws + 1\<rparr>, fresh ws)"

text \<open>\<^verbatim>\<open>ch, notify := results[idx]\<close> and \<^verbatim>\<open>select { case ch <- op: default: }\<close>: a send that does not block.\<close>

definition notify :: "int \<Rightarrow> 'op \<Rightarrow> 'op waiting \<Rightarrow> 'op waiting" where
  "notify idx op ws =
     (case results ws idx of
        None \<Rightarrow> ws
      | Some ch \<Rightarrow> (case buffers ws ch of
          None \<Rightarrow> ws\<lparr>buffers := (buffers ws)(ch \<mapsto> op)\<rparr>
        | Some _ \<Rightarrow> ws))"

text \<open>
  How a request stops waiting: its channel delivers (\<open>None\<close> while the buffer is empty), or the timer
  fires. Either way it removes the entry of its index, even if the entry is a later request's.
\<close>

definition receive :: "int \<Rightarrow> nat \<Rightarrow> 'op waiting \<Rightarrow> ('op \<times> 'op waiting) option" where
  "receive idx ch ws =
     (case buffers ws ch of
        None \<Rightarrow> None
      | Some op \<Rightarrow> Some (op, ws\<lparr>buffers := (buffers ws)(ch := None), results := (results ws)(idx := None)\<rparr>))"

definition give_up :: "int \<Rightarrow> 'op waiting \<Rightarrow> 'op waiting" where
  "give_up idx ws = ws\<lparr>results := (results ws)(idx := None)\<rparr>"

definition waiting_ok :: "'op waiting \<Rightarrow> bool" where
  "waiting_ok ws \<longleftrightarrow> (\<forall>idx ch. results ws idx = Some ch \<longrightarrow> ch < fresh ws) \<and>
     (\<forall>i j ch. results ws i = Some ch \<longrightarrow> results ws j = Some ch \<longrightarrow> i = j)"

lemma waiting_ok_steps:
  "waiting_ok no_waiting"
  "waiting_ok ws \<Longrightarrow> waiting_ok (fst (register idx ws))"
  "waiting_ok ws \<Longrightarrow> waiting_ok (notify idx op ws)"
  "waiting_ok ws \<Longrightarrow> receive idx ch ws = Some (op, ws') \<Longrightarrow> waiting_ok ws'"
  "waiting_ok ws \<Longrightarrow> waiting_ok (give_up idx ws)"
  by (fastforce simp: waiting_ok_def no_waiting_def register_def notify_def receive_def give_up_def
      less_Suc_eq split: option.splits if_splits)+

text \<open>A request that registered gets what the next application of its index sends.\<close>

lemma register_notify_receive:
  assumes "register idx ws = (ws', ch)"
  shows "\<exists>ws''. receive idx ch (notify idx op ws') = Some (op, ws'') \<and> results ws'' idx = None"
  using assms by (auto simp: register_def notify_def receive_def)

subsection \<open>Retrying\<close>

text \<open>The outcome of an attempt of a clerk: no reply, or a reply that may come from the wrong server.\<close>

definition refused :: "('r \<Rightarrow> bool) \<Rightarrow> 'r option \<Rightarrow> bool" where
  "refused wrong out \<longleftrightarrow> (\<forall>r. out = Some r \<longrightarrow> wrong r)"

lemma split_refused:
  obtains "\<forall>out \<in> set outs. refused wrong out" "length (takeWhile (refused wrong) outs) = length outs"
  | fs r rest where "outs = fs @ Some r # rest" "\<forall>out \<in> set fs. refused wrong out" "\<not> wrong r"
      "length fs = length (takeWhile (refused wrong) outs)"
proof (cases "dropWhile (refused wrong) outs")
  case Nil
  then have "\<forall>out \<in> set outs. refused wrong out" by (simp add: dropWhile_eq_Nil_conv)
  then show ?thesis using that(1) by (simp add: takeWhile_eq_all_conv [THEN iffD2])
next
  case (Cons out rest)
  then have "\<not> refused wrong out" by (metis dropWhile_eq_Cons_conv)
  then obtain r where r: "out = Some r" "\<not> wrong r" by (auto simp: refused_def)
  have "outs = takeWhile (refused wrong) outs @ Some r # rest"
    using Cons r(1) by (metis takeWhile_dropWhile_id)
  moreover have "\<forall>out \<in> set (takeWhile (refused wrong) outs). refused wrong out"
    by (meson set_takeWhileD)
  ultimately show ?thesis using that(2) r(2) by blast
qed

subsection \<open>State machines that drop repeated requests\<close>

text \<open>
  The contract: requests carry a client and a sequence number, the state remembers the last number
  of each client, a request that is not newer than that changes nothing, and a newer one is
  remembered. \<open>apply\<close> takes the log index and may panic (\<open>None\<close>).
\<close>

fun run_log :: "(int \<Rightarrow> 'op \<Rightarrow> 'st \<Rightarrow> 'st option) \<Rightarrow> (int \<times> 'op) list \<Rightarrow> 'st \<Rightarrow> 'st option" where
  "run_log f [] st = Some st"
| "run_log f ((i, op) # ms) st = do { st' \<leftarrow> f i op st; run_log f ms st' }"

lemma run_log_Cons:
  "run_log f ((i, op) # ms) st = Some st' \<Longrightarrow>
     \<exists>st1. f i op st = Some st1 \<and> run_log f ms st1 = Some st'"
  by (auto split: bind_splits)

lemma run_log_append: "run_log f (ms @ ms') st = Option.bind (run_log f ms st) (run_log f ms')"
proof (induction ms arbitrary: st)
  case (Cons m ms)
  then show ?case by (cases m) (auto split: bind_splits)
qed simp

locale dedup_machine =
  fixes apply_at :: "int \<Rightarrow> 'op \<Rightarrow> 'st \<Rightarrow> 'st option" and good :: "'st \<Rightarrow> bool"
    and seen :: "'st \<Rightarrow> int \<rightharpoonup> int"
    and client :: "'op \<Rightarrow> int" and request :: "'op \<Rightarrow> int" and writes :: "'op \<Rightarrow> bool"
  assumes good_kept: "good st \<Longrightarrow> apply_at i op st = Some st' \<Longrightarrow> good st'"
    and reads_nothing: "good st \<Longrightarrow> \<not> writes op \<Longrightarrow> apply_at i op st = Some st"
    and repeated: "good st \<Longrightarrow> writes op \<Longrightarrow> seen st (client op) = Some n \<Longrightarrow> request op \<le> n \<Longrightarrow>
          apply_at i op st = Some st"
    and remembered: "good st \<Longrightarrow> writes op \<Longrightarrow> (\<forall>n. seen st (client op) = Some n \<longrightarrow> n < request op) \<Longrightarrow>
          apply_at i op st = Some st' \<Longrightarrow> seen st' = (seen st)(client op \<mapsto> request op)"
begin

definition known :: "'op \<Rightarrow> 'st \<Rightarrow> bool" where
  "known op st \<longleftrightarrow> writes op \<longrightarrow> (\<exists>n. seen st (client op) = Some n \<and> request op \<le> n)"

lemma known_apply: "good st \<Longrightarrow> known op st \<Longrightarrow> apply_at i op st = Some st"
  using reads_nothing repeated by (cases "writes op") (auto simp: known_def)

lemma apply_known:
  assumes "good st" "apply_at i op st = Some st'"
  shows "known op st'"
proof (cases "known op st")
  case True
  with known_apply [OF assms(1) True, of i] assms show ?thesis by simp
next
  case False
  then have w: "writes op" "\<forall>n. seen st (client op) = Some n \<longrightarrow> n < request op"
    by (auto simp: known_def not_le)
  show ?thesis using remembered [OF assms(1) w assms(2)] by (simp add: known_def)
qed

lemma known_kept:
  assumes "good st" "known op st" "apply_at i op' st = Some st'"
  shows "known op st'"
proof (cases "known op' st")
  case True
  with known_apply [OF assms(1) True, of i] assms show ?thesis by simp
next
  case False
  then have w: "writes op'" "\<forall>n. seen st (client op') = Some n \<longrightarrow> n < request op'"
    by (auto simp: known_def not_le)
  then show ?thesis
    using remembered [OF assms(1) w assms(3)] assms(2) by (force simp: known_def)
qed

lemma run_good: "run_log apply_at ms st = Some st' \<Longrightarrow> good st \<Longrightarrow> good st'"
proof (induction ms arbitrary: st)
  case (Cons m ms)
  obtain i op where "m = (i, op)" by (cases m)
  then show ?case using Cons run_log_Cons [of apply_at] good_kept by metis
qed simp

lemma known_run: "run_log apply_at ms st = Some st' \<Longrightarrow> good st \<Longrightarrow> known op st \<Longrightarrow> known op st'"
proof (induction ms arbitrary: st)
  case (Cons m ms)
  obtain i op' where "m = (i, op')" by (cases m)
  with Cons.prems(1) obtain st1 where s: "apply_at i op' st = Some st1" "run_log apply_at ms st1 = Some st'"
    using run_log_Cons [of apply_at] by blast
  show ?case
    using Cons.IH [OF s(2) good_kept [OF Cons.prems(2) s(1)]] known_kept [OF Cons.prems(2,3) s(1)] by blast
qed simp

lemma run_known:
  "run_log apply_at ms st = Some st' \<Longrightarrow> good st \<Longrightarrow> (i, op) \<in> set ms \<Longrightarrow> known op st'"
proof (induction ms arbitrary: st)
  case (Cons m ms)
  obtain j op' where m: "m = (j, op')" by (cases m)
  with Cons.prems(1) obtain st1 where s: "apply_at j op' st = Some st1" "run_log apply_at ms st1 = Some st'"
    using run_log_Cons [of apply_at] by blast
  note g = good_kept [OF Cons.prems(2) s(1)]
  show ?case
  proof (cases "m = (i, op)")
    case True
    then show ?thesis using m s apply_known [OF Cons.prems(2) s(1)] known_run [OF s(2) g] by blast
  next
    case False
    then show ?thesis using Cons.IH [OF s(2) g] Cons.prems(3) by simp
  qed
qed simp

text \<open>At most once: whatever has been applied can be applied again, at any index and in any order,
  without effect.\<close>

lemma replay:
  assumes "run_log apply_at ms st = Some st'" "good st" "snd ` set ms' \<subseteq> snd ` set ms"
  shows "run_log apply_at ms' st' = Some st'"
  using assms(3)
proof (induction ms')
  case (Cons m ms')
  obtain j op where m: "m = (j, op)" by (cases m)
  with Cons.prems obtain i where "(i, op) \<in> set ms" by force
  then have "apply_at j op st' = Some st'"
    using run_known [OF assms(1,2)] known_apply [OF run_good [OF assms(1,2)]] by blast
  then show ?case using Cons m by simp
qed simp

end

subsection \<open>State machines that know their position\<close>

text \<open>
  The contract between a service and the snapshots it installs: an operation either changes nothing or
  moves the position to its own index, and a snapshot is taken over exactly when its position is
  further. Then a replica that has applied a prefix of the log and installs a snapshot of another
  prefix is where the longer prefix leads.
\<close>

locale indexed_machine =
  fixes step :: "int \<Rightarrow> 'op \<Rightarrow> 'st \<Rightarrow> 'st" and pos :: "'st \<Rightarrow> int" and take_over :: "'st \<Rightarrow> 'st \<Rightarrow> 'st"
  assumes moves: "step i op st = st \<or> pos (step i op st) = i"
    and newer: "pos st < pos snap \<Longrightarrow> take_over snap st = snap"
    and not_newer: "pos snap \<le> pos st \<Longrightarrow> take_over snap st = st"
begin

lemma prefix_pos:
  assumes "sorted_wrt (<) (map fst ms)" "\<forall>m \<in> set ms. pos st < fst m"
  shows "foldl (\<lambda>st (i, op). step i op st) st ms = st \<or>
    pos st < pos (foldl (\<lambda>st (i, op). step i op st) st ms) \<and>
    pos (foldl (\<lambda>st (i, op). step i op st) st ms) \<in> fst ` set ms"
  using assms
proof (induction ms arbitrary: st)
  case (Cons m ms)
  obtain i op where m: "m = (i, op)" by (cases m)
  show ?case
  proof (cases "step i op st = st")
    case True
    then show ?thesis using Cons m by auto
  next
    case False
    then have p: "pos (step i op st) = i" using moves by blast
    have "foldl (\<lambda>st (i, op). step i op st) (step i op st) ms = step i op st \<or>
      pos (step i op st) < pos (foldl (\<lambda>st (i, op). step i op st) (step i op st) ms) \<and>
      pos (foldl (\<lambda>st (i, op). step i op st) (step i op st) ms) \<in> fst ` set ms"
      using Cons.IH [of "step i op st"] Cons.prems m p by auto
    then show ?thesis using p Cons.prems(2) m by auto
  qed
qed simp

lemma later_pos:
  assumes "sorted_wrt (<) (map fst (ms @ ms'))" "\<forall>m \<in> set (ms @ ms'). pos st < fst m"
  defines "run \<equiv> foldl (\<lambda>st (i, op). step i op st)"
  shows "run st (ms @ ms') = run st ms \<or> pos (run st ms) < pos (run st (ms @ ms'))"
proof -
  have "\<forall>m \<in> set ms'. pos (run st ms) < fst m"
  proof
    fix m assume "m \<in> set ms'"
    then have "\<forall>x \<in> set ms. fst x < fst m" "pos st < fst m"
      using assms(1,2) by (auto simp: sorted_wrt_append)
    then show "pos (run st ms) < fst m"
      using prefix_pos [of ms st] assms(1,2) by (fastforce simp: sorted_wrt_append run_def)
  qed
  then show ?thesis
    using prefix_pos [of ms' "run st ms"] assms(1) by (auto simp: sorted_wrt_append run_def)
qed

lemma catch_up:
  assumes "sorted_wrt (<) (map fst ms)" "\<forall>m \<in> set ms. pos st < fst m"
  defines "run k \<equiv> foldl (\<lambda>st (i, op). step i op st) st (take k ms)"
  shows "take_over (run s) (run p) = run (max p s)"
proof -
  have le: "run k' = run k \<or> pos (run k) < pos (run k')" if "k \<le> k'" for k k'
  proof -
    have t: "take k ms @ drop k (take k' ms) = take k' ms"
      using that append_take_drop_id [of k "take k' ms"] by (simp add: min_absorb1)
    have "sorted_wrt (<) (map fst (take k' ms))"
      using assms(1) by (metis sorted_wrt_take take_map)
    moreover have "\<forall>m \<in> set (take k' ms). pos st < fst m" using assms(2) by (meson in_set_takeD)
    ultimately show ?thesis
      using later_pos [of "take k ms" "drop k (take k' ms)" st] unfolding t run_def by simp
  qed
  show ?thesis
  proof (cases "p \<le> s")
    case True
    then show ?thesis using le [OF True] newer not_newer by (auto simp: max_absorb2)
  next
    case False
    then have "pos (run s) \<le> pos (run p)" using le [of s p] by auto
    then show ?thesis using False not_newer by (simp add: max_absorb1)
  qed
qed

end

end
