(* ===== verification/KV_Raft.thy ===== *)
theory KV_Raft
  imports Service_Prelude
begin

text \<open>
  The fault-tolerant key/value service (\<^verbatim>\<open>src/src/kvraft/server.go\<close>, \<^verbatim>\<open>common.go\<close>, \<^verbatim>\<open>client.go\<close>): the
  store, the duplicate filter, the apply loop with its snapshots, the request handlers and the clerk.
\<close>

subsection \<open>Data\<close>

record kv_Op =
  kv_Type :: string
  kv_ReqId :: int
  kv_OpMe :: int
  kv_Key :: string
  kv_Value :: string

text \<open>
  \<^verbatim>\<open>SnapshotData\<close> names what a snapshot holds. The snapshot itself is the gob stream of the three values, in
  the order they are encoded; an absent snapshot is the empty stream.
\<close>

record SnapshotData =
  Store :: "string \<rightharpoonup> string"
  LastApplied :: "int \<rightharpoonup> int"
  LastIncludedIndex :: int

datatype kv_gob = GStore "string \<rightharpoonup> string" | GApplied "int \<rightharpoonup> int" | GIndex int

record RaftKV =
  kv_me :: int
  kv_rf :: "(kv_Op, kv_gob list) Raft"
  maxraftstate :: int
  kv_waiting :: "kv_Op waiting"
  kv_store :: "string \<rightharpoonup> string"
  kv_lastApplied :: "int \<rightharpoonup> int"
  kv_lastIncludedIndex :: int

subsection \<open>Applying operations\<close>

definition handlePutAppend :: "kv_Op \<Rightarrow> RaftKV \<Rightarrow> RaftKV" where
  "handlePutAppend op kv =
     (if kv_Type op = ''Put'' then kv\<lparr>kv_store := (kv_store kv)(kv_Key op \<mapsto> kv_Value op)\<rparr>
      else if kv_Type op = ''Append'' then
        kv\<lparr>kv_store := (kv_store kv)(kv_Key op \<mapsto>
             (case kv_store kv (kv_Key op) of None \<Rightarrow> [] | Some v \<Rightarrow> v) @ kv_Value op)\<rparr>
      else kv)"

definition handleGet :: "kv_Op \<Rightarrow> RaftKV \<Rightarrow> kv_Op" where
  "handleGet op kv =
     (case kv_store kv (kv_Key op) of None \<Rightarrow> op | Some val \<Rightarrow> op\<lparr>kv_Value := val\<rparr>)"

text \<open>The locked part of \<^verbatim>\<open>ApplyRoutine\<close> for a command: the new state and the operation for the waiter.\<close>

definition kv_apply :: "int \<Rightarrow> kv_Op \<Rightarrow> RaftKV \<Rightarrow> RaftKV \<times> kv_Op" where
  "kv_apply idx op kv =
     (if kv_Type op = ''GET'' then (kv, handleGet op kv)
      else if (case kv_lastApplied kv (kv_OpMe op) of None \<Rightarrow> True | Some lastIdx \<Rightarrow> lastIdx < kv_ReqId op)
      then (let kv1 = kv\<lparr>kv_lastApplied := (kv_lastApplied kv)(kv_OpMe op \<mapsto> kv_ReqId op)\<rparr>;
                kv2 = handlePutAppend op kv1
            in (kv2\<lparr>kv_lastIncludedIndex := idx\<rparr>, op))
      else (kv, op))"

subsection \<open>Snapshots\<close>

definition kv_encode :: "RaftKV \<Rightarrow> kv_gob list" where
  "kv_encode kv = [GStore (kv_store kv), GApplied (kv_lastApplied kv), GIndex (kv_lastIncludedIndex kv)]"

text \<open>\<^verbatim>\<open>sendSnapshot\<close>: encode under the lock, then hand the bytes to Raft, which may panic.\<close>

definition sendSnapshot :: "int \<Rightarrow> RaftKV \<Rightarrow> RaftKV option" where
  "sendSnapshot raftIndex kv =
     map_option (\<lambda>rf. kv\<lparr>kv_rf := rf\<rparr>) (Snapshot (kv_rf kv) raftIndex (kv_encode kv))"

text \<open>The three \<^verbatim>\<open>Decode\<close> calls of \<^verbatim>\<open>ApplyRoutine\<close>; a failure of any of them skips the message.\<close>

fun kv_decode :: "kv_gob list \<Rightarrow> SnapshotData option" where
  "kv_decode (GStore s # GApplied la # GIndex i # _) =
     Some \<lparr>Store = s, LastApplied = la, LastIncludedIndex = i\<rparr>"
| "kv_decode _ = None"

definition kv_install :: "SnapshotData \<Rightarrow> RaftKV \<Rightarrow> RaftKV" where
  "kv_install d kv =
     (if LastIncludedIndex d > kv_lastIncludedIndex kv
      then kv\<lparr>kv_lastIncludedIndex := LastIncludedIndex d, kv_store := Store d,
              kv_lastApplied := LastApplied d\<rparr>
      else kv)"

text \<open>
  The check after a command: \<^verbatim>\<open>kv.maxraftstate > 0 && kv.rf.RaftSize() >= kv.maxraftstate/kv.rf.NumPeers()\<close>.
  The quotient panics when there are no peers. \<open>bytes\<close> is the size of the encoded Raft state.
\<close>

definition kv_compact :: "(kv_Op gob list \<Rightarrow> int) \<Rightarrow> int \<Rightarrow> RaftKV \<Rightarrow> RaftKV option" where
  "kv_compact bytes idx kv =
     (if maxraftstate kv > 0 then
        if NumPeers (kv_rf kv) = 0 then None
        else if RaftSize bytes (kv_rf kv) \<ge> maxraftstate kv div int (NumPeers (kv_rf kv))
        then sendSnapshot idx kv
        else Some kv
      else Some kv)"

text \<open>One message of \<^verbatim>\<open>ApplyRoutine\<close>.\<close>

definition kv_ApplyRoutine ::
  "(kv_Op gob list \<Rightarrow> int) \<Rightarrow> (kv_Op, kv_gob list) ApplyMsg \<Rightarrow> RaftKV \<Rightarrow> RaftKV option" where
  "kv_ApplyRoutine bytes msg kv =
     (if UseSnapshot msg then
        (case kv_decode (msg_Snapshot msg) of
           None \<Rightarrow> Some kv
         | Some d \<Rightarrow> Some (kv_install d kv))
      else do {
        op \<leftarrow> msg_Command msg;
        let (kv1, op1) = kv_apply (msg_Index msg) op kv;
        let ch = results (kv_waiting kv1) (msg_Index msg);
        kv2 \<leftarrow> kv_compact bytes (msg_Index msg) kv1;
        Some (case ch of
            None \<Rightarrow> kv2
          | Some c \<Rightarrow> kv2\<lparr>kv_waiting :=
              (case buffers (kv_waiting kv2) c of
                 None \<Rightarrow> (kv_waiting kv2)\<lparr>buffers := (buffers (kv_waiting kv2))(c \<mapsto> op1)\<rparr>
               | Some _ \<Rightarrow> kv_waiting kv2)\<rparr>) })"

subsection \<open>Request handlers\<close>

definition kv_isSameOp :: "kv_Op \<Rightarrow> kv_Op \<Rightarrow> bool" where
  "kv_isSameOp op1 op2 \<longleftrightarrow> kv_Type op1 = kv_Type op2 \<and> kv_Key op1 = kv_Key op2 \<and>
     kv_ReqId op1 = kv_ReqId op2 \<and> kv_OpMe op1 = kv_OpMe op2"

definition kv_wait_start ::
  "kv_Op \<Rightarrow> RaftKV \<Rightarrow> (RaftKV \<times> int option \<times> kv_Op goroutine list) option" where
  "kv_wait_start op kv =
     do { (rf', (idx, _, leader), gs) \<leftarrow> Start (kv_rf kv) op;
          Some (kv\<lparr>kv_rf := rf'\<rparr>, (if leader then Some idx else None), gs) }"

definition kv_wait_register :: "int \<Rightarrow> RaftKV \<Rightarrow> RaftKV \<times> nat" where
  "kv_wait_register idx kv =
     (let (ws, ch) = register idx (kv_waiting kv) in (kv\<lparr>kv_waiting := ws\<rparr>, ch))"

definition kv_wait_receive :: "kv_Op \<Rightarrow> int \<Rightarrow> nat \<Rightarrow> RaftKV \<Rightarrow> ((bool \<times> kv_Op) \<times> RaftKV) option" where
  "kv_wait_receive op idx ch kv =
     do { (appliedOp, ws) \<leftarrow> receive idx ch (kv_waiting kv);
          Some ((kv_isSameOp op appliedOp, appliedOp), kv\<lparr>kv_waiting := ws\<rparr>) }"

definition kv_wait_timeout :: "kv_Op \<Rightarrow> int \<Rightarrow> RaftKV \<Rightarrow> (bool \<times> kv_Op) \<times> RaftKV" where
  "kv_wait_timeout op idx kv = ((False, op), kv\<lparr>kv_waiting := give_up idx (kv_waiting kv)\<rparr>)"

definition getRaftLeader :: "RaftKV \<Rightarrow> bool \<times> string" where
  "getRaftLeader kv =
     (if \<not> snd (GetState (kv_rf kv)) then (True, ''Wrong Leader'') else (False, ''OK''))"

record PutAppendArgs =
  pa_Key :: string
  pa_Value :: string
  pa_Op :: string
  pa_Id :: int
  pa_Me :: int

record PutAppendReply =
  WrongLeader :: bool
  Err :: string

record GetArgs =
  get_Key :: string
  get_Id :: int
  get_Me :: int

record GetReply = PutAppendReply +
  get_Value :: string

definition Get_op :: "GetArgs \<Rightarrow> kv_Op" where
  "Get_op args = \<lparr>kv_Type = ''GET'', kv_ReqId = get_Id args, kv_OpMe = get_Me args,
     kv_Key = get_Key args, kv_Value = []\<rparr>"

definition Get_reply :: "bool \<times> kv_Op \<Rightarrow> GetReply" where
  "Get_reply res =
     (if \<not> fst res then \<lparr>WrongLeader = True, Err = ''Wrong Leader'', get_Value = []\<rparr>
      else \<lparr>WrongLeader = False, Err = ''OK'', get_Value = kv_Value (snd res)\<rparr>)"

definition PutAppend_op :: "PutAppendArgs \<Rightarrow> kv_Op" where
  "PutAppend_op args = \<lparr>kv_Type = pa_Op args, kv_ReqId = pa_Id args, kv_OpMe = pa_Me args,
     kv_Key = pa_Key args, kv_Value = pa_Value args\<rparr>"

definition PutAppend_reply :: "bool \<times> kv_Op \<Rightarrow> PutAppendReply" where
  "PutAppend_reply res =
     (if \<not> fst res then \<lparr>WrongLeader = True, Err = ''Wrong Leader''\<rparr>
      else \<lparr>WrongLeader = False, Err = ''OK''\<rparr>)"

definition kv_Kill :: "RaftKV \<Rightarrow> RaftKV" where
  "kv_Kill kv = kv\<lparr>kv_rf := Kill (kv_rf kv)\<rparr>"

text \<open>\<^verbatim>\<open>StartKVServer\<close>: an empty server, and the message Raft's start has put on \<^verbatim>\<open>applyCh\<close>.\<close>

definition StartKVServer ::
  "nat \<Rightarrow> int \<Rightarrow> (kv_Op, kv_gob list) Persister \<Rightarrow> int \<Rightarrow>
     RaftKV \<times> (kv_Op, kv_gob list) ApplyMsg" where
  "StartKVServer n i ps maxsize =
     (case Make n i ps of (rf, msg) \<Rightarrow>
        (\<lparr>kv_me = i, kv_rf = rf, maxraftstate = maxsize, kv_waiting = no_waiting,
          kv_store = Map.empty, kv_lastApplied = Map.empty, kv_lastIncludedIndex = 0\<rparr>, msg))"

subsection \<open>The clerk\<close>

record kv_Clerk =
  ck_servers :: nat
  ck_leader :: int
  ck_clientId :: int
  ck_id :: int

definition kv_MakeClerk :: "nat \<Rightarrow> int \<Rightarrow> kv_Clerk" where
  "kv_MakeClerk n rand = \<lparr>ck_servers = n, ck_leader = 0, ck_clientId = rand, ck_id = 0\<rparr>"

definition getLeader :: "kv_Clerk \<Rightarrow> int" where
  "getLeader ck = ck_leader ck"

definition nextLeader :: "kv_Clerk \<Rightarrow> kv_Clerk" where
  "nextLeader ck = ck\<lparr>ck_leader := (ck_leader ck + 1) mod int (ck_servers ck)\<rparr>"

text \<open>
  The retry loop over the outcomes of its calls: the list says what each attempt returned, \<open>None\<close> for
  \<^verbatim>\<open>ok = false\<close>. The clerk asks \<^verbatim>\<open>ck.servers[leader]\<close>, an index that panics out of range (\<open>Inl\<close>). The
  result is the first reply of a leader, the clerk after it and the server it came from; \<open>Inr None\<close>
  while it is still trying.
\<close>

datatype clerk_panic = IndexOutOfRange

fun kv_retry :: "('r \<Rightarrow> bool) \<Rightarrow> kv_Clerk \<Rightarrow> 'r option list \<Rightarrow>
    clerk_panic + ('r \<times> kv_Clerk) option" where
  "kv_retry wrong ck [] = Inr None"
| "kv_retry wrong ck (out # outs) =
     (if getLeader ck < 0 \<or> getLeader ck \<ge> int (ck_servers ck) then Inl IndexOutOfRange
      else case out of
        Some reply \<Rightarrow> if wrong reply then kv_retry wrong (nextLeader ck) outs
                      else Inr (Some (reply, ck))
      | None \<Rightarrow> kv_retry wrong (nextLeader ck) outs)"

definition kv_next :: "kv_Clerk \<Rightarrow> kv_Clerk" where
  "kv_next ck = ck\<lparr>ck_id := ck_id ck + 1\<rparr>"

definition Clerk_Get :: "string \<Rightarrow> kv_Clerk \<Rightarrow> GetReply option list \<Rightarrow>
    GetArgs \<times> (clerk_panic + (string \<times> kv_Clerk) option)" where
  "Clerk_Get key ck outs =
     (let ck1 = kv_next ck in
      (\<lparr>get_Key = key, get_Id = ck_id ck1, get_Me = ck_clientId ck1\<rparr>,
       map_sum id (map_option (\<lambda>(r, ck'). (get_Value r, ck'))) (kv_retry WrongLeader ck1 outs)))"

definition Clerk_PutAppend :: "string \<Rightarrow> string \<Rightarrow> string \<Rightarrow> kv_Clerk \<Rightarrow> PutAppendReply option list \<Rightarrow>
    PutAppendArgs \<times> (clerk_panic + kv_Clerk option)" where
  "Clerk_PutAppend key value op ck outs =
     (let ck1 = kv_next ck in
      (\<lparr>pa_Key = key, pa_Value = value, pa_Op = op, pa_Id = ck_id ck1, pa_Me = ck_clientId ck1\<rparr>,
       map_sum id (map_option snd) (kv_retry WrongLeader ck1 outs)))"

definition Clerk_Put :: "string \<Rightarrow> string \<Rightarrow> kv_Clerk \<Rightarrow> PutAppendReply option list \<Rightarrow>
    PutAppendArgs \<times> (clerk_panic + kv_Clerk option)" where
  "Clerk_Put key value = Clerk_PutAppend key value ''Put''"

definition Clerk_Append :: "string \<Rightarrow> string \<Rightarrow> kv_Clerk \<Rightarrow> PutAppendReply option list \<Rightarrow>
    PutAppendArgs \<times> (clerk_panic + kv_Clerk option)" where
  "Clerk_Append key value = Clerk_PutAppend key value ''Append''"

end
