(* ===== verification/KV_Machine.thy ===== *)
theory KV_Machine
  imports KV_Raft
begin

text \<open>
  The key/value service as a replicated state machine: what operations do to the store, repeated
  requests, snapshots and restarts, the path of a read from the request to the answer, and the clerk.
\<close>

subsection \<open>The replicated part of a server\<close>

definition kv_view :: "RaftKV \<Rightarrow> SnapshotData" where
  "kv_view kv = \<lparr>Store = kv_store kv, LastApplied = kv_lastApplied kv,
     LastIncludedIndex = kv_lastIncludedIndex kv\<rparr>"

lemma kv_view_simps [simp]:
  "Store (kv_view kv) = kv_store kv" "LastApplied (kv_view kv) = kv_lastApplied kv"
  "LastIncludedIndex (kv_view kv) = kv_lastIncludedIndex kv"
  by (simp_all add: kv_view_def)

lemma kv_view_eq_iff: "kv_view kv = d \<longleftrightarrow>
    kv_store kv = Store d \<and> kv_lastApplied kv = LastApplied d \<and> kv_lastIncludedIndex kv = LastIncludedIndex d"
  by (cases d) (auto simp: kv_view_def)

definition put_append :: "kv_Op \<Rightarrow> (string \<rightharpoonup> string) \<Rightarrow> (string \<rightharpoonup> string)" where
  "put_append op m =
     (if kv_Type op = ''Put'' then m(kv_Key op \<mapsto> kv_Value op)
      else if kv_Type op = ''Append''
      then m(kv_Key op \<mapsto> (case m (kv_Key op) of None \<Rightarrow> [] | Some v \<Rightarrow> v) @ kv_Value op)
      else m)"

definition kv_fresh :: "kv_Op \<Rightarrow> (int \<rightharpoonup> int) \<Rightarrow> bool" where
  "kv_fresh op la \<longleftrightarrow> kv_Type op \<noteq> ''GET'' \<and> (\<forall>n. la (kv_OpMe op) = Some n \<longrightarrow> n < kv_ReqId op)"

text \<open>One operation on the replicated part, as the specification has it.\<close>

definition kv_step :: "int \<Rightarrow> kv_Op \<Rightarrow> SnapshotData \<Rightarrow> SnapshotData" where
  "kv_step idx op d =
     (if kv_fresh op (LastApplied d)
      then \<lparr>Store = put_append op (Store d), LastApplied = (LastApplied d)(kv_OpMe op \<mapsto> kv_ReqId op),
            LastIncludedIndex = idx\<rparr>
      else d)"

definition take_over :: "SnapshotData \<Rightarrow> SnapshotData \<Rightarrow> SnapshotData" where
  "take_over snap d = (if LastIncludedIndex snap > LastIncludedIndex d then snap else d)"

lemma handlePutAppend_eq: "handlePutAppend op kv = kv\<lparr>kv_store := put_append op (kv_store kv)\<rparr>"
  by (simp add: handlePutAppend_def put_append_def)

lemma kv_apply_eq:
  "kv_apply idx op kv =
     (if kv_fresh op (kv_lastApplied kv)
      then (kv\<lparr>kv_lastApplied := (kv_lastApplied kv)(kv_OpMe op \<mapsto> kv_ReqId op),
               kv_store := put_append op (kv_store kv), kv_lastIncludedIndex := idx\<rparr>, op)
      else (kv, if kv_Type op = ''GET'' then handleGet op kv else op))"
  by (auto simp: kv_apply_def kv_fresh_def Let_def handlePutAppend_eq split: option.split)

text \<open>The server refines the specification: operations and snapshots.\<close>

lemma kv_apply_view: "kv_view (fst (kv_apply idx op kv)) = kv_step idx op (kv_view kv)"
  by (simp add: kv_apply_eq kv_step_def kv_view_def)

lemma kv_install_view: "kv_view (kv_install d kv) = take_over d (kv_view kv)"
  by (simp add: kv_install_def take_over_def kv_view_eq_iff)

lemma kv_decode_encode [simp]: "kv_decode (kv_encode kv) = Some (kv_view kv)"
  by (simp add: kv_encode_def kv_view_def)

lemma kv_apply_frame [simp]:
  "kv_rf (fst (kv_apply idx op kv)) = kv_rf kv" "kv_waiting (fst (kv_apply idx op kv)) = kv_waiting kv"
  "maxraftstate (fst (kv_apply idx op kv)) = maxraftstate kv"
  by (simp_all add: kv_apply_eq)

lemma kv_compact_frame:
  assumes "kv_compact bytes idx kv = Some kv'"
  shows "kv_view kv' = kv_view kv" "kv_waiting kv' = kv_waiting kv"
  using assms by (auto simp: kv_compact_def sendSnapshot_def kv_view_def split: if_splits)

interpretation kvi: indexed_machine kv_step LastIncludedIndex take_over
  by unfold_locales (auto simp: kv_step_def take_over_def)

definition kv_state :: "int \<Rightarrow> kv_Op \<Rightarrow> SnapshotData \<Rightarrow> SnapshotData option" where
  "kv_state idx op d = Some (kv_step idx op d)"

interpretation kvd: dedup_machine kv_state "\<lambda>_. True" LastApplied kv_OpMe kv_ReqId
  "\<lambda>op. kv_Type op \<noteq> ''GET''"
  by unfold_locales (auto simp: kv_state_def kv_step_def kv_fresh_def)

subsection \<open>Running a server\<close>

text \<open>The messages of a run of the log, and the server's loop over them.\<close>

definition entry_msg :: "int \<times> kv_Op \<Rightarrow> (kv_Op, kv_gob list) ApplyMsg" where
  "entry_msg m = \<lparr>msg_Index = fst m, msg_Command = Some (snd m), UseSnapshot = False, msg_Snapshot = []\<rparr>"

definition snapshot_msg :: "int \<Rightarrow> kv_gob list \<Rightarrow> (kv_Op, kv_gob list) ApplyMsg" where
  "snapshot_msg i s = \<lparr>msg_Index = i, msg_Command = None, UseSnapshot = True, msg_Snapshot = s\<rparr>"

fun kv_run :: "(kv_Op gob list \<Rightarrow> int) \<Rightarrow> (kv_Op, kv_gob list) ApplyMsg list \<Rightarrow> RaftKV \<Rightarrow> RaftKV option" where
  "kv_run bytes [] kv = Some kv"
| "kv_run bytes (m # ms) kv = do { kv' \<leftarrow> kv_ApplyRoutine bytes m kv; kv_run bytes ms kv' }"

lemma kv_ApplyRoutine_entry:
  assumes "kv_ApplyRoutine bytes (entry_msg (i, op)) kv = Some kv'"
  shows "kv_view kv' = kv_step i op (kv_view kv)"
proof -
  obtain kv1 op1 where a: "kv_apply i op kv = (kv1, op1)" by (cases "kv_apply i op kv")
  from assms obtain kv2 where c: "kv_compact bytes i kv1 = Some kv2" "kv_view kv' = kv_view kv2"
    by (auto simp: kv_ApplyRoutine_def entry_msg_def a kv_view_def split: option.splits bind_splits)
  then show ?thesis using kv_compact_frame(1) [OF c(1)] kv_apply_view [of i op kv] a by simp
qed

lemma kv_ApplyRoutine_snapshot:
  "kv_ApplyRoutine bytes (snapshot_msg i (kv_encode s)) kv = Some (kv_install (kv_view s) kv)"
  by (simp add: kv_ApplyRoutine_def snapshot_msg_def)

lemma kv_run_entries:
  "kv_run bytes (map entry_msg ms) kv = Some kv' \<Longrightarrow>
     kv_view kv' = foldl (\<lambda>d (i, op). kv_step i op d) (kv_view kv) ms"
proof (induction ms arbitrary: kv)
  case (Cons m ms)
  obtain i op where m: "m = (i, op)" by (cases m)
  from Cons.prems obtain kv1 where "kv_ApplyRoutine bytes (entry_msg (i, op)) kv = Some kv1"
    "kv_run bytes (map entry_msg ms) kv1 = Some kv'"
    by (auto simp: m split: bind_splits)
  then show ?case using Cons.IH kv_ApplyRoutine_entry by (simp add: m)
qed simp

lemma run_log_kv_state: "run_log kv_state ms d = Some (foldl (\<lambda>d (i, op). kv_step i op d) d ms)"
proof (induction ms arbitrary: d)
  case (Cons m ms)
  then show ?case by (cases m) (simp add: kv_state_def)
qed simp

definition empty_data :: SnapshotData where
  "empty_data = \<lparr>Store = Map.empty, LastApplied = Map.empty, LastIncludedIndex = 0\<rparr>"

lemma StartKVServer_view: "kv_view (fst (StartKVServer n i ps sz)) = empty_data"
  by (simp add: StartKVServer_def kv_view_def empty_data_def case_prod_beta)

subsection \<open>Theorems\<close>

text \<open>
  C4. Snapshots are consistent with the log. Take a log with increasing positive indices. A server that
  started empty, applied the first \<open>p\<close> entries and then installs the snapshot of a server that had applied
  the first \<open>s\<close> entries is in exactly the state of a server that applied the first \<open>max p s\<close> entries: a
  newer snapshot is taken over whole, an older one is ignored, although the position a snapshot records is
  only that of the last operation that had an effect.
\<close>

theorem kv_snapshot_catches_up:
  assumes "sorted_wrt (<) (map fst ms)" and "\<forall>m \<in> set ms. 0 < fst m"
    and "kv_view kv0 = empty_data" and "kv_view kv1 = empty_data" and "kv_view kv2 = empty_data"
    and "kv_run bytes (map entry_msg (take p ms)) kv0 = Some kvp"
    and "kv_run bytes (map entry_msg (take s ms)) kv1 = Some kvs"
    and "kv_run bytes (map entry_msg (take (max p s) ms)) kv2 = Some kvm"
  shows "map_option kv_view (kv_ApplyRoutine bytes (snapshot_msg i (kv_encode kvs)) kvp) = Some (kv_view kvm)"
proof -
  note v = kv_run_entries [OF assms(6)] kv_run_entries [OF assms(7)] kv_run_entries [OF assms(8)]
  have "\<forall>m \<in> set ms. LastIncludedIndex empty_data < fst m" using assms(2) by (simp add: empty_data_def)
  from kvi.catch_up [OF assms(1) this, of s p] v assms(3-5) show ?thesis
    by (simp add: kv_ApplyRoutine_snapshot kv_install_view)
qed

definition kv_new :: RaftKV where
  "kv_new = fst (StartKVServer 3 0 (MakePersister []) (-1))"

definition put1 :: kv_Op where
  "put1 = \<lparr>kv_Type = ''Put'', kv_ReqId = 1, kv_OpMe = 7, kv_Key = ''x'', kv_Value = ''1''\<rparr>"

definition append_a :: kv_Op where
  "append_a = \<lparr>kv_Type = ''Append'', kv_ReqId = 2, kv_OpMe = 7, kv_Key = ''x'', kv_Value = ''2''\<rparr>"

lemma kv_new_view: "kv_view kv_new = empty_data"
  by (simp add: kv_new_def StartKVServer_view)

text \<open>Without a size limit the loop never asks Raft for a snapshot, and so always goes on.\<close>

lemma kv_run_total_max:
  "maxraftstate kv \<le> 0 \<Longrightarrow>
     \<exists>kv'. kv_run bytes (map entry_msg ms) kv = Some kv' \<and> maxraftstate kv' \<le> 0"
proof (induction ms arbitrary: kv)
  case (Cons m ms)
  obtain kv1 op1 where a: "kv_apply (fst m) (snd m) kv = (kv1, op1)" by (cases "kv_apply (fst m) (snd m) kv")
  then have "maxraftstate kv1 \<le> 0" using Cons.prems kv_apply_frame(3) [of "fst m" "snd m" kv] by simp
  then have "\<exists>kv2. kv_ApplyRoutine bytes (entry_msg m) kv = Some kv2 \<and> maxraftstate kv2 \<le> 0"
    by (auto simp: kv_ApplyRoutine_def entry_msg_def a kv_compact_def split: option.split)
  then show ?case using Cons.IH by fastforce
qed simp

lemma kv_run_total: "maxraftstate kv \<le> 0 \<Longrightarrow> \<exists>kv'. kv_run bytes (map entry_msg ms) kv = Some kv'"
  using kv_run_total_max by blast

lemma kv_new_max: "maxraftstate kv_new \<le> 0"
  by (simp add: kv_new_def StartKVServer_def case_prod_beta)

theorem kv_snapshot_catches_up_witness:
  "\<exists>kvp kvs kvm. kv_run (\<lambda>_. 0) (map entry_msg [(1, put1)]) kv_new = Some kvp \<and>
     kv_run (\<lambda>_. 0) (map entry_msg [(1, put1), (2, append_a)]) kv_new = Some kvs \<and>
     map_option kv_view (kv_ApplyRoutine (\<lambda>_. 0) (snapshot_msg 2 (kv_encode kvs)) kvp) = Some (kv_view kvs)"
proof -
  let ?ms = "[(1, put1), (2, append_a)]"
  obtain kvp where p: "kv_run (\<lambda>_. 0) (map entry_msg (take 1 ?ms)) kv_new = Some kvp"
    using kv_run_total [OF kv_new_max] by blast
  obtain kvs where s: "kv_run (\<lambda>_. 0) (map entry_msg (take 2 ?ms)) kv_new = Some kvs"
    using kv_run_total [OF kv_new_max] by blast
  then have m: "kv_run (\<lambda>_. 0) (map entry_msg (take (max 1 2) ?ms)) kv_new = Some kvs" by simp
  show ?thesis
    using kv_snapshot_catches_up [OF _ _ kv_new_view kv_new_view kv_new_view p s m] p s by simp
qed

text \<open>
  C26. Restart. A server that starts again from the snapshot another run of the log produced is, after the
  first message of Raft, in the state that run had reached.
\<close>

theorem kv_restart:
  assumes "sorted_wrt (<) (map fst ms)" and "\<forall>m \<in> set ms. 0 < fst m"
    and "kv_view kv1 = empty_data" and "kv_run bytes (map entry_msg ms) kv1 = Some kvs"
    and "ReadSnapshot ps = kv_encode kvs" and "StartKVServer n i ps sz = (kv, msg)"
  shows "map_option kv_view (kv_ApplyRoutine bytes msg kv) = Some (kv_view kvs)"
proof -
  have msg: "UseSnapshot msg" "msg_Snapshot msg = kv_encode kvs"
    using assms(5,6) by (auto simp: StartKVServer_def Make_def readPersist_def ReadSnapshot_def Let_def
        case_prod_beta split: option.splits)
  have "kv_view kv = empty_data" using StartKVServer_view [of n i ps sz] assms(6) by simp
  moreover have "\<forall>m \<in> set ms. LastIncludedIndex empty_data < fst m"
    using assms(2) by (simp add: empty_data_def)
  ultimately show ?thesis
    using kvi.catch_up [OF assms(1), of empty_data "length ms" 0] kv_run_entries [OF assms(4)] assms(3) msg
    by (simp add: kv_ApplyRoutine_def kv_install_view)
qed

theorem kv_restart_witness:
  "\<exists>kvs. kv_run (\<lambda>_. 0) (map entry_msg [(1, put1)]) kv_new = Some kvs \<and>
     (case StartKVServer 3 1 \<lparr>raftstate = [], snapshot = kv_encode kvs\<rparr> (-1) of (kv, msg) \<Rightarrow>
        map_option kv_view (kv_ApplyRoutine (\<lambda>_. 0) msg kv) = Some (kv_view kvs))"
proof -
  obtain kvs where s: "kv_run (\<lambda>_. 0) (map entry_msg [(1, put1)]) kv_new = Some kvs"
    using kv_run_total [OF kv_new_max] by blast
  obtain kv msg where k: "StartKVServer 3 1 \<lparr>raftstate = [], snapshot = kv_encode kvs\<rparr> (-1) = (kv, msg)"
    by (cases "StartKVServer 3 1 \<lparr>raftstate = [], snapshot = kv_encode kvs\<rparr> (-1)")
  have "map_option kv_view (kv_ApplyRoutine (\<lambda>_. 0) msg kv) = Some (kv_view kvs)"
    by (rule kv_restart [OF _ _ kv_new_view s _ k]) (simp_all add: ReadSnapshot_def)
  then show ?thesis using s k by simp
qed

text \<open>
  At most once. After a server has applied a sequence of entries, applying any of their operations again,
  at any index and in any order, leaves the store and the duplicate filter as they are.
\<close>

lemma kv_at_most_once:
  assumes "kv_run bytes (map entry_msg ms) kv = Some kv1" and "snd ` set ms' \<subseteq> snd ` set ms"
    and "kv_run bytes (map entry_msg ms') kv1 = Some kv2"
  shows "kv_view kv2 = kv_view kv1"
proof -
  have "run_log kv_state ms (kv_view kv) = Some (kv_view kv1)"
    using kv_run_entries [OF assms(1)] by (simp add: run_log_kv_state)
  from kvd.replay [OF this _ assms(2)] show ?thesis
    using kv_run_entries [OF assms(3)] by (simp add: run_log_kv_state)
qed

text \<open>The operations of a log that take effect: the writes newer than what their client sent before.\<close>

fun effective :: "(int \<rightharpoonup> int) \<Rightarrow> kv_Op list \<Rightarrow> kv_Op list" where
  "effective la [] = []"
| "effective la (op # ops) =
     (if kv_fresh op la then op # effective (la(kv_OpMe op \<mapsto> kv_ReqId op)) ops else effective la ops)"

lemma effective_later:
  "op \<in> set (effective la ops) \<Longrightarrow> la (kv_OpMe op) = Some n \<Longrightarrow> n < kv_ReqId op"
proof (induction ops arbitrary: la n)
  case (Cons x ops)
  define lb where "lb = la(kv_OpMe x \<mapsto> kv_ReqId x)"
  show ?case
  proof (cases "kv_fresh x la \<and> op \<noteq> x")
    case True
    then have op: "op \<in> set (effective lb ops)" using Cons.prems(1) by (simp add: lb_def)
    show ?thesis
    proof (cases "kv_OpMe x = kv_OpMe op")
      case same: True
      then have "lb (kv_OpMe op) = Some (kv_ReqId x)" by (simp add: lb_def)
      from Cons.IH [OF op this] show ?thesis
        using True same Cons.prems(2) by (auto simp: kv_fresh_def)
    next
      case False
      then have "lb (kv_OpMe op) = Some n" using Cons.prems(2) by (simp add: lb_def)
      from Cons.IH [OF op this] show ?thesis .
    qed
  next
    case False
    then show ?thesis using Cons by (auto simp: kv_fresh_def split: if_splits)
  qed
qed simp

lemma effective_distinct: "distinct (map (\<lambda>op. (kv_OpMe op, kv_ReqId op)) (effective la ops))"
proof (induction ops arbitrary: la)
  case (Cons op ops)
  have "(kv_OpMe op, kv_ReqId op) \<notin>
      (\<lambda>op. (kv_OpMe op, kv_ReqId op)) ` set (effective (la(kv_OpMe op \<mapsto> kv_ReqId op)) ops)"
    using effective_later [of _ "la(kv_OpMe op \<mapsto> kv_ReqId op)" ops "kv_ReqId op"] by fastforce
  then show ?case using Cons.IH by simp
qed simp

lemma effective_fold:
  "Store (foldl (\<lambda>d (i, op). kv_step i op d) d ms) =
     foldl (\<lambda>m op. put_append op m) (Store d) (effective (LastApplied d) (map snd ms))"
proof (induction ms arbitrary: d)
  case (Cons m ms)
  obtain i op where m: "m = (i, op)" by (cases m)
  show ?case
  proof (cases "kv_fresh op (LastApplied d)")
    case True
    then have "Store (kv_step i op d) = put_append op (Store d)"
      "LastApplied (kv_step i op d) = (LastApplied d)(kv_OpMe op \<mapsto> kv_ReqId op)"
      by (simp_all add: kv_step_def)
    then show ?thesis using Cons.IH [of "kv_step i op d"] True by (simp only: m foldl.simps prod.case
          list.map snd_conv effective.simps if_True)
  next
    case False
    then have "kv_step i op d = d" by (simp add: kv_step_def)
    then show ?thesis using Cons.IH [of d] False by (simp add: m)
  qed
qed simp

text \<open>
  C18. The store. After any run of entries the store is the result of the puts and appends that took effect,
  in log order, on a plain map; no request, identified by its client and number, takes effect twice.
\<close>

theorem kv_store_refines:
  assumes "kv_run bytes (map entry_msg ms) kv = Some kv'"
  shows "kv_store kv' = foldl (\<lambda>m op. put_append op m) (kv_store kv)
      (effective (kv_lastApplied kv) (map snd ms)) \<and>
    distinct (map (\<lambda>op. (kv_OpMe op, kv_ReqId op)) (effective (kv_lastApplied kv) (map snd ms)))"
  using arg_cong [OF kv_run_entries [OF assms], of Store] effective_distinct
  by (simp add: effective_fold)

theorem kv_store_refines_witness:
  "\<exists>kv'. kv_run (\<lambda>_. 0) (map entry_msg [(1, put1), (2, append_a), (3, append_a)]) kv_new = Some kv' \<and>
     kv_store kv' ''x'' = Some ''12''"
proof -
  obtain kv' where r: "kv_run (\<lambda>_. 0) (map entry_msg [(1, put1), (2, append_a), (3, append_a)]) kv_new = Some kv'"
    using kv_run_total [OF kv_new_max] by blast
  have "kv_store kv_new = Map.empty" "kv_lastApplied kv_new = Map.empty"
    using kv_new_view by (simp_all add: kv_view_eq_iff empty_data_def)
  then have "kv_store kv' ''x'' = Some ''12''"
    using kv_store_refines [OF r] by (simp add: put1_def append_a_def kv_fresh_def put_append_def)
  then show ?thesis using r by blast
qed

subsection \<open>A read and its answer\<close>

text \<open>
  What a server does, section by section: it applies a message, a request registers, receives or times out,
  and its Raft peer runs. A section carries the index it is about and the channel it reads, if any.
\<close>

inductive kv_section :: "(kv_Op gob list \<Rightarrow> int) \<Rightarrow> int option \<Rightarrow> nat option \<Rightarrow> RaftKV \<Rightarrow> RaftKV \<Rightarrow> bool" for bytes where
  applies: "\<not> UseSnapshot msg \<Longrightarrow> kv_ApplyRoutine bytes msg kv = Some kv' \<Longrightarrow>
     kv_section bytes (Some (msg_Index msg)) None kv kv'"
| installs: "UseSnapshot msg \<Longrightarrow> kv_ApplyRoutine bytes msg kv = Some kv' \<Longrightarrow> kv_section bytes None None kv kv'"
| registers: "kv_wait_register i kv = (kv', c) \<Longrightarrow> kv_section bytes (Some i) None kv kv'"
| receives: "kv_wait_receive op i c kv = Some (res, kv') \<Longrightarrow> kv_section bytes (Some i) (Some c) kv kv'"
| times_out: "kv_wait_timeout op i kv = (res, kv') \<Longrightarrow> kv_section bytes (Some i) None kv kv'"
| raft_runs: "kv_section bytes None None kv (kv\<lparr>kv_rf := rf'\<rparr>)"

definition kv_runs :: "(kv_Op gob list \<Rightarrow> int) \<Rightarrow> RaftKV \<Rightarrow> RaftKV \<Rightarrow> bool" where
  "kv_runs bytes kv kv' \<longleftrightarrow> (\<exists>i c. kv_section bytes i c kv kv')"

text \<open>Sections that neither concern index \<open>idx\<close> nor read channel \<open>ch\<close>.\<close>

definition kv_other :: "(kv_Op gob list \<Rightarrow> int) \<Rightarrow> int \<Rightarrow> nat \<Rightarrow> RaftKV \<Rightarrow> RaftKV \<Rightarrow> bool" where
  "kv_other bytes idx ch kv kv' \<longleftrightarrow> (\<exists>i c. kv_section bytes i c kv kv' \<and> i \<noteq> Some idx \<and> c \<noteq> Some ch)"

text \<open>The message of an entry does to the waiting requests what \<open>notify\<close> does.\<close>

lemma kv_ApplyRoutine_notifies:
  assumes "kv_ApplyRoutine bytes msg kv = Some kv'" and "\<not> UseSnapshot msg"
  obtains op kv1 op1 where "msg_Command msg = Some op" "kv_apply (msg_Index msg) op kv = (kv1, op1)"
    "kv_waiting kv' = notify (msg_Index msg) op1 (kv_waiting kv)"
proof -
  obtain op where op: "msg_Command msg = Some op"
    using assms by (auto simp: kv_ApplyRoutine_def split: bind_splits)
  obtain kv1 op1 where a: "kv_apply (msg_Index msg) op kv = (kv1, op1)" by (cases "kv_apply (msg_Index msg) op kv")
  have w: "kv_waiting kv1 = kv_waiting kv" using kv_apply_frame(2) [of "msg_Index msg" op kv] a by simp
  have "kv_waiting kv' = notify (msg_Index msg) op1 (kv_waiting kv)"
    using assms kv_compact_frame(2) w
    by (auto simp: kv_ApplyRoutine_def op a notify_def split: bind_splits option.splits)
  then show thesis by (rule that [OF op a])
qed

lemma kv_wait_register_waiting:
  "kv_wait_register i kv = (kv', c) \<Longrightarrow> register i (kv_waiting kv) = (kv_waiting kv', c)"
  by (auto simp: kv_wait_register_def case_prod_beta Let_def)

lemma kv_install_waiting: "UseSnapshot msg \<Longrightarrow> kv_ApplyRoutine bytes msg kv = Some kv' \<Longrightarrow> kv_waiting kv' = kv_waiting kv"
  by (auto simp: kv_ApplyRoutine_def kv_install_def split: option.splits if_splits)

text \<open>No channel is ever in the table for two indices.\<close>

lemma kv_section_waiting_ok:
  assumes "kv_section bytes i c kv kv'" and ok: "waiting_ok (kv_waiting kv)"
  shows "waiting_ok (kv_waiting kv')"
  using assms(1)
proof cases
  case (applies msg)
  from kv_ApplyRoutine_notifies [OF applies(4,3)] show ?thesis using waiting_ok_steps(3) [OF ok] by metis
next
  case (installs msg)
  then show ?thesis using kv_install_waiting ok by metis
next
  case (registers i c)
  then show ?thesis using waiting_ok_steps(2) [OF ok, of i] kv_wait_register_waiting [OF registers(3)] by simp
next
  case (receives op i c res)
  then show ?thesis using waiting_ok_steps(4) [OF ok]
    by (auto simp: kv_wait_receive_def split: bind_splits)
next
  case (times_out op i res)
  then show ?thesis using waiting_ok_steps(5) [OF ok] by (auto simp: kv_wait_timeout_def)
next
  case (raft_runs rf')
  then show ?thesis using ok by simp
qed

lemma kv_started_waiting_ok:
  assumes "(kv_runs bytes)\<^sup>*\<^sup>* (fst (StartKVServer n srv ps maxsize)) kv"
  shows "waiting_ok (kv_waiting kv)"
  using assms
proof (induction rule: rtranclp_induct)
  case base
  then show ?case using waiting_ok_steps(1) by (simp add: StartKVServer_def split: prod.split)
next
  case (step k k')
  then show ?case using kv_section_waiting_ok by (auto simp: kv_runs_def)
qed

text \<open>The channel of a registered request, and what is in it, while others go about their business.\<close>

definition waits :: "int \<Rightarrow> nat \<Rightarrow> kv_Op option \<Rightarrow> RaftKV \<Rightarrow> bool" where
  "waits idx ch b kv \<longleftrightarrow> waiting_ok (kv_waiting kv) \<and> results (kv_waiting kv) idx = Some ch \<and> buffers (kv_waiting kv) ch = b"

lemma waits_other:
  assumes "kv_other bytes idx ch kv kv'" and w: "waits idx ch b kv"
  shows "waits idx ch b kv'"
proof -
  obtain i c where s: "kv_section bytes i c kv kv'" "i \<noteq> Some idx" "c \<noteq> Some ch"
    using assms(1) by (auto simp: kv_other_def)
  have ok: "waiting_ok (kv_waiting kv')"
    using kv_section_waiting_ok [OF s(1)] w by (simp add: waits_def)
  have own: "results (kv_waiting kv) k \<noteq> Some ch" if "k \<noteq> idx" for k
    using w that unfolding waits_def waiting_ok_def by blast
  have used: "ch < fresh (kv_waiting kv)" using w unfolding waits_def waiting_ok_def by blast
  from s(1) have "results (kv_waiting kv') idx = Some ch \<and> buffers (kv_waiting kv') ch = b"
  proof cases
    case (applies msg)
    obtain op1 where "kv_waiting kv' = notify (msg_Index msg) op1 (kv_waiting kv)"
      using kv_ApplyRoutine_notifies [OF applies(4,3)] by metis
    then show ?thesis using own [of "msg_Index msg"] s(2) applies(1) w
      by (auto simp: waits_def notify_def split: option.splits)
  next
    case (installs msg)
    then show ?thesis using kv_install_waiting w by (metis waits_def)
  next
    case (registers i c)
    then show ?thesis using kv_wait_register_waiting [OF registers(3)] s(2) used w
      by (auto simp: waits_def register_def dest!: sym [of _ "kv_waiting kv'"])
  next
    case (receives op i c res)
    then show ?thesis using s(2,3) w
      by (auto simp: kv_wait_receive_def receive_def waits_def split: bind_splits option.splits)
  next
    case (times_out op i res)
    then show ?thesis using s(2) w by (auto simp: kv_wait_timeout_def give_up_def waits_def)
  next
    case (raft_runs rf')
    then show ?thesis using w by (simp add: waits_def)
  qed
  then show ?thesis using ok by (simp add: waits_def)
qed

lemma waits_others: "(kv_other bytes idx ch)\<^sup>*\<^sup>* kv kv' \<Longrightarrow> waits idx ch b kv \<Longrightarrow> waits idx ch b kv'"
  by (induction rule: rtranclp_induct) (auto intro: waits_other)

lemma registered_waits:
  assumes "kv_wait_register idx kv = (k1, ch)" and "waiting_ok (kv_waiting kv)"
  shows "waits idx ch None k1"
  using waiting_ok_steps(2) [OF assms(2), of idx] kv_wait_register_waiting [OF assms(1)]
  by (auto simp: waits_def register_def dest!: sym [of _ "kv_waiting k1"])


lemma waits_receive:
  "waits idx ch b kv \<Longrightarrow> kv_wait_receive op idx ch kv =
     map_option (\<lambda>ap. ((kv_isSameOp op ap, ap), kv\<lparr>kv_waiting := snd (the (receive idx ch (kv_waiting kv)))\<rparr>)) b"
  by (cases b) (simp_all add: waits_def kv_wait_receive_def receive_def)




text \<open>
  Registration comes too late. \<^verbatim>\<open>waitAppliedOrTimeout\<close> calls \<^verbatim>\<open>Start\<close> first and registers its channel
  afterwards. If the entry is applied in between, the channel gets nothing whatever else the server does, and
  the request waits for its timer and answers that this is the wrong leader.
\<close>

lemma late_registration:
  assumes "(kv_runs bytes)\<^sup>*\<^sup>* (fst (StartKVServer n srv ps maxsize)) kv"
    and "kv_wait_register idx kv = (k1, ch)" and "(kv_other bytes idx ch)\<^sup>*\<^sup>* k1 k2"
  shows "kv_wait_receive op idx ch k2 = None"
  using waits_others [OF assms(3) registered_waits [OF assms(2) kv_started_waiting_ok [OF assms(1)]]]
  by (simp add: waits_receive)

subsection \<open>The clerk\<close>

lemma nextLeader_funpow:
  assumes "0 \<le> ck_leader ck" "ck_leader ck < int (ck_servers ck)"
  shows "(nextLeader ^^ k) ck = ck\<lparr>ck_leader := (ck_leader ck + int k) mod int (ck_servers ck)\<rparr>"
proof (induction k)
  case (Suc k)
  then show ?case by (simp add: nextLeader_def mod_add_left_eq) (simp add: ac_simps)
qed (use assms in simp)

lemma kv_retry_skip:
  assumes "\<forall>out \<in> set fs. refused wrong out" "0 \<le> ck_leader ck" "ck_leader ck < int (ck_servers ck)"
  shows "kv_retry wrong ck (fs @ outs) = kv_retry wrong ((nextLeader ^^ length fs) ck) outs"
  using assms
proof (induction fs arbitrary: ck)
  case (Cons f fs)
  have "0 \<le> ck_leader (nextLeader ck)" "ck_leader (nextLeader ck) < int (ck_servers (nextLeader ck))"
    using Cons.prems(2,3) by (simp_all add: nextLeader_def)
  with Cons show ?case
    by (auto simp: getLeader_def refused_def funpow_swap1 split: option.split)
qed simp

text \<open>
  C37. The clerk's loop. With at least one server and its leader index in range, as after \<^verbatim>\<open>MakeClerk\<close>, the
  clerk never indexes its servers out of range. It returns exactly when some attempt is answered by a
  leader, with the first such answer, and remembers the server that gave it: the one it started with
  plus the number of failed attempts, round the ring of servers.
\<close>

theorem kv_clerk_returns:
  assumes "0 \<le> ck_leader ck" and "ck_leader ck < int (ck_servers ck)"
  shows "case kv_retry wrong ck outs of
     Inl _ \<Rightarrow> False
   | Inr None \<Rightarrow> length (takeWhile (refused wrong) outs) = length outs
   | Inr (Some (r, ck')) \<Rightarrow> (let k = length (takeWhile (refused wrong) outs) in
       k < length outs \<and> outs ! k = Some r \<and> \<not> wrong r \<and>
       ck' = ck\<lparr>ck_leader := (ck_leader ck + int k) mod int (ck_servers ck)\<rparr>)"
proof (cases rule: split_refused [of outs wrong])
  case 1
  then show ?thesis using kv_retry_skip [OF 1(1) assms, of "[]"] by simp
next
  case (2 fs r rest)
  have n: "0 < int (ck_servers ck)" using assms by simp
  have b: "\<not> int (ck_servers ck) \<le> x mod int (ck_servers ck)" "\<not> x mod int (ck_servers ck) < 0" for x
    using pos_mod_bound [OF n] pos_mod_sign [OF n] by (simp_all only: not_le not_less)
  have "kv_retry wrong ck outs = kv_retry wrong ((nextLeader ^^ length fs) ck) (Some r # rest)"
    using kv_retry_skip [OF 2(2) assms] 2(1) by simp
  also have "\<dots> = Inr (Some (r, (nextLeader ^^ length fs) ck))"
    using 2(3) n b by (simp add: nextLeader_funpow [OF assms] getLeader_def)
  finally have ret: "kv_retry wrong ck outs = Inr (Some (r, (nextLeader ^^ length fs) ck))" .
  have "outs ! length fs = Some r" "length fs < length outs" using 2(1) by simp_all
  then show ?thesis
    using ret 2(3) nextLeader_funpow [OF assms, of "length fs"] unfolding 2(4) by (simp add: Let_def)
qed

theorem kv_clerk_returns_witness:
  "case kv_retry WrongLeader (kv_MakeClerk 3 99)
      [None, Some \<lparr>WrongLeader = True, Err = []\<rparr>, Some \<lparr>WrongLeader = False, Err = ''OK''\<rparr>] of
     Inr (Some (r, ck')) \<Rightarrow> ck_leader ck' = 2
   | _ \<Rightarrow> False"
proof -
  have "case kv_retry WrongLeader ck outs of Inr (Some (r, ck')) \<Rightarrow> ck_leader ck' = 2 | _ \<Rightarrow> False"
    if "length (takeWhile (refused WrongLeader) outs) = 2" "length outs = 3"
      "ck_leader ck = 0" "ck_servers ck = 3" for ck and outs :: "PutAppendReply option list"
    using kv_clerk_returns [of ck WrongLeader outs] that
    by (auto simp: Let_def split: sum.splits option.splits)
  then show ?thesis by (simp add: refused_def kv_MakeClerk_def del: kv_retry.simps)
qed

end
