(* ===== verification/Shard_Master.thy ===== *)
theory Shard_Master
  imports Service_Prelude "HOL-Library.AList"
begin

text \<open>
  The shard master (\<^verbatim>\<open>src/src/shardmaster/server.go\<close>, \<^verbatim>\<open>common.go\<close>, \<^verbatim>\<open>client.go\<close>): configurations, the
  rebalancing of shards over groups, the replicated state machine that numbers configurations, its
  request handlers and its clerk.

  A Go map is an association list in the order its iteration happens to take; the theory
  \<open>Shard_Rebalance\<close> proves that no result depends on that order. A map that is only indexed, as \<^verbatim>\<open>count\<close> in
  \<^verbatim>\<open>Rebalance\<close>, is a function that is 0 where the map has no entry.
\<close>

subsection \<open>Configurations\<close>

definition NShards :: nat where
  "NShards = 10"

record Config =
  Num :: int
  Shards :: "int list"
  Groups :: "(int \<times> string list) list"

text \<open>\<^verbatim>\<open>Copy\<close> fills a new map entry by entry; slices and arrays are values in the model.\<close>

definition Config_Copy :: "Config \<Rightarrow> Config" where
  "Config_Copy c = \<lparr>Num = Num c, Shards = Shards c,
     Groups = foldl (\<lambda>m (gid, servers). AList.update gid servers m) [] (Groups c)\<rparr>"

subsection \<open>Rebalancing\<close>

definition target :: "nat \<Rightarrow> nat \<Rightarrow> int" where
  "target n i = (if i < NShards mod n then int (NShards div n) + 1 else int (NShards div n))"

text \<open>The state of \<^verbatim>\<open>Rebalance\<close>'s loops: \<^verbatim>\<open>count\<close>, \<^verbatim>\<open>config.Shards\<close>, \<^verbatim>\<open>pool\<close>.\<close>

record rebalancing =
  cnt :: "int \<Rightarrow> int"
  shs :: "int list"
  pool :: "nat list"

text \<open>Step 2: count the valid assignments and collect the shards without an owner.\<close>

definition scan_shard :: "int list \<Rightarrow> rebalancing \<Rightarrow> nat \<Rightarrow> rebalancing" where
  "scan_shard gids st s =
     (let gid = shs st ! s in
      if gid \<notin> set gids then st\<lparr>pool := pool st @ [s]\<rparr>
      else st\<lparr>cnt := (cnt st)(gid := cnt st gid + 1)\<rparr>)"

definition scan :: "int list \<Rightarrow> int list \<Rightarrow> rebalancing" where
  "scan gids shards =
     foldl (scan_shard gids) \<lparr>cnt = (\<lambda>_. 0), shs = shards, pool = []\<rparr> [0..<NShards]"

text \<open>Step 3: a group above its target gives away its highest shards.\<close>

fun last_of :: "int \<Rightarrow> int list \<Rightarrow> nat \<Rightarrow> nat option" where
  "last_of gid shards 0 = None"
| "last_of gid shards (Suc s) = (if shards ! s = gid then Some s else last_of gid shards s)"

function donate :: "int \<Rightarrow> int \<Rightarrow> rebalancing \<Rightarrow> rebalancing" where
  "donate gid t st =
     (if cnt st gid > t then
        let st1 = st\<lparr>cnt := (cnt st)(gid := cnt st gid - 1)\<rparr> in
        donate gid t
          (case last_of gid (shs st1) NShards of
             None \<Rightarrow> st1
           | Some s \<Rightarrow> st1\<lparr>shs := (shs st1)[s := 0], pool := pool st1 @ [s]\<rparr>)
      else st)"
  by pat_completeness auto
termination
  by (relation "measure (\<lambda>(gid, t, st). nat (cnt st gid - t))") (auto split: option.split)

declare donate.simps [simp del]

fun donate_all :: "nat \<Rightarrow> nat \<Rightarrow> int list \<Rightarrow> rebalancing \<Rightarrow> rebalancing" where
  "donate_all n i [] st = st"
| "donate_all n i (gid # gids) st = donate_all n (Suc i) gids (donate gid (target n i) st)"

text \<open>Step 4: who needs shards. The loop runs \<^verbatim>\<open>target(i) - count[gid]\<close> times.\<close>

function needy :: "int \<Rightarrow> int \<Rightarrow> (int \<Rightarrow> int) \<times> int list \<Rightarrow> (int \<Rightarrow> int) \<times> int list" where
  "needy gid t (c, need) =
     (if c gid < t then needy gid t (c(gid := c gid + 1), need @ [gid]) else (c, need))"
  by pat_completeness auto
termination
  by (relation "measure (\<lambda>(gid, t, c, need). nat (t - c gid))") auto

declare needy.simps [simp del]

fun needy_all :: "nat \<Rightarrow> nat \<Rightarrow> int list \<Rightarrow> (int \<Rightarrow> int) \<times> int list \<Rightarrow> (int \<Rightarrow> int) \<times> int list" where
  "needy_all n i [] cn = cn"
| "needy_all n i (gid # gids) cn = needy_all n (Suc i) gids (needy gid (target n i) cn)"

text \<open>Step 5: give the pooled shards, in order, to the needy groups; \<^verbatim>\<open>need[i]\<close> may panic.\<close>

fun assign :: "nat \<Rightarrow> nat list \<Rightarrow> int list \<Rightarrow> int list \<Rightarrow> int list option" where
  "assign i [] need shards = Some shards"
| "assign i (s # ss) need shards =
     do { g \<leftarrow> go_index need (int i);
          shards' \<leftarrow> go_set shards (int s) g;
          assign (Suc i) ss need shards' }"

definition Rebalance :: "Config \<Rightarrow> Config option" where
  "Rebalance c =
     (if length (Groups c) = 0 then Some (c\<lparr>Shards := replicate NShards 0\<rparr>)
      else do {
        let gids = sort (map fst (Groups c));
        let n = length gids;
        let st = donate_all n 0 gids (scan gids (Shards c));
        let (_, need) = needy_all n 0 gids (cnt st, []);
        shards \<leftarrow> assign 0 (sort (pool st)) need (shs st);
        Some (c\<lparr>Shards := shards\<rparr>) })"

subsection \<open>The server\<close>

record sm_Op =
  op_Type :: string
  op_ReqId :: int
  op_Me :: int
  op_Servers :: "(int \<times> string list) list"
  op_GIDs :: "int list"
  op_Shard :: int
  op_GID :: int
  op_Num :: int
  op_config :: Config

record 'b ShardMaster =
  sm_me :: int
  sm_rf :: "(sm_Op, 'b) Raft"
  sm_lastApplied :: "int \<rightharpoonup> int"
  sm_lastIncludedIndex :: int
  sm_waiting :: "sm_Op waiting"
  configs :: "Config list"

definition sm_isSameOp :: "sm_Op \<Rightarrow> sm_Op \<Rightarrow> bool" where
  "sm_isSameOp op1 op2 \<longleftrightarrow>
     op_Type op1 = op_Type op2 \<and> op_ReqId op1 = op_ReqId op2 \<and> op_Me op1 = op_Me op2"

definition latest :: "'b ShardMaster \<Rightarrow> Config option" where
  "latest sm = go_index (configs sm) (int (length (configs sm)) - 1)"

definition handleJoin :: "sm_Op \<Rightarrow> 'b ShardMaster \<Rightarrow> Config option" where
  "handleJoin op sm =
     do { prevConfig \<leftarrow> latest sm;
          let newConfig = Config_Copy prevConfig;
          Some (newConfig\<lparr>Groups :=
            foldl (\<lambda>m (gid, server). AList.update gid server m) (Groups newConfig) (op_Servers op)\<rparr>) }"

definition handleLeave :: "sm_Op \<Rightarrow> 'b ShardMaster \<Rightarrow> Config option" where
  "handleLeave op sm =
     do { prevConfig \<leftarrow> latest sm;
          let newConfig = Config_Copy prevConfig;
          Some (newConfig\<lparr>Groups := foldl (\<lambda>m gid. AList.delete gid m) (Groups newConfig) (op_GIDs op)\<rparr>) }"

definition handleMove :: "sm_Op \<Rightarrow> 'b ShardMaster \<Rightarrow> Config option" where
  "handleMove op sm =
     do { prevConfig \<leftarrow> latest sm;
          let newConfig = Config_Copy prevConfig;
          shards \<leftarrow> go_set (Shards newConfig) (op_Shard op) (op_GID op);
          Some (newConfig\<lparr>Shards := shards\<rparr>) }"

definition handleQuery :: "sm_Op \<Rightarrow> 'b ShardMaster \<Rightarrow> sm_Op option" where
  "handleQuery op sm =
     (if op_Num op < 0 \<or> op_Num op \<ge> int (length (configs sm))
      then map_option (\<lambda>c. op\<lparr>op_config := Config_Copy c\<rparr>) (latest sm)
      else map_option (\<lambda>c. op\<lparr>op_config := Config_Copy c\<rparr>) (go_index (configs sm) (op_Num op)))"

definition isDuplicateOp :: "sm_Op \<Rightarrow> int \<Rightarrow> 'b ShardMaster \<Rightarrow> bool \<times> 'b ShardMaster" where
  "isDuplicateOp op idx sm =
     (if (case sm_lastApplied sm (op_Me op) of None \<Rightarrow> True | Some lastIdx \<Rightarrow> lastIdx < op_ReqId op)
      then (False, sm\<lparr>sm_lastApplied := (sm_lastApplied sm)(op_Me op \<mapsto> op_ReqId op),
                      sm_lastIncludedIndex := idx\<rparr>)
      else (True, sm))"

text \<open>\<^verbatim>\<open>newConfig.Num = sm.configs[len-1].Num + 1\<close>, then append.\<close>

definition appendConfig :: "Config \<Rightarrow> 'b ShardMaster \<Rightarrow> 'b ShardMaster" where
  "appendConfig c sm = sm\<lparr>configs := configs sm @ [c]\<rparr>"

text \<open>The locked part of \<^verbatim>\<open>ApplyRoutine\<close>: the new state and the operation it sends to the waiter.\<close>

definition sm_apply :: "int \<Rightarrow> sm_Op \<Rightarrow> 'b ShardMaster \<Rightarrow> ('b ShardMaster \<times> sm_Op) option" where
  "sm_apply idx op sm =
     (case (if op_Type op \<noteq> ''Query'' then isDuplicateOp op idx sm else (False, sm)) of
        (True, sm1) \<Rightarrow> Some (sm1, op)
      | (False, sm1) \<Rightarrow>
          if op_Type op = ''Join'' then
            do { newConfig \<leftarrow> handleJoin op sm1;
                 prev \<leftarrow> latest sm1;
                 balanced \<leftarrow> Rebalance (newConfig\<lparr>Num := Num prev + 1\<rparr>);
                 Some (appendConfig balanced sm1, op) }
          else if op_Type op = ''Leave'' then
            do { newConfig \<leftarrow> handleLeave op sm1;
                 prev \<leftarrow> latest sm1;
                 balanced \<leftarrow> Rebalance (newConfig\<lparr>Num := Num prev + 1\<rparr>);
                 Some (appendConfig balanced sm1, op) }
          else if op_Type op = ''Move'' then
            do { newConfig \<leftarrow> handleMove op sm1;
                 prev \<leftarrow> latest sm1;
                 Some (appendConfig (newConfig\<lparr>Num := Num prev + 1\<rparr>) sm1, op) }
          else if op_Type op = ''Query'' then
            do { op' \<leftarrow> handleQuery op sm1; Some (sm1, op') }
          else Some (sm1, op))"

text \<open>One message of \<^verbatim>\<open>ApplyRoutine\<close>. A snapshot is ignored; a message without a command panics at
  the type assertion.\<close>

definition sm_ApplyRoutine :: "(sm_Op, 'b) ApplyMsg \<Rightarrow> 'b ShardMaster \<Rightarrow> 'b ShardMaster option" where
  "sm_ApplyRoutine msg sm =
     (if UseSnapshot msg then Some sm
      else do {
        op \<leftarrow> msg_Command msg;
        (sm1, op1) \<leftarrow> sm_apply (msg_Index msg) op sm;
        Some (sm1\<lparr>sm_waiting := notify (msg_Index msg) op1 (sm_waiting sm1)\<rparr>) })"

text \<open>
  \<^verbatim>\<open>waitAppliedOrTimeout\<close> before it blocks: \<open>Start\<close>, and for a leader the registration of a channel.
  The two are separate critical sections; \<open>ApplyRoutine\<close> may run in between.
\<close>

definition sm_wait_start ::
  "sm_Op \<Rightarrow> 'b ShardMaster \<Rightarrow> ('b ShardMaster \<times> int option \<times> sm_Op goroutine list) option" where
  "sm_wait_start op sm =
     do { (rf', (idx, _, leader), gs) \<leftarrow> Start (sm_rf sm) op;
          Some (sm\<lparr>sm_rf := rf'\<rparr>, (if leader then Some idx else None), gs) }"

definition sm_wait_register :: "int \<Rightarrow> 'b ShardMaster \<Rightarrow> 'b ShardMaster \<times> nat" where
  "sm_wait_register idx sm =
     (let (ws, ch) = register idx (sm_waiting sm) in (sm\<lparr>sm_waiting := ws\<rparr>, ch))"

text \<open>Its two ends: the channel delivered, or \<open>applyWaitTimeout\<close> passed.\<close>

definition sm_wait_receive ::
  "sm_Op \<Rightarrow> int \<Rightarrow> nat \<Rightarrow> 'b ShardMaster \<Rightarrow> ((bool \<times> sm_Op) \<times> 'b ShardMaster) option" where
  "sm_wait_receive op idx ch sm =
     do { (appliedOp, ws) \<leftarrow> receive idx ch (sm_waiting sm);
          Some ((sm_isSameOp op appliedOp, appliedOp), sm\<lparr>sm_waiting := ws\<rparr>) }"

definition sm_wait_timeout :: "sm_Op \<Rightarrow> int \<Rightarrow> 'b ShardMaster \<Rightarrow> (bool \<times> sm_Op) \<times> 'b ShardMaster" where
  "sm_wait_timeout op idx sm = ((False, op), sm\<lparr>sm_waiting := give_up idx (sm_waiting sm)\<rparr>)"

subsection \<open>Request handlers\<close>

definition zero_Config :: Config where
  "zero_Config = \<lparr>Num = 0, Shards = replicate NShards 0, Groups = []\<rparr>"

definition zero_Op :: sm_Op where
  "zero_Op = \<lparr>op_Type = [], op_ReqId = 0, op_Me = 0, op_Servers = [], op_GIDs = [], op_Shard = 0,
     op_GID = 0, op_Num = 0, op_config = zero_Config\<rparr>"

record JoinArgs =
  join_Servers :: "(int \<times> string list) list"
  join_Id :: int
  join_Me :: int

record LeaveArgs =
  leave_GIDs :: "int list"
  leave_Id :: int
  leave_Me :: int

record MoveArgs =
  move_Shard :: int
  move_GID :: int
  move_Id :: int
  move_Me :: int

record QueryArgs =
  query_Num :: int
  query_Id :: int
  query_Me :: int

text \<open>\<^verbatim>\<open>JoinReply\<close>, \<^verbatim>\<open>LeaveReply\<close> and \<^verbatim>\<open>MoveReply\<close> have the same fields.\<close>

record sm_Reply =
  sm_WrongLeader :: bool
  sm_Err :: string

record QueryReply = sm_Reply +
  query_Config :: Config

definition Join_op :: "JoinArgs \<Rightarrow> sm_Op" where
  "Join_op args = zero_Op\<lparr>op_Type := ''Join'', op_ReqId := join_Id args,
     op_Servers := join_Servers args, op_Me := join_Me args\<rparr>"

definition Leave_op :: "LeaveArgs \<Rightarrow> sm_Op" where
  "Leave_op args = zero_Op\<lparr>op_Type := ''Leave'', op_ReqId := leave_Id args,
     op_GIDs := leave_GIDs args, op_Me := leave_Me args\<rparr>"

definition Move_op :: "MoveArgs \<Rightarrow> sm_Op" where
  "Move_op args = zero_Op\<lparr>op_Type := ''Move'', op_ReqId := move_Id args,
     op_Shard := move_Shard args, op_GID := move_GID args, op_Me := move_Me args\<rparr>"

definition Query_op :: "QueryArgs \<Rightarrow> sm_Op" where
  "Query_op args = zero_Op\<lparr>op_Type := ''Query'', op_ReqId := query_Id args,
     op_Num := query_Num args, op_Me := query_Me args\<rparr>"

text \<open>The reply from what \<^verbatim>\<open>waitAppliedOrTimeout\<close> returned.\<close>

definition Join_reply :: "bool \<times> sm_Op \<Rightarrow> sm_Reply" where
  "Join_reply res =
     (if \<not> fst res then \<lparr>sm_WrongLeader = True, sm_Err = ''WrongLeader''\<rparr>
      else \<lparr>sm_WrongLeader = False, sm_Err = ''OK''\<rparr>)"

definition Leave_reply :: "bool \<times> sm_Op \<Rightarrow> sm_Reply" where
  "Leave_reply res =
     (if \<not> fst res then \<lparr>sm_WrongLeader = True, sm_Err = ''WrongLeader''\<rparr>
      else \<lparr>sm_WrongLeader = False, sm_Err = ''OK''\<rparr>)"

definition Move_reply :: "bool \<times> sm_Op \<Rightarrow> sm_Reply" where
  "Move_reply res =
     (if \<not> fst res then \<lparr>sm_WrongLeader = True, sm_Err = ''WrongLeader''\<rparr>
      else \<lparr>sm_WrongLeader = False, sm_Err = ''OK''\<rparr>)"

definition Query_reply :: "bool \<times> sm_Op \<Rightarrow> QueryReply" where
  "Query_reply res =
     (if \<not> fst res
      then \<lparr>sm_WrongLeader = True, sm_Err = ''WrongLeader'', query_Config = zero_Config\<rparr>
      else \<lparr>sm_WrongLeader = False, sm_Err = ''OK'', query_Config = op_config (snd res)\<rparr>)"

definition sm_Kill :: "'b ShardMaster \<Rightarrow> 'b ShardMaster" where
  "sm_Kill sm = sm\<lparr>sm_rf := Kill (sm_rf sm)\<rparr>"

definition sm_StartServer :: "nat \<Rightarrow> int \<Rightarrow> (sm_Op, 'b) Persister \<Rightarrow>
    'b ShardMaster \<times> (sm_Op, 'b) ApplyMsg" where
  "sm_StartServer n i ps =
     (case Make n i ps of (rf, msg) \<Rightarrow>
        (\<lparr>sm_me = i, sm_rf = rf, sm_lastApplied = Map.empty, sm_lastIncludedIndex = 0,
          sm_waiting = no_waiting, configs = [zero_Config]\<rparr>, msg))"

subsection \<open>The clerk\<close>

record sm_Clerk =
  smck_servers :: nat
  smck_clientId :: int
  smck_id :: int

definition sm_MakeClerk :: "nat \<Rightarrow> int \<Rightarrow> sm_Clerk" where
  "sm_MakeClerk n rand = \<lparr>smck_servers = n, smck_clientId = rand, smck_id = 0\<rparr>"

text \<open>
  The retry loop over what the network answers: each attempt goes to the next server in turn and its
  outcome is \<open>None\<close> when \<^verbatim>\<open>Call\<close> returns false. The result is the first reply of a leader with the
  number of the attempt, or \<open>None\<close> when the clerk is still trying after these outcomes.
\<close>

fun sm_retry :: "nat \<Rightarrow> ('r \<Rightarrow> bool) \<Rightarrow> 'r option list \<Rightarrow> ('r \<times> nat) option" where
  "sm_retry k wrong [] = None"
| "sm_retry k wrong (out # outs) =
     (case out of
        Some reply \<Rightarrow> if \<not> wrong reply then Some (reply, k) else sm_retry (Suc k) wrong outs
      | None \<Rightarrow> sm_retry (Suc k) wrong outs)"

text \<open>
  A request: its arguments, the clerk's identity and its next number, are built once, before the loop;
  every attempt sends the same ones.
\<close>

definition sm_next :: "sm_Clerk \<Rightarrow> sm_Clerk" where
  "sm_next ck = ck\<lparr>smck_id := smck_id ck + 1\<rparr>"

definition Clerk_Query :: "int \<Rightarrow> sm_Clerk \<Rightarrow> QueryReply option list \<Rightarrow>
    QueryArgs \<times> sm_Clerk \<times> Config option" where
  "Clerk_Query num ck outs = (let ck' = sm_next ck in
     (\<lparr>query_Num = num, query_Id = smck_id ck', query_Me = smck_clientId ck'\<rparr>, ck',
      map_option (\<lambda>(r, k). query_Config r) (sm_retry 0 sm_WrongLeader outs)))"

text \<open>The other three return nothing; \<open>Some ()\<close> is the return.\<close>

definition Clerk_Join :: "(int \<times> string list) list \<Rightarrow> sm_Clerk \<Rightarrow> sm_Reply option list \<Rightarrow>
    JoinArgs \<times> sm_Clerk \<times> unit option" where
  "Clerk_Join servers ck outs = (let ck' = sm_next ck in
     (\<lparr>join_Servers = servers, join_Id = smck_id ck', join_Me = smck_clientId ck'\<rparr>, ck',
      map_option (\<lambda>_. ()) (sm_retry 0 sm_WrongLeader outs)))"

definition Clerk_Leave :: "int list \<Rightarrow> sm_Clerk \<Rightarrow> sm_Reply option list \<Rightarrow>
    LeaveArgs \<times> sm_Clerk \<times> unit option" where
  "Clerk_Leave gids ck outs = (let ck' = sm_next ck in
     (\<lparr>leave_GIDs = gids, leave_Id = smck_id ck', leave_Me = smck_clientId ck'\<rparr>, ck',
      map_option (\<lambda>_. ()) (sm_retry 0 sm_WrongLeader outs)))"

definition Clerk_Move :: "int \<Rightarrow> int \<Rightarrow> sm_Clerk \<Rightarrow> sm_Reply option list \<Rightarrow>
    MoveArgs \<times> sm_Clerk \<times> unit option" where
  "Clerk_Move shard gid ck outs = (let ck' = sm_next ck in
     (\<lparr>move_Shard = shard, move_GID = gid, move_Id = smck_id ck', move_Me = smck_clientId ck'\<rparr>, ck',
      map_option (\<lambda>_. ()) (sm_retry 0 sm_WrongLeader outs)))"

end
