(* ===== verification/Shard_Rebalance.thy ===== *)
theory Shard_Rebalance
  imports Shard_Master
begin

text \<open>
  Correctness of \<^verbatim>\<open>Rebalance\<close>: every shard ends up with a group, the groups' shares differ by at most
  one and are the ones the target function prescribes, no group loses a shard unless it had too many,
  nothing depends on the iteration order of the map of groups, and the indexing never panics.
\<close>

definition owned :: "int list \<Rightarrow> int \<Rightarrow> nat" where
  "owned xs g = card {s. s < length xs \<and> xs ! s = g}"

subsection \<open>Counting\<close>

lemma sum_owned:
  assumes "finite G"
  shows "(\<Sum>g\<in>G. owned xs g) = card {s. s < length xs \<and> xs ! s \<in> G}"
proof -
  have "{s. s < length xs \<and> xs ! s \<in> G} = (\<Union>g\<in>G. {s. s < length xs \<and> xs ! s = g})" by blast
  then show ?thesis
    unfolding owned_def by (simp only:) (rule card_UN_disjoint [symmetric]; use assms in auto)
qed

lemma sum_target:
  assumes "0 < n"
  shows "(\<Sum>k<n. target n k) = int NShards"
proof -
  let ?r = "NShards mod n"
  have "?r \<le> n" using assms by (simp add: less_imp_le)
  then have "{..<n} \<inter> {k. k < ?r} = {..<?r}" by auto
  then have ones: "(\<Sum>k<n. if k < ?r then 1 else 0) = int ?r"
    by (simp add: sum.If_cases)
  have "(\<Sum>k<n. target n k) = (\<Sum>k<n. int (NShards div n) + (if k < ?r then 1 else 0))"
    by (rule sum.cong) (auto simp: target_def)
  also have "\<dots> = int n * int (NShards div n) + int ?r"
    by (simp only: sum.distrib ones sum_constant card_lessThan)
  also have "\<dots> = int (n * (NShards div n) + ?r)" by (simp only: of_nat_add of_nat_mult)
  also have "\<dots> = int NShards" by (simp only: mult_div_mod_eq)
  finally show ?thesis .
qed

lemma target_nonneg: "0 \<le> target n i"
  by (simp add: target_def)

subsection \<open>The loops\<close>

lemma scan_upto:
  "foldl (scan_shard gids) \<lparr>cnt = (\<lambda>_. 0), shs = shards, pool = []\<rparr> [0..<k] =
     \<lparr>cnt = (\<lambda>g. if g \<in> set gids then int (card {s. s < k \<and> shards ! s = g}) else 0), shs = shards,
      pool = filter (\<lambda>s. shards ! s \<notin> set gids) [0..<k]\<rparr>"
proof (induction k)
  case (Suc k)
  have "{s. s < Suc k \<and> shards ! s = g} =
      (if shards ! k = g then insert k {s. s < k \<and> shards ! s = g} else {s. s < k \<and> shards ! s = g})" for g
    by (auto simp: less_Suc_eq)
  then show ?case using Suc by (auto simp: scan_shard_def Let_def fun_eq_iff)
qed (auto simp: fun_eq_iff)

text \<open>What every loop before the assignment keeps.\<close>

definition books :: "int list \<Rightarrow> int list \<Rightarrow> rebalancing \<Rightarrow> bool" where
  "books gids orig st \<longleftrightarrow> length (shs st) = NShards \<and>
     (\<forall>g \<in> set gids. cnt st g = int (owned (shs st) g)) \<and> distinct (pool st) \<and>
     set (pool st) = {s. s < NShards \<and> shs st ! s \<notin> set gids} \<and>
     (\<forall>s < NShards. shs st ! s \<in> set gids \<longrightarrow> shs st ! s = orig ! s)"

lemma books_scan:
  assumes "length shards = NShards"
  shows "books gids shards (scan gids shards)"
  unfolding scan_def scan_upto books_def owned_def using assms by auto

lemma last_of_Some:
  "last_of g xs n = Some s \<Longrightarrow> s < n \<and> xs ! s = g"
  by (induction n) (auto split: if_splits)

lemma last_of_exists: "s < n \<Longrightarrow> xs ! s = g \<Longrightarrow> last_of g xs n \<noteq> None"
  by (induction n) (auto simp: less_Suc_eq)

lemma owned_give:
  assumes "s < length xs" "xs ! s = g" "g \<noteq> 0"
  shows "owned (xs[s := 0]) g = owned xs g - 1" "0 < owned xs g"
    "h \<noteq> 0 \<Longrightarrow> h \<noteq> g \<Longrightarrow> owned (xs[s := 0]) h = owned xs h"
proof -
  have "{i. i < length xs \<and> xs[s := 0] ! i = g} = {i. i < length xs \<and> xs ! i = g} - {s}"
    using assms by (auto simp: nth_list_update split: if_splits)
  then show "owned (xs[s := 0]) g = owned xs g - 1"
    using assms by (simp add: owned_def)
  show "0 < owned xs g" using assms by (auto simp: owned_def card_gt_0_iff)
  show "owned (xs[s := 0]) h = owned xs h" if "h \<noteq> 0" "h \<noteq> g"
    unfolding owned_def using that assms by (intro arg_cong [where f = card])
      (auto simp: nth_list_update split: if_splits)
qed

lemma books_give:
  assumes b: "books gids orig st" and g: "g \<in> set gids" "0 \<notin> set gids" and pos: "0 < cnt st g"
  obtains s where "last_of g (shs st) NShards = Some s"
    "books gids orig (st\<lparr>cnt := (cnt st)(g := cnt st g - 1), shs := (shs st)[s := 0],
       pool := pool st @ [s]\<rparr>)"
proof -
  have len: "length (shs st) = NShards" and c: "\<forall>h \<in> set gids. cnt st h = int (owned (shs st) h)"
    using b by (auto simp: books_def)
  have "{s. s < NShards \<and> shs st ! s = g} \<noteq> {}"
    using c g(1) pos len by (force simp: owned_def)
  then obtain s where s: "last_of g (shs st) NShards = Some s"
    using last_of_exists by blast
  have s': "s < length (shs st)" "shs st ! s = g" using last_of_Some [OF s] len by auto
  have g0: "g \<noteq> 0" using g by auto
  note give = owned_give [OF s' g0]
  have "((cnt st)(g := cnt st g - 1)) h = int (owned ((shs st)[s := 0]) h)" if "h \<in> set gids" for h
  proof (cases "h = g")
    case True
    then show ?thesis using that c give(1,2) by (simp add: of_nat_diff)
  next
    case False
    moreover have "h \<noteq> 0" using that g(2) by auto
    ultimately show ?thesis using that c give(3) by simp
  qed
  moreover have "s \<notin> set (pool st)" using b s' g(1) by (auto simp: books_def)
  moreover have "set (pool st @ [s]) = {x. x < NShards \<and> (shs st)[s := 0] ! x \<notin> set gids}"
    using b s' g len by (auto simp: books_def nth_list_update split: if_splits)
  moreover have "(shs st)[s := 0] ! x = orig ! x" if "x < NShards" "(shs st)[s := 0] ! x \<in> set gids" for x
    using that b g(2) len by (cases "x = s") (auto simp: books_def)
  ultimately have "books gids orig (st\<lparr>cnt := (cnt st)(g := cnt st g - 1), shs := (shs st)[s := 0],
       pool := pool st @ [s]\<rparr>)"
    using b len unfolding books_def by simp
  then show ?thesis by (rule that [OF s])
qed

lemma donate_books:
  assumes "books gids orig st" "gid \<in> set gids" "0 \<notin> set gids" "0 \<le> t"
  shows "books gids orig (donate gid t st) \<and>
    cnt (donate gid t st) = (cnt st)(gid := min (cnt st gid) t)"
  using assms
proof (induction gid t st rule: donate.induct)
  case (1 gid t st)
  show ?case
  proof (cases "cnt st gid > t")
    case False
    then show ?thesis using "1.prems" by (subst donate.simps, simp)+
  next
    case True
    then have "0 < cnt st gid" using "1.prems"(4) by simp
    then obtain s where s: "last_of gid (shs st) NShards = Some s"
      "books gids orig (st\<lparr>cnt := (cnt st)(gid := cnt st gid - 1), shs := (shs st)[s := 0],
         pool := pool st @ [s]\<rparr>)"
      using books_give [OF "1.prems"(1,2,3)] by blast
    have step: "donate gid t st = donate gid t (st\<lparr>cnt := (cnt st)(gid := cnt st gid - 1),
        shs := (shs st)[s := 0], pool := pool st @ [s]\<rparr>)"
      using True s(1) by (subst donate.simps) (simp add: Let_def)
    show ?thesis
      unfolding step using "1.IH" [OF True refl] s "1.prems"(2-) True
      by (auto simp: min_def fun_eq_iff)
  qed
qed

lemma donate_all_books:
  assumes "books gids orig st" "set js \<subseteq> set gids" "distinct js" "0 \<notin> set gids"
  shows "books gids orig (donate_all n i js st) \<and>
    (\<forall>k < length js. cnt (donate_all n i js st) (js ! k) = min (cnt st (js ! k)) (target n (i + k))) \<and>
    (\<forall>g. g \<notin> set js \<longrightarrow> cnt (donate_all n i js st) g = cnt st g)"
  using assms
proof (induction js arbitrary: i st)
  case (Cons j js)
  let ?st = "donate j (target n i) st"
  have d: "books gids orig ?st" "cnt ?st = (cnt st)(j := min (cnt st j) (target n i))"
    using donate_books [OF Cons.prems(1) _ Cons.prems(4) target_nonneg] Cons.prems(2) by auto
  have ih: "books gids orig (donate_all n (Suc i) js ?st)"
    "\<And>k. k < length js \<Longrightarrow>
       cnt (donate_all n (Suc i) js ?st) (js ! k) = min (cnt ?st (js ! k)) (target n (Suc i + k))"
    "\<And>g. g \<notin> set js \<Longrightarrow> cnt (donate_all n (Suc i) js ?st) g = cnt ?st g"
    using Cons.IH [OF d(1)] Cons.prems by auto
  have "cnt (donate_all n (Suc i) js ?st) ((j # js) ! k) = min (cnt st ((j # js) ! k)) (target n (i + k))"
    if "k < length (j # js)" for k
  proof (cases k)
    case 0
    then show ?thesis using ih(3) [of j] Cons.prems(3) d(2) by simp
  next
    case (Suc m)
    then have "js ! m \<noteq> j" using that Cons.prems(3) nth_mem [of m js] by auto
    then show ?thesis using Suc that ih(2) [of m] d(2) by simp
  qed
  then show ?case using ih(1,3) d(2) by auto
qed simp

lemma needy_eq: "needy gid t (c, need) =
    (c(gid := max (c gid) t), need @ replicate (nat (t - c gid)) gid)"
proof (induction gid t "(c, need)" arbitrary: c need rule: needy.induct)
  case (1 gid t c need)
  show ?case
  proof (cases "c gid < t")
    case True
    have "nat (t - c gid) = Suc (nat (t - (c gid + 1)))" using True by simp
    then show ?thesis
      using True "1.hyps" by (subst needy.simps) (simp add: max_def)
  qed (subst needy.simps, simp add: max_def)
qed

lemma needy_all_count:
  assumes "distinct js"
  shows "(\<forall>k < length js. count_list (snd (needy_all n i js (c, need))) (js ! k) =
        count_list need (js ! k) + nat (target n (i + k) - c (js ! k))) \<and>
    (\<forall>g. g \<notin> set js \<longrightarrow> count_list (snd (needy_all n i js (c, need))) g = count_list need g) \<and>
    length (snd (needy_all n i js (c, need))) =
      length need + (\<Sum>k<length js. nat (target n (i + k) - c (js ! k)))"
  using assms
proof (induction js arbitrary: i c need)
  case (Cons j js)
  define d where "d = c(j := max (c j) (target n i))"
  let ?need = "need @ replicate (nat (target n i - c j)) j"
  have step: "needy_all n i (j # js) (c, need) = needy_all n (Suc i) js (d, ?need)"
    by (simp add: needy_eq d_def)
  have j: "j \<notin> set js" using Cons.prems by simp
  then have c: "d (js ! k) = c (js ! k)" if "k < length js" for k using that by (force simp: d_def)
  note ih = Cons.IH [of "Suc i" d ?need]
  have rep: "count_list (replicate m x) y = (if x = y then m else 0)" for m x and y :: int
    by (induction m) auto
  have "count_list (snd (needy_all n (Suc i) js (d, ?need))) ((j # js) ! k) =
      count_list need ((j # js) ! k) + nat (target n (i + k) - c ((j # js) ! k))"
    if "k < length (j # js)" for k
  proof (cases k)
    case 0
    then show ?thesis using ih Cons.prems j by (simp add: rep)
  next
    case (Suc m)
    then have "js ! m \<noteq> j" using that j nth_mem [of m js] by auto
    then show ?thesis using ih Cons.prems that Suc c [of m] by (simp add: rep)
  qed
  moreover have "count_list (snd (needy_all n (Suc i) js (d, ?need))) g = count_list need g"
    if "g \<notin> set (j # js)" for g
    using ih Cons.prems that by (simp add: rep)
  moreover have "length (snd (needy_all n (Suc i) js (d, ?need))) =
      length need + (\<Sum>k<length (j # js). nat (target n (i + k) - c ((j # js) ! k)))"
    using ih Cons.prems c by (simp add: sum.lessThan_Suc_shift del: sum.lessThan_Suc)
  ultimately show ?case unfolding step by blast
qed simp

lemma assign_spec:
  assumes "i + length ss \<le> length need" "\<forall>s \<in> set ss. s < length shards" "distinct ss"
  shows "\<exists>sh. assign i ss need shards = Some sh \<and> length sh = length shards \<and>
    (\<forall>s. s \<notin> set ss \<longrightarrow> sh ! s = shards ! s) \<and> (\<forall>k < length ss. sh ! (ss ! k) = need ! (i + k))"
  using assms
proof (induction ss arbitrary: i shards)
  case (Cons s ss)
  let ?sh1 = "shards[s := need ! i]"
  obtain sh where sh: "assign (Suc i) ss need ?sh1 = Some sh" "length sh = length shards"
    "\<forall>x. x \<notin> set ss \<longrightarrow> sh ! x = ?sh1 ! x" "\<forall>k < length ss. sh ! (ss ! k) = need ! (Suc i + k)"
    using Cons.IH [of "Suc i" ?sh1] Cons.prems by auto
  have "assign i (s # ss) need shards = Some sh"
    using sh(1) Cons.prems by (simp add: go_set_def)
  moreover have "sh ! ((s # ss) ! k) = need ! (i + k)" if "k < length (s # ss)" for k
    using that sh(3,4) Cons.prems by (cases k) auto
  ultimately show ?case using sh(2,3) by fastforce
qed simp

subsection \<open>The whole\<close>

text \<open>A configuration as the server keeps it: ten shards, and the keys of a map.\<close>

definition config_ok :: "Config \<Rightarrow> bool" where
  "config_ok c \<longleftrightarrow> length (Shards c) = NShards \<and> distinct (map fst (Groups c))"

lemma count_list_card:
  assumes "distinct ss" "length ss = length xs" "\<forall>k < length ss. f (ss ! k) = xs ! k"
  shows "count_list xs g = card {s \<in> set ss. f s = g}"
proof -
  have "xs = map f ss" using assms(2,3) by (simp add: list_eq_iff_nth_eq)
  moreover have "count_list (map f ss) g = card {s \<in> set ss. f s = g}" using assms(1)
  proof (induction ss)
    case (Cons s ss)
    have "{x \<in> set (s # ss). f x = g} = (if f s = g then insert s {x \<in> set ss. f x = g} else {x \<in> set ss. f x = g})"
      by auto
    then show ?case using Cons by auto
  qed simp
  ultimately show ?thesis by simp
qed

text \<open>The share of each group after rebalancing, and what it kept of its old shards.\<close>

lemma rebalance_shares:
  assumes len: "length orig = NShards" and gids: "distinct gids" "gids \<noteq> []" "0 \<notin> set gids"
  defines "st \<equiv> donate_all (length gids) 0 gids (scan gids orig)"
  shows "\<exists>sh. assign 0 (sort (pool st)) (snd (needy_all (length gids) 0 gids (cnt st, []))) (shs st) = Some sh \<and>
    length sh = NShards \<and> set sh \<subseteq> set gids \<and>
    (\<forall>k < length gids. int (owned sh (gids ! k)) = target (length gids) k \<and>
       int (card {s. s < NShards \<and> orig ! s = gids ! k \<and> sh ! s = gids ! k}) =
         min (int (owned orig (gids ! k))) (target (length gids) k))"
proof -
  let ?n = "length gids"
  define need where "need = snd (needy_all ?n 0 gids (cnt st, []))"
  define c where "c k = cnt st (gids ! k)" for k
  have b0: "books gids orig (scan gids orig)" by (rule books_scan [OF len])
  note all = donate_all_books [OF b0 subset_refl gids(1,3), of ?n 0]
  have b: "books gids orig st" and
    c: "\<And>k. k < ?n \<Longrightarrow> c k = min (cnt (scan gids orig) (gids ! k)) (target ?n k)"
    using all by (simp_all add: st_def c_def)
  have own: "c k = int (owned (shs st) (gids ! k))"
    "c k = min (int (owned orig (gids ! k))) (target ?n k)" if "k < ?n" for k
    using b b0 that c [OF that]
    by (auto simp: books_def c_def scan_def scan_upto)
  have blen: "length (shs st) = NShards" "distinct (pool st)"
    "set (pool st) = {s. s < NShards \<and> shs st ! s \<notin> set gids}"
    using b by (simp_all add: books_def)
  note nd = needy_all_count [OF gids(1), of ?n 0 "cnt st" "[]"]
  have need_cnt: "count_list need (gids ! k) = nat (target ?n k - c k)" if "k < ?n" for k
    using nd that by (simp add: need_def c_def)
  have "length need = (\<Sum>k<?n. nat (target ?n k - c k))"
    using nd by (simp add: need_def c_def)
  moreover have "c k \<le> target ?n k" if "k < ?n" for k using own(2) [OF that] by simp
  ultimately have "int (length need) = (\<Sum>k<?n. target ?n k - c k)" by simp
  also have "\<dots> = int NShards - (\<Sum>k<?n. c k)"
    using sum_target [of ?n] gids(2) by (simp add: sum_subtractf)
  also have "(\<Sum>k<?n. c k) = (\<Sum>k<?n. int (owned (shs st) (gids ! k)))" using own(1) by simp
  also have "\<dots> = int (\<Sum>g\<in>set gids. owned (shs st) g)"
    using sum.reindex_bij_betw [OF bij_betw_nth [OF gids(1) refl refl], of "\<lambda>g. int (owned (shs st) g)"]
    by simp
  also have "\<dots> = int (card {s. s < NShards \<and> shs st ! s \<in> set gids})"
    using sum_owned [of "set gids" "shs st"] blen(1) by simp
  finally have ln: "int (length need) = int NShards - int (card {s. s < NShards \<and> shs st ! s \<in> set gids})" .
  have "card {s. s < NShards \<and> shs st ! s \<in> set gids} + length (pool st) = NShards"
  proof -
    have "{s. s < NShards \<and> shs st ! s \<in> set gids} \<union> set (pool st) = {..<NShards}"
      "{s. s < NShards \<and> shs st ! s \<in> set gids} \<inter> set (pool st) = {}" using blen(3) by auto
    then show ?thesis
      using card_Un_disjoint [of "{s. s < NShards \<and> shs st ! s \<in> set gids}" "set (pool st)"]
        distinct_card [OF blen(2)] by simp
  qed
  then have lp: "length need = length (pool st)" using ln by simp
  obtain sh where sh: "assign 0 (sort (pool st)) need (shs st) = Some sh" "length sh = NShards"
    "\<And>s. s \<notin> set (pool st) \<Longrightarrow> sh ! s = shs st ! s"
    "\<forall>k < length (sort (pool st)). sh ! (sort (pool st) ! k) = need ! k"
    using assign_spec [of 0 "sort (pool st)" need "shs st"] lp blen by auto
  have cl: "count_list need g = card {s \<in> set (pool st). sh ! s = g}" for g
    using count_list_card [of "sort (pool st)" need "(!) sh"] sh(4) lp blen(2) by simp
  have tgt: "int (owned sh (gids ! k)) = target ?n k" if k: "k < ?n" for k
  proof -
    have g: "gids ! k \<in> set gids" using k by simp
    have p: "s < NShards \<and> shs st ! s \<noteq> gids ! k" if "s \<in> set (pool st)" for s
    proof -
      have "s < NShards" "shs st ! s \<notin> set gids" using that unfolding blen(3) by simp_all
      with g show ?thesis by metis
    qed
    have "s \<in> {s. s < length sh \<and> sh ! s = gids ! k} \<longleftrightarrow>
        s \<in> {s. s < length (shs st) \<and> shs st ! s = gids ! k} \<union> {s \<in> set (pool st). sh ! s = gids ! k}" for s
      using sh(2) sh(3) [of s] blen(1) p [of s] by (cases "s \<in> set (pool st)") simp_all
    then have "{s. s < length sh \<and> sh ! s = gids ! k} =
        {s. s < length (shs st) \<and> shs st ! s = gids ! k} \<union> {s \<in> set (pool st). sh ! s = gids ! k}"
      by (rule set_eqI)
    moreover have "{s. s < length (shs st) \<and> shs st ! s = gids ! k} \<inter>
        {s \<in> set (pool st). sh ! s = gids ! k} = {}"
      using p by blast
    ultimately have "owned sh (gids ! k) = owned (shs st) (gids ! k) + count_list need (gids ! k)"
      by (simp add: owned_def cl card_Un_disjoint)
    then show ?thesis using own [OF k] need_cnt [OF k] by simp
  qed
  have "sh ! s \<in> set gids" if s: "s < NShards" for s
  proof (cases "s \<in> set (pool st)")
    case True
    then have "0 < count_list need (sh ! s)" by (auto simp: cl card_gt_0_iff)
    then show ?thesis using nd by (force simp: need_def)
  next
    case False
    then show ?thesis using sh(3) s blen(3) by auto
  qed
  then have "set sh \<subseteq> set gids" using sh(2) by (auto simp: in_set_conv_nth)
  moreover have "int (card {s. s < NShards \<and> orig ! s = gids ! k \<and> sh ! s = gids ! k}) =
      min (int (owned orig (gids ! k))) (target ?n k)" if k: "k < ?n" for k
  proof (rule order_antisym)
    let ?K = "{s. s < NShards \<and> orig ! s = gids ! k \<and> sh ! s = gids ! k}"
    have "card ?K \<le> owned orig (gids ! k)" "card ?K \<le> owned sh (gids ! k)"
      unfolding owned_def using len sh(2) by (auto intro!: card_mono)
    then show "int (card ?K) \<le> min (int (owned orig (gids ! k))) (target ?n k)"
      using tgt [OF k] by simp
    have "{s. s < length (shs st) \<and> shs st ! s = gids ! k} \<subseteq> ?K"
      using b sh(3) k by (auto simp: books_def)
    then have "owned (shs st) (gids ! k) \<le> card ?K"
      unfolding owned_def by (rule card_mono [rotated]) simp
    then show "min (int (owned orig (gids ! k))) (target ?n k) \<le> int (card ?K)"
      using own [OF k] by simp
  qed
  ultimately show ?thesis using sh(1,2) tgt unfolding need_def by blast
qed

lemma Rebalance_spec:
  assumes "config_ok c" and "Groups c \<noteq> []" and "0 \<notin> fst ` set (Groups c)"
  shows "\<exists>sh. Rebalance c = Some (c\<lparr>Shards := sh\<rparr>) \<and> length sh = NShards \<and>
    set sh \<subseteq> fst ` set (Groups c) \<and>
    (\<forall>k < length (Groups c). let n = length (Groups c); g = sort (map fst (Groups c)) ! k in
       int (owned sh g) = target n k \<and>
       int (card {s. s < NShards \<and> Shards c ! s = g \<and> sh ! s = g}) =
         min (int (owned (Shards c) g)) (target n k))"
proof -
  let ?gids = "sort (map fst (Groups c))"
  have "length ?gids \<noteq> 0" using assms(2) by simp
  then have ne: "?gids \<noteq> []" by (metis list.size(3))
  have "length (Shards c) = NShards" "distinct ?gids" "0 \<notin> set ?gids"
    using assms by (auto simp: config_ok_def)
  from rebalance_shares [OF this(1,2) ne this(3)] obtain sh where
    "assign 0 (sort (pool (donate_all (length ?gids) 0 ?gids (scan ?gids (Shards c)))))
       (snd (needy_all (length ?gids) 0 ?gids (cnt (donate_all (length ?gids) 0 ?gids (scan ?gids (Shards c))), [])))
       (shs (donate_all (length ?gids) 0 ?gids (scan ?gids (Shards c)))) = Some sh"
    "length sh = NShards" "set sh \<subseteq> set ?gids"
    "\<forall>k < length ?gids. int (owned sh (?gids ! k)) = target (length ?gids) k \<and>
       int (card {s. s < NShards \<and> Shards c ! s = ?gids ! k \<and> sh ! s = ?gids ! k}) =
         min (int (owned (Shards c) (?gids ! k))) (target (length ?gids) k)"
    by blast
  then show ?thesis
    using assms(2) by (auto simp: Rebalance_def Let_def case_prod_beta)
qed

text \<open>
  C5. Rebalancing. For a configuration with groups, none of them with identifier 0, \<^verbatim>\<open>Rebalance\<close> returns; it
  changes only the assignment; every shard gets one of the groups; the \<open>k\<close>-th group by identifier gets
  exactly its target number of shards, so shares differ by at most one; and each group keeps as many of
  the shards it had as its target allows, so that as few shards move as possible.
\<close>

theorem Rebalance_balanced:
  assumes "config_ok c" and "Groups c \<noteq> []" and "0 \<notin> fst ` set (Groups c)"
  shows "\<exists>sh. Rebalance c = Some (c\<lparr>Shards := sh\<rparr>) \<and> length sh = NShards \<and>
    set sh \<subseteq> fst ` set (Groups c) \<and>
    (\<forall>k < length (Groups c). let n = length (Groups c); g = sort (map fst (Groups c)) ! k in
       int (owned sh g) = target n k \<and>
       int (card {s. s < NShards \<and> Shards c ! s = g \<and> sh ! s = g}) =
         min (int (owned (Shards c) g)) (target n k))"
  by (rule Rebalance_spec [OF assms])

definition config1 :: Config where
  "config1 = \<lparr>Num = 3, Shards = [7, 7, 7, 7, 7, 7, 7, 7, 9, 0], Groups = [(7, []), (4, []), (2, [])]\<rparr>"

theorem Rebalance_balanced_witness:
  "\<exists>sh. Rebalance config1 = Some (config1\<lparr>Shards := sh\<rparr>) \<and> owned sh 2 = 4 \<and> owned sh 7 = 3 \<and>
     card {s. s < NShards \<and> Shards config1 ! s = 7 \<and> sh ! s = 7} = 3"
proof -
  have g: "Groups config1 = [(7, []), (4, []), (2, [])]" "sort (map fst (Groups config1)) = [2, 4, 7]"
    by (simp_all add: config1_def)
  have "config_ok config1" by (simp add: config_ok_def config1_def NShards_def)
  then obtain sh where sh: "Rebalance config1 = Some (config1\<lparr>Shards := sh\<rparr>)"
    "\<And>k. k < 3 \<Longrightarrow> int (owned sh ([2, 4, 7] ! k)) = target 3 k \<and>
       int (card {s. s < NShards \<and> Shards config1 ! s = [2, 4, 7] ! k \<and> sh ! s = [2, 4, 7] ! k}) =
         min (int (owned (Shards config1) ([2, 4, 7] ! k))) (target 3 k)"
    using Rebalance_balanced [of config1] g by (auto simp: Let_def numeral_3_eq_3)
  have "{0, 1, 2} \<subseteq> {s. s < length (Shards config1) \<and> Shards config1 ! s = 7}"
    by (auto simp: config1_def)
  from card_mono [OF _ this] have "3 \<le> owned (Shards config1) 7" by (simp add: owned_def)
  then show ?thesis
    using sh(1) sh(2) [of 0] sh(2) [of 2] by (auto simp: target_def NShards_def)
qed

text \<open>
  C38. \<^verbatim>\<open>Rebalance\<close> does not depend on the order in which Go iterates over the map of groups: two
  configurations with the same shards and the same set of group identifiers get the same assignment.
\<close>

theorem Rebalance_deterministic:
  assumes "config_ok c" and "config_ok d" and "Shards c = Shards d"
    and "fst ` set (Groups c) = fst ` set (Groups d)"
  shows "map_option Shards (Rebalance c) = map_option Shards (Rebalance d)"
proof -
  have "sort (map fst (Groups c)) = sort (map fst (Groups d))"
    using assms by (intro sorted_distinct_set_unique) (auto simp: config_ok_def)
  moreover have "length (Groups c) = 0 \<longleftrightarrow> length (Groups d) = 0" using assms(4) by auto
  ultimately show ?thesis
    using assms(3) by (simp add: Rebalance_def Let_def case_prod_beta split: bind_split)
qed

theorem Rebalance_deterministic_witness:
  "map_option Shards (Rebalance config1) =
   map_option Shards (Rebalance (config1\<lparr>Groups := [(2, []), (7, []), (4, [])]\<rparr>))"
  by (rule Rebalance_deterministic) (auto simp: config_ok_def config1_def NShards_def)

text \<open>Without groups \<^verbatim>\<open>Rebalance\<close> assigns every shard to the invalid group 0.\<close>

lemma Rebalance_no_groups: "Groups c = [] \<Longrightarrow> Rebalance c = Some (c\<lparr>Shards := replicate NShards 0\<rparr>)"
  by (simp add: Rebalance_def)

end
