(* ===== verification/Shard_Machine.thy ===== *)
theory Shard_Machine
  imports Shard_Rebalance
begin

text \<open>
  The shard master as a replicated state machine: the invariant of its list of configurations, what
  each operation does to it, repeated requests, agreement of replicas, the path of a query from the
  request to the answer, and the retry loop of the clerk.
\<close>

subsection \<open>Maps of groups\<close>

lemma foldl_update_map_of:
  "map_of (foldl (\<lambda>m (k, v). AList.update k v m) m kvs) = map_of m ++ map_of (rev kvs)"
proof (induction kvs arbitrary: m)
  case (Cons kv kvs)
  obtain k v where kv: "kv = (k, v)" by (cases kv)
  have "foldl (\<lambda>m (k, v). AList.update k v m) m (kv # kvs) =
    foldl (\<lambda>m (k, v). AList.update k v m) (AList.update k v m) kvs" by (simp add: kv)
  then have "map_of (foldl (\<lambda>m (k, v). AList.update k v m) m (kv # kvs)) =
      map_of (AList.update k v m) ++ map_of (rev kvs)" using Cons.IH by simp
  also have "\<dots> = map_of m ++ map_of (rev (kv # kvs))"
    by (auto simp: update_conv' kv map_add_def fun_eq_iff split: option.splits)
  finally show ?case .
qed simp

lemma foldl_update_keys:
  "fst ` set (foldl (\<lambda>m (k, v). AList.update k v m) m kvs) = fst ` set m \<union> fst ` set kvs"
proof (induction kvs arbitrary: m)
  case (Cons kv kvs)
  then show ?case by (cases kv) (auto simp: dom_update)
qed simp

lemma foldl_update_distinct:
  "distinct (map fst m) \<Longrightarrow> distinct (map fst (foldl (\<lambda>m (k, v). AList.update k v m) m kvs))"
proof (induction kvs arbitrary: m)
  case (Cons kv kvs)
  then show ?case by (cases kv) (simp add: distinct_update)
qed simp

lemma foldl_delete_map_of:
  "map_of (foldl (\<lambda>m k. AList.delete k m) m ks) = (\<lambda>g. if g \<in> set ks then None else map_of m g)"
  by (induction ks arbitrary: m) (auto simp: delete_conv' fun_eq_iff)

lemma foldl_delete_keys:
  "fst ` set (foldl (\<lambda>m k. AList.delete k m) m ks) = fst ` set m - set ks"
  by (induction ks arbitrary: m) (auto simp: AList.delete_eq)

lemma foldl_delete_distinct:
  "distinct (map fst m) \<Longrightarrow> distinct (map fst (foldl (\<lambda>m k. AList.delete k m) m ks))"
  by (induction ks arbitrary: m) (simp_all add: distinct_delete)

text \<open>A copy is equal to its original, as a map and in everything else.\<close>

lemma Config_Copy_fields [simp]:
  "Num (Config_Copy c) = Num c" "Shards (Config_Copy c) = Shards c"
  "fst ` set (Groups (Config_Copy c)) = fst ` set (Groups c)"
  by (simp_all add: Config_Copy_def foldl_update_keys)

lemma Config_Copy_map_of:
  assumes "distinct (map fst (Groups c))"
  shows "map_of (Groups (Config_Copy c)) = map_of (Groups c)"
  using map_of_inject_set [of "rev (Groups c)" "Groups c"] assms
  by (simp add: Config_Copy_def foldl_update_map_of rev_map [symmetric])

lemma Config_Copy_ok: "config_ok c \<Longrightarrow> config_ok (Config_Copy c)"
  by (simp add: config_ok_def Config_Copy_def foldl_update_distinct)

subsection \<open>The invariant\<close>

text \<open>
  The configurations are numbered from 0 without gaps, each has ten shards and a proper map of groups,
  and group 0 is not among them.
\<close>

definition sm_ok :: "'b ShardMaster \<Rightarrow> bool" where
  "sm_ok sm \<longleftrightarrow> configs sm \<noteq> [] \<and>
     (\<forall>i < length (configs sm). Num (configs sm ! i) = int i \<and> config_ok (configs sm ! i) \<and>
        0 \<notin> fst ` set (Groups (configs sm ! i)))"

text \<open>What the clients must send: group identifiers other than 0 and shards that exist.\<close>

definition op_ok :: "sm_Op \<Rightarrow> bool" where
  "op_ok op \<longleftrightarrow> (op_Type op = ''Join'' \<longrightarrow> 0 \<notin> fst ` set (op_Servers op)) \<and>
     (op_Type op = ''Move'' \<longrightarrow> 0 \<le> op_Shard op \<and> op_Shard op < int NShards)"

definition fresh_op :: "sm_Op \<Rightarrow> 'b ShardMaster \<Rightarrow> bool" where
  "fresh_op op sm \<longleftrightarrow> (\<forall>n. sm_lastApplied sm (op_Me op) = Some n \<longrightarrow> n < op_ReqId op)"

definition mark :: "int \<Rightarrow> sm_Op \<Rightarrow> 'b ShardMaster \<Rightarrow> 'b ShardMaster" where
  "mark idx op sm = sm\<lparr>sm_lastApplied := (sm_lastApplied sm)(op_Me op \<mapsto> op_ReqId op),
     sm_lastIncludedIndex := idx\<rparr>"

lemma mark_fields [simp]:
  "configs (mark idx op sm) = configs sm" "latest (mark idx op sm) = latest sm"
  "handleJoin op' (mark idx op sm) = handleJoin op' sm"
  "handleLeave op' (mark idx op sm) = handleLeave op' sm"
  "handleMove op' (mark idx op sm) = handleMove op' sm"
  by (simp_all add: mark_def latest_def handleJoin_def handleLeave_def handleMove_def)

lemma isDuplicateOp_eq: "isDuplicateOp op idx sm = (if fresh_op op sm then (False, mark idx op sm) else (True, sm))"
  by (auto simp: isDuplicateOp_def fresh_op_def mark_def split: option.split)

lemma sm_apply_repeated:
  "op_Type op \<noteq> ''Query'' \<Longrightarrow> \<not> fresh_op op sm \<Longrightarrow> sm_apply idx op sm = Some (sm, op)"
  by (simp add: sm_apply_def isDuplicateOp_eq)

lemma sm_apply_query:
  "op_Type op = ''Query'' \<Longrightarrow> sm_apply idx op sm = map_option (Pair sm) (handleQuery op sm)"
  by (cases "handleQuery op sm") (simp_all add: sm_apply_def)

definition newConfig :: "sm_Op \<Rightarrow> 'b ShardMaster \<Rightarrow> Config option" where
  "newConfig op sm =
     do { prev \<leftarrow> latest sm;
          if op_Type op = ''Join'' then
            do { c \<leftarrow> handleJoin op sm; Rebalance (c\<lparr>Num := Num prev + 1\<rparr>) }
          else if op_Type op = ''Leave'' then
            do { c \<leftarrow> handleLeave op sm; Rebalance (c\<lparr>Num := Num prev + 1\<rparr>) }
          else map_option (\<lambda>c. c\<lparr>Num := Num prev + 1\<rparr>) (handleMove op sm) }"

lemma sm_apply_change:
  assumes "op_Type op \<in> {''Join'', ''Leave'', ''Move''}" "fresh_op op sm"
  shows "sm_apply idx op sm =
    map_option (\<lambda>c. (appendConfig c (mark idx op sm), op)) (newConfig op sm)"
proof (cases "latest sm")
  case None
  then show ?thesis
    using assms by (auto simp: sm_apply_def isDuplicateOp_eq newConfig_def handleJoin_def
        handleLeave_def handleMove_def)
next
  case (Some prev)
  then show ?thesis
    using assms by (auto simp: sm_apply_def isDuplicateOp_eq newConfig_def split: bind_split)
qed

lemma sm_apply_other:
  "op_Type op \<notin> {''Join'', ''Leave'', ''Move'', ''Query''} \<Longrightarrow> fresh_op op sm \<Longrightarrow>
     sm_apply idx op sm = Some (mark idx op sm, op)"
  by (simp add: sm_apply_def isDuplicateOp_eq)

lemma latest_eq: "configs sm \<noteq> [] \<Longrightarrow> latest sm = Some (last (configs sm))"
  by (simp add: latest_def go_index_def last_conv_nth)

lemma sm_ok_last:
  assumes "sm_ok sm"
  shows "Num (last (configs sm)) = int (length (configs sm)) - 1" "config_ok (last (configs sm))"
    "0 \<notin> fst ` set (Groups (last (configs sm)))"
proof -
  have "length (configs sm) - 1 < length (configs sm)" using assms by (simp add: sm_ok_def)
  then show "Num (last (configs sm)) = int (length (configs sm)) - 1"
    "config_ok (last (configs sm))" "0 \<notin> fst ` set (Groups (last (configs sm)))"
    using assms unfolding sm_ok_def by (auto simp: last_conv_nth of_nat_diff Suc_leI)
qed

text \<open>Every shard has a group and the shares differ by at most one; without groups all shards go to 0.\<close>

definition even_shares :: "Config \<Rightarrow> bool" where
  "even_shares c \<longleftrightarrow>
     (if Groups c = [] then Shards c = replicate NShards 0
      else set (Shards c) \<subseteq> fst ` set (Groups c) \<and>
        (\<forall>g \<in> fst ` set (Groups c). int (owned (Shards c) g) \<in>
           {int (NShards div length (Groups c)), int (NShards div length (Groups c)) + 1}))"

text \<open>What a change makes of the latest configuration.\<close>

definition changed :: "sm_Op \<Rightarrow> Config \<Rightarrow> Config \<Rightarrow> bool" where
  "changed op c c' \<longleftrightarrow> Num c' = Num c + 1 \<and> config_ok c' \<and>
     (if op_Type op = ''Move''
      then Shards c' = (Shards c)[nat (op_Shard op) := op_GID op] \<and>
        map_of (Groups c') = map_of (Groups c)
      else map_of (Groups c') =
          (if op_Type op = ''Join'' then map_of (Groups c) ++ map_of (rev (op_Servers op))
           else (\<lambda>g. if g \<in> set (op_GIDs op) then None else map_of (Groups c) g)) \<and>
        even_shares c')"

lemma Rebalance_changed:
  assumes ok: "config_ok c" and nz: "0 \<notin> fst ` set (Groups c)"
  shows "\<exists>sh. Rebalance c = Some (c\<lparr>Shards := sh\<rparr>) \<and> length sh = NShards \<and>
    even_shares (c\<lparr>Shards := sh\<rparr>)"
proof (cases "Groups c = []")
  case True
  then show ?thesis by (simp add: Rebalance_no_groups even_shares_def)
next
  case False
  from Rebalance_spec [OF ok False nz] obtain sh where
    sh: "Rebalance c = Some (c\<lparr>Shards := sh\<rparr>)" "length sh = NShards" "set sh \<subseteq> fst ` set (Groups c)"
    "\<And>k. k < length (Groups c) \<Longrightarrow>
       int (owned sh (sort (map fst (Groups c)) ! k)) = target (length (Groups c)) k"
    by (auto simp: Let_def)
  have "int (owned sh g) \<in> {int (NShards div length (Groups c)), int (NShards div length (Groups c)) + 1}"
    if "g \<in> fst ` set (Groups c)" for g
  proof -
    have "g \<in> set (sort (map fst (Groups c)))" using that by simp
    then obtain k where "k < length (Groups c)" "sort (map fst (Groups c)) ! k = g"
      by (metis in_set_conv_nth length_map length_sort)
    then show ?thesis using sh(4) [of k] by (auto simp: target_def)
  qed
  then show ?thesis using sh(1-3) False by (auto simp: even_shares_def)
qed

lemma newConfig_ok:
  assumes ok: "sm_ok sm" and op: "op_ok op" "op_Type op \<in> {''Join'', ''Leave'', ''Move''}"
  shows "\<exists>c'. newConfig op sm = Some c' \<and> changed op (last (configs sm)) c' \<and>
    0 \<notin> fst ` set (Groups c')"
proof -
  let ?c = "last (configs sm)"
  have l: "latest sm = Some ?c" using ok by (simp add: sm_ok_def latest_eq)
  note last = sm_ok_last [OF ok]
  note copy = Config_Copy_ok [OF last(2)] Config_Copy_map_of [of ?c]
  consider (join) "op_Type op = ''Join''" | (leave) "op_Type op = ''Leave''"
    | (move) "op_Type op = ''Move''" using op(2) by auto
  then show ?thesis
  proof cases
    case join
    define d where "d = (Config_Copy ?c)\<lparr>Groups := foldl (\<lambda>m (gid, server). AList.update gid server m)
      (Groups (Config_Copy ?c)) (op_Servers op), Num := Num ?c + 1\<rparr>"
    have d: "config_ok d" "0 \<notin> fst ` set (Groups d)" "Num d = Num ?c + 1"
      "map_of (Groups d) = map_of (Groups ?c) ++ map_of (rev (op_Servers op))"
      using copy last op(1) join
      by (auto simp: d_def config_ok_def foldl_update_keys foldl_update_distinct foldl_update_map_of
          op_ok_def)
    have "newConfig op sm = Rebalance d"
      using join l by (simp add: newConfig_def handleJoin_def Let_def d_def)
    moreover obtain sh where "Rebalance d = Some (d\<lparr>Shards := sh\<rparr>)" "length sh = NShards"
      "even_shares (d\<lparr>Shards := sh\<rparr>)"
      using Rebalance_changed [OF d(1,2)] by blast
    ultimately show ?thesis
      using d join by (intro exI [of _ "d\<lparr>Shards := sh\<rparr>"]) (simp add: changed_def config_ok_def)
  next
    case leave
    define d where "d = (Config_Copy ?c)\<lparr>Groups := foldl (\<lambda>m gid. AList.delete gid m)
      (Groups (Config_Copy ?c)) (op_GIDs op), Num := Num ?c + 1\<rparr>"
    have d: "config_ok d" "0 \<notin> fst ` set (Groups d)" "Num d = Num ?c + 1"
      "map_of (Groups d) = (\<lambda>g. if g \<in> set (op_GIDs op) then None else map_of (Groups ?c) g)"
      using copy last
      by (auto simp: d_def config_ok_def foldl_delete_keys foldl_delete_distinct foldl_delete_map_of)
    have "newConfig op sm = Rebalance d"
      using leave l by (simp add: newConfig_def handleLeave_def Let_def d_def)
    moreover obtain sh where "Rebalance d = Some (d\<lparr>Shards := sh\<rparr>)" "length sh = NShards"
      "even_shares (d\<lparr>Shards := sh\<rparr>)"
      using Rebalance_changed [OF d(1,2)] by blast
    ultimately show ?thesis
      using d leave by (intro exI [of _ "d\<lparr>Shards := sh\<rparr>"]) (simp add: changed_def config_ok_def)
  next
    case move
    have "0 \<le> op_Shard op" "op_Shard op < int (length (Shards ?c))"
      using op(1) move last(2) by (auto simp: op_ok_def config_ok_def)
    then show ?thesis
      using move l copy last
      by (auto simp: newConfig_def handleMove_def Let_def go_set_def changed_def config_ok_def)
  qed
qed

lemma sm_ok_append:
  assumes "sm_ok sm" "changed op (last (configs sm)) c'" "0 \<notin> fst ` set (Groups c')"
  shows "sm_ok (appendConfig c' (mark idx op sm))"
  using assms sm_ok_last [OF assms(1)]
  by (auto simp: sm_ok_def appendConfig_def changed_def nth_append less_Suc_eq)

lemma sm_ok_mark [simp]: "sm_ok (mark idx op sm) = sm_ok sm"
  by (simp add: sm_ok_def)

lemma handleQuery_eq:
  assumes "configs sm \<noteq> []"
  shows "handleQuery op sm = Some (op\<lparr>op_config := Config_Copy
    (if 0 \<le> op_Num op \<and> op_Num op < int (length (configs sm)) then configs sm ! nat (op_Num op)
     else last (configs sm))\<rparr>)"
  using assms by (auto simp: handleQuery_def latest_eq go_index_def)

subsection \<open>Theorems\<close>

text \<open>
  C17. The shard master's operations. In a well-formed state every well-formed operation is applied
  without panic and leaves a well-formed state: configurations numbered without gaps, ten shards each.
  A query and a repeated request change nothing; a new Join, Leave or Move appends exactly one
  configuration: Join adds the groups and Leave removes them, both with even shares, Move assigns the one
  shard and nothing else.
\<close>

theorem sm_apply_correct:
  assumes "sm_ok sm" and "op_ok op"
  shows "\<exists>sm' op'. sm_apply idx op sm = Some (sm', op') \<and> sm_ok sm' \<and>
    (if op_Type op = ''Query'' \<or> \<not> fresh_op op sm then sm' = sm
     else sm_lastApplied sm' = (sm_lastApplied sm)(op_Me op \<mapsto> op_ReqId op) \<and>
       (if op_Type op \<in> {''Join'', ''Leave'', ''Move''}
        then \<exists>c'. configs sm' = configs sm @ [c'] \<and> changed op (last (configs sm)) c'
        else configs sm' = configs sm))"
proof -
  have ne: "configs sm \<noteq> []" using assms(1) by (simp add: sm_ok_def)
  consider (query) "op_Type op = ''Query''" | (old) "op_Type op \<noteq> ''Query''" "\<not> fresh_op op sm"
    | (change) "op_Type op \<in> {''Join'', ''Leave'', ''Move''}" "fresh_op op sm"
    | (other) "op_Type op \<notin> {''Join'', ''Leave'', ''Move'', ''Query''}" "fresh_op op sm" by auto
  then show ?thesis
  proof cases
    case query
    then show ?thesis using assms(1) by (simp add: sm_apply_query handleQuery_eq [OF ne])
  next
    case old
    then show ?thesis using assms(1) by (simp add: sm_apply_repeated)
  next
    case change
    obtain c' where c': "newConfig op sm = Some c'" "changed op (last (configs sm)) c'"
      "0 \<notin> fst ` set (Groups c')"
      using newConfig_ok [OF assms change(1)] by blast
    have "op_Type op \<noteq> ''Query''" using change(1) by auto
    then show ?thesis
      using c' change sm_ok_append [OF assms(1) c'(2,3)]
      by (simp add: sm_apply_change [OF change]) (simp add: appendConfig_def mark_def)
  next
    case other
    then show ?thesis using assms(1) by (simp add: sm_apply_other) (simp add: mark_def)
  qed
qed

definition new_sm :: "unit ShardMaster" where
  "new_sm = fst (sm_StartServer 3 0 (MakePersister ()))"

lemma new_sm_eval: "configs new_sm = [zero_Config]" "sm_lastApplied new_sm = Map.empty"
  by (simp_all add: new_sm_def sm_StartServer_def case_prod_beta)

lemma sm_ok_new: "sm_ok new_sm"
  by (simp add: sm_ok_def new_sm_eval zero_Config_def config_ok_def)

definition join1 :: sm_Op where
  "join1 = Join_op \<lparr>join_Servers = [(1, [''a'']), (2, [''b''])], join_Id = 1, join_Me = 5\<rparr>"

theorem sm_apply_correct_witness:
  "\<exists>sm' op'. sm_apply 1 join1 new_sm = Some (sm', op') \<and> length (configs sm') = 2 \<and>
     Num (last (configs sm')) = 1"
proof -
  have "op_ok join1" "op_Type join1 = ''Join''" "fresh_op join1 new_sm"
    by (simp_all add: op_ok_def join1_def Join_op_def zero_Op_def fresh_op_def new_sm_eval)
  then show ?thesis
    using sm_apply_correct [OF sm_ok_new, of join1 1]
    by (auto simp: new_sm_eval changed_def zero_Config_def)
qed

text \<open>
  C39. A Move of a shard that does not exist crashes the server that applies it. \<^verbatim>\<open>handleMove\<close> indexes the
  array of shards with the client's number without a check, and the panic happens in every replica and
  again after every restart, because the entry stays in the log.
\<close>

theorem Move_out_of_range_panics:
  assumes "sm_ok sm" and "op_Type op = ''Move''" and "fresh_op op sm"
    and "op_Shard op < 0 \<or> int NShards \<le> op_Shard op"
  shows "sm_apply idx op sm = None"
proof -
  have "latest sm = Some (last (configs sm))" using assms(1) by (simp add: sm_ok_def latest_eq)
  then have "newConfig op sm = None"
    using assms(2,4) sm_ok_last(2) [OF assms(1)]
    by (auto simp: newConfig_def handleMove_def Let_def go_set_def config_ok_def)
  then show ?thesis using assms(2,3) by (simp add: sm_apply_change)
qed

theorem Move_out_of_range_panics_witness:
  "sm_apply 1 (Move_op \<lparr>move_Shard = 10, move_GID = 1, move_Id = 1, move_Me = 5\<rparr>) new_sm = None"
  by (rule Move_out_of_range_panics [OF sm_ok_new])
     (simp_all add: Move_op_def zero_Op_def fresh_op_def new_sm_eval NShards_def)

subsection \<open>Repeated requests\<close>

definition sm_state :: "int \<Rightarrow> sm_Op \<Rightarrow> 'b ShardMaster \<Rightarrow> 'b ShardMaster option" where
  "sm_state idx op sm = map_option fst (sm_apply idx op sm)"

lemma sm_state_cases:
  assumes "sm_state idx op sm = Some sm'"
  shows "sm' = sm \<or> sm' = mark idx op sm \<or> (\<exists>c. sm' = appendConfig c (mark idx op sm))"
proof (cases "op_Type op = ''Query'' \<or> \<not> fresh_op op sm")
  case True
  then show ?thesis
    using assms by (cases "op_Type op = ''Query''") (auto simp: sm_state_def sm_apply_query sm_apply_repeated)
next
  case False
  then show ?thesis
    using assms sm_apply_change [of op sm idx] sm_apply_other [of op sm idx]
    by (cases "op_Type op \<in> {''Join'', ''Leave'', ''Move''}") (auto simp: sm_state_def)
qed

interpretation smd: dedup_machine "sm_state :: _ \<Rightarrow> _ \<Rightarrow> 'b ShardMaster \<Rightarrow> _"
  "\<lambda>sm. configs sm \<noteq> []" sm_lastApplied op_Me op_ReqId "\<lambda>op. op_Type op \<noteq> ''Query''"
proof
  fix sm sm' :: "'b ShardMaster" and op idx n
  assume ne: "configs sm \<noteq> []"
  show "configs sm' \<noteq> []" if "sm_state idx op sm = Some sm'"
    using sm_state_cases [OF that] ne by (auto simp: appendConfig_def)
  show "sm_state idx op sm = Some sm" if "\<not> op_Type op \<noteq> ''Query''"
    using that ne by (simp add: sm_state_def sm_apply_query handleQuery_eq)
  assume w: "op_Type op \<noteq> ''Query''"
  show "sm_state idx op sm = Some sm"
    if "sm_lastApplied sm (op_Me op) = Some n" "op_ReqId op \<le> n"
    using that w by (simp add: sm_state_def sm_apply_repeated fresh_op_def)
  show "sm_lastApplied sm' = (sm_lastApplied sm)(op_Me op \<mapsto> op_ReqId op)"
    if "\<forall>n. sm_lastApplied sm (op_Me op) = Some n \<longrightarrow> n < op_ReqId op" "sm_state idx op sm = Some sm'"
  proof -
    have f: "fresh_op op sm" using that(1) by (simp add: fresh_op_def)
    show ?thesis
    proof (cases "op_Type op \<in> {''Join'', ''Leave'', ''Move''}")
      case True
      then show ?thesis
        using that(2) sm_apply_change [OF True f] by (auto simp: sm_state_def appendConfig_def mark_def)
    next
      case False
      then show ?thesis
        using that(2) w sm_apply_other [OF _ f, of idx] by (auto simp: sm_state_def mark_def)
    qed
  qed
qed

text \<open>
  C28. At most once. After a server has applied a sequence of operations, applying any of them again, in any
  order and at any index, as Raft does after a restart or a client that repeats its request causes,
  changes nothing.
\<close>

theorem shardmaster_at_most_once:
  assumes "run_log sm_state ms sm = Some sm'" and "configs sm \<noteq> []"
    and "snd ` set ms' \<subseteq> snd ` set ms"
  shows "run_log sm_state ms' sm' = Some sm'"
  using assms by (rule smd.replay)

theorem shardmaster_at_most_once_witness:
  "\<exists>sm'. run_log sm_state [(1, join1)] new_sm = Some sm' \<and>
     run_log sm_state [(2, join1), (3, join1)] sm' = Some sm'"
proof -
  have "op_ok join1" by (simp add: op_ok_def join1_def Join_op_def zero_Op_def)
  then obtain sm' where sm': "run_log sm_state [(1, join1)] new_sm = Some sm'"
    using sm_apply_correct [OF sm_ok_new, of join1 1] by (auto simp: sm_state_def)
  then show ?thesis
    using shardmaster_at_most_once [OF sm', of "[(2, join1), (3, join1)]"] by (auto simp: new_sm_eval)
qed

subsection \<open>Agreement of replicas\<close>

text \<open>The replicated part of a server's state.\<close>

definition sm_view :: "'b ShardMaster \<Rightarrow> (int \<rightharpoonup> int) \<times> int \<times> Config list" where
  "sm_view sm = (sm_lastApplied sm, sm_lastIncludedIndex sm, configs sm)"

fun sm_run :: "(sm_Op, 'b) ApplyMsg list \<Rightarrow> 'b ShardMaster \<Rightarrow> 'b ShardMaster option" where
  "sm_run [] sm = Some sm"
| "sm_run (m # ms) sm = do { sm' \<leftarrow> sm_ApplyRoutine m sm; sm_run ms sm' }"

lemma sm_apply_view:
  assumes "sm_view sm = sm_view sn"
  shows "map_option (\<lambda>(s, op). (sm_view s, op)) (sm_apply idx op sm) =
    map_option (\<lambda>(s, op). (sm_view s, op)) (sm_apply idx op sn)"
proof -
  have v: "sm_lastApplied sm = sm_lastApplied sn" "configs sm = configs sn"
    using assms by (simp_all add: sm_view_def)
  have l: "latest sm = latest sn" by (simp add: latest_def v)
  then have j: "handleJoin op sm = handleJoin op sn" "handleLeave op sm = handleLeave op sn"
    "handleMove op sm = handleMove op sn"
    by (simp_all add: handleJoin_def handleLeave_def handleMove_def)
  have h: "handleQuery op sm = handleQuery op sn" "newConfig op sm = newConfig op sn"
    "fresh_op op sm = fresh_op op sn"
    unfolding handleQuery_def newConfig_def fresh_op_def j l v by (rule refl)+
  have m: "sm_view (mark idx op sm) = sm_view (mark idx op sn)"
    "sm_view (appendConfig c (mark idx op sm)) = sm_view (appendConfig c (mark idx op sn))" for c
    by (simp_all add: sm_view_def mark_def appendConfig_def v)
  consider (query) "op_Type op = ''Query''" | (old) "op_Type op \<noteq> ''Query''" "\<not> fresh_op op sn"
    | (change) "op_Type op \<in> {''Join'', ''Leave'', ''Move''}" "fresh_op op sn"
    | (other) "op_Type op \<notin> {''Join'', ''Leave'', ''Move'', ''Query''}" "fresh_op op sn" by auto
  then show ?thesis
  proof cases
    case change
    then show ?thesis using h(3) by (simp add: sm_apply_change h(2) m option.map_comp comp_def)
  qed (use h m assms in \<open>simp_all add: sm_apply_query sm_apply_repeated sm_apply_other
      option.map_comp comp_def\<close>)
qed

lemma sm_ApplyRoutine_view:
  assumes "sm_view sm = sm_view sn"
  shows "map_option sm_view (sm_ApplyRoutine m sm) = map_option sm_view (sm_ApplyRoutine m sn)"
proof (cases "UseSnapshot m \<or> msg_Command m = None")
  case True
  then show ?thesis using assms by (auto simp: sm_ApplyRoutine_def)
next
  case False
  then obtain op where op: "msg_Command m = Some op" by auto
  have w: "sm_view (s\<lparr>sm_waiting := ws\<rparr>) = sm_view s" for s :: "'b ShardMaster" and ws
    by (simp add: sm_view_def)
  show ?thesis
    using sm_apply_view [OF assms, of "msg_Index m" op] False
    by (cases "sm_apply (msg_Index m) op sm"; cases "sm_apply (msg_Index m) op sn")
       (auto simp: sm_ApplyRoutine_def op w split: prod.splits)
qed

text \<open>
  Replicas agree. Two servers that start from the same replicated state and apply the same messages
  end in the same replicated state, or panic together, whatever requests are waiting at each of them
  and whatever their Raft peers are doing.
\<close>

lemma shardmaster_replicas_agree:
  assumes "sm_view sm = sm_view sn"
  shows "map_option sm_view (sm_run ms sm) = map_option sm_view (sm_run ms sn)"
  using assms
proof (induction ms arbitrary: sm sn)
  case (Cons m ms)
  note v = sm_ApplyRoutine_view [OF Cons.prems, of m]
  show ?case
  proof (cases "sm_ApplyRoutine m sm")
    case None
    then show ?thesis using v by simp
  next
    case (Some sm')
    then obtain sn' where n: "sm_ApplyRoutine m sn = Some sn'" "sm_view sm' = sm_view sn'"
      using v by (cases "sm_ApplyRoutine m sn") auto
    show ?thesis using Cons.IH [OF n(2)] Some n(1) by simp
  qed
qed simp

subsection \<open>A query and its answer\<close>

text \<open>
  What a query returns. A request that registered for its index and whose own operation is applied
  there gets success, and the configuration it asked for: the one with its number if there is one, the
  latest otherwise, as of the moment the operation is applied. If another client's operation is
  applied at the index, the request fails.
\<close>

lemma Query_answer:
  assumes "sm_ok sm" and "sm_wait_register idx sm = (s1, ch)" and "op_Type op' = ''Query''"
    and "sm_ApplyRoutine \<lparr>msg_Index = idx, msg_Command = Some op', UseSnapshot = False,
           msg_Snapshot = d\<rparr> s1 = Some s2"
  shows "\<exists>ok ap s3. sm_wait_receive (Query_op a) idx ch s2 = Some ((ok, ap), s3) \<and>
    (ok \<longleftrightarrow> op_ReqId op' = query_Id a \<and> op_Me op' = query_Me a) \<and>
    (op' = Query_op a \<longrightarrow> Query_reply (ok, ap) = \<lparr>sm_WrongLeader = False, sm_Err = ''OK'',
       query_Config = Config_Copy
         (if 0 \<le> query_Num a \<and> query_Num a < int (length (configs sm))
          then configs sm ! nat (query_Num a) else last (configs sm))\<rparr>)"
proof -
  have c: "configs s1 = configs sm" "sm_waiting s1 = fst (register idx (sm_waiting sm))"
    "ch = snd (register idx (sm_waiting sm))"
    using assms(2) by (auto simp: sm_wait_register_def case_prod_beta Let_def dest!: sym [of _ s1])
  then have reg: "register idx (sm_waiting sm) = (sm_waiting s1, ch)" by simp
  let ?c = "Config_Copy (if 0 \<le> op_Num op' \<and> op_Num op' < int (length (configs sm))
    then configs sm ! nat (op_Num op') else last (configs sm))"
  have ne: "configs s1 \<noteq> []" using assms(1) c(1) by (simp add: sm_ok_def)
  have q: "handleQuery op' s1 = Some (op'\<lparr>op_config := ?c\<rparr>)"
    unfolding handleQuery_eq [OF ne] c(1) by (rule refl)
  have s2: "s2 = s1\<lparr>sm_waiting := notify idx (op'\<lparr>op_config := ?c\<rparr>) (sm_waiting s1)\<rparr>"
    using assms(3,4) by (simp add: sm_ApplyRoutine_def sm_apply_query q)
  obtain ws where ws: "receive idx ch (sm_waiting s2) = Some (op'\<lparr>op_config := ?c\<rparr>, ws)"
    using register_notify_receive [OF reg, of "op'\<lparr>op_config := ?c\<rparr>"] unfolding s2 by auto
  let ?ap = "op'\<lparr>op_config := ?c\<rparr>"
  let ?ok = "sm_isSameOp (Query_op a) ?ap"
  have "sm_wait_receive (Query_op a) idx ch s2 = Some ((?ok, ?ap), s2\<lparr>sm_waiting := ws\<rparr>)"
    using ws by (simp add: sm_wait_receive_def)
  moreover have "?ok \<longleftrightarrow> op_ReqId op' = query_Id a \<and> op_Me op' = query_Me a"
    using assms(3) by (auto simp: sm_isSameOp_def Query_op_def zero_Op_def)
  moreover have "Query_reply (?ok, ?ap) = \<lparr>sm_WrongLeader = False, sm_Err = ''OK'',
       query_Config = Config_Copy
         (if 0 \<le> query_Num a \<and> query_Num a < int (length (configs sm))
          then configs sm ! nat (query_Num a) else last (configs sm))\<rparr>" if "op' = Query_op a"
    using that by (simp add: Query_reply_def sm_isSameOp_def) (auto simp: Query_op_def)
  ultimately show ?thesis by blast
qed

definition query1 :: QueryArgs where
  "query1 = \<lparr>query_Num = -1, query_Id = 1, query_Me = 5\<rparr>"

subsection \<open>The clerk\<close>

lemma sm_retry_skip:
  "\<forall>out \<in> set fs. refused wrong out \<Longrightarrow> sm_retry k wrong (fs @ outs) = sm_retry (k + length fs) wrong outs"
  by (induction fs arbitrary: k) (auto simp: refused_def split: option.split)

text \<open>
  The clerk. A query returns exactly when some attempt is answered by a leader, with the configuration
  of the first such answer; it is still trying as long as every attempt failed or was refused. Every
  attempt carries the same request number, one more than the clerk's previous request.
\<close>

lemma sm_clerk_returns:
  "case Clerk_Query num ck outs of (args, ck', res) \<Rightarrow>
     query_Id args = smck_id ck + 1 \<and> smck_id ck' = smck_id ck + 1 \<and> query_Me args = smck_clientId ck \<and>
     (let k = length (takeWhile (refused sm_WrongLeader) outs) in
      case res of
        None \<Rightarrow> k = length outs
      | Some c \<Rightarrow> k < length outs \<and>
          (\<exists>r. outs ! k = Some r \<and> \<not> sm_WrongLeader r \<and> query_Config r = c))"
proof (cases rule: split_refused [of outs sm_WrongLeader])
  case 1
  then show ?thesis
    using sm_retry_skip [of outs sm_WrongLeader 0 "[]"]
    by (simp add: Clerk_Query_def Let_def sm_next_def)
next
  case (2 fs r rest)
  have ret: "sm_retry 0 sm_WrongLeader outs = Some (r, length fs)"
    using sm_retry_skip [OF 2(2), of 0 "Some r # rest"] 2(1,3) by simp
  have "outs ! length fs = Some r" "length fs < length outs" using 2(1) by simp_all
  then show ?thesis
    using ret 2(3) unfolding 2(4) by (simp add: Clerk_Query_def Let_def sm_next_def)
qed

end
