(* ===== verification/Replicas.thy ===== *)
theory Replicas
  imports KV_Machine Shard_Machine Raft_Loss Raft_Invariants Raft_Local
begin

text \<open>
  The services over Raft. A peer's apply routine hands its log to the service above it, entry by entry;
  two peers whose logs hold an entry of the same term at an index hand over the same commands up to
  it, so the servers above them stay in the same state. The contract of a service is the locale
  \<open>replicated_service\<close>; the key/value server and the shard master satisfy it.
\<close>

subsection \<open>What the apply routine hands over\<close>

text \<open>\<open>j\<close> iterations of \<^verbatim>\<open>BackgroundApplyRoutine\<close> that each send a message; \<open>None\<close> when one does not.\<close>

fun apply_many :: "'b \<Rightarrow> nat \<Rightarrow> ('c, 'b) Raft \<Rightarrow> (('c, 'b) Raft \<times> ('c, 'b) ApplyMsg list) option" where
  "apply_many nil 0 rf = Some (rf, [])"
| "apply_many nil (Suc j) rf =
     (case BackgroundApply nil rf of
        Some (Applied rf' m) \<Rightarrow> map_option (\<lambda>(rf'', ms). (rf'', m # ms)) (apply_many nil j rf')
      | _ \<Rightarrow> None)"

fun commands :: "('c, 'b) ApplyMsg list \<Rightarrow> (int \<times> 'c) list" where
  "commands [] = []"
| "commands (m # ms) =
     (case msg_Command m of None \<Rightarrow> commands ms | Some c \<Rightarrow> (msg_Index m, c) # commands ms)"

definition entry_message :: "'b \<Rightarrow> ('c, 'b) Raft \<Rightarrow> int \<Rightarrow> ('c, 'b) ApplyMsg" where
  "entry_message nil rf i =
     \<lparr>msg_Index = i, msg_Command = map_option Command (entry_at rf i), UseSnapshot = False,
      msg_Snapshot = nil\<rparr>"

lemma BackgroundApply_message:
  assumes "BackgroundApply nil rf = Some (Applied rf' m)" and "ordered rf"
  shows "rf' = rf\<lparr>lastApplied := lastApplied rf + 1\<rparr>" and "m = entry_message nil rf (lastApplied rf + 1)"
    and "entry_at rf (lastApplied rf + 1) \<noteq> None"
  using assms
  by (auto simp: BackgroundApply_def Let_def entry_message_def entry_at_def ordered_def go_index_eq_Some
      lastLogIndex_def algebra_simps split: if_splits bind_splits)

lemma apply_many_messages:
  assumes "apply_many nil j rf = Some (rf', ms)" and "ordered rf"
  shows "ms = map (\<lambda>d. entry_message nil rf (lastApplied rf + 1 + int d)) [0..<j] \<and>
    (\<forall>d < j. entry_at rf (lastApplied rf + 1 + int d) \<noteq> None)"
  using assms
proof (induction j arbitrary: rf ms)
  case (Suc j)
  then obtain rf1 m ms1 where a: "BackgroundApply nil rf = Some (Applied rf1 m)"
    "apply_many nil j rf1 = Some (rf', ms1)" "ms = m # ms1"
    by (auto split: option.splits apply_result.splits)
  note m = BackgroundApply_message [OF a(1) Suc.prems(2)]
  have o: "ordered rf1" using ord.inv_BackgroundApply [OF Suc.prems(2) a(1)] .
  have e: "entry_at rf1 i = entry_at rf i" "entry_message nil rf1 i = entry_message nil rf i" for i
    by (simp_all add: m(1) entry_at_def entry_message_def lastLogIndex_def)
  have l: "lastApplied rf1 = lastApplied rf + 1" by (simp add: m(1))
  have "map (\<lambda>d. entry_message nil rf (lastApplied rf + 1 + int d)) [0..<Suc j] =
      m # map (\<lambda>d. entry_message nil rf (lastApplied rf + 1 + int (Suc d))) [0..<j]"
    using m(2) by (simp add: upt_conv_Cons map_Suc_upt [symmetric] comp_def del: upt_Suc)
  moreover have "\<forall>d < Suc j. entry_at rf (lastApplied rf + 1 + int d) \<noteq> None"
    using Suc.IH [OF a(2) o] m(3) by (auto simp: less_Suc_eq_0_disj e l algebra_simps)
  ultimately show ?case using Suc.IH [OF a(2) o] a(3) by (simp add: e l algebra_simps)
qed simp

text \<open>Peers that agree on the last entry handed over hand over the same messages.\<close>

lemma same_messages:
  assumes w: "reachable N w" "a \<in> peer_ids N" "b \<in> peer_ids N"
    and "lastApplied (nodes w a) = lastApplied (nodes w b)"
    and k: "entry_at (nodes w a) k = Some x" "entry_at (nodes w b) k = Some y" "Term x = Term y"
    and "k = lastApplied (nodes w a) + int j"
    and "apply_many nil j (nodes w a) = Some (ra, msa)" "apply_many nil j (nodes w b) = Some (rb, msb)"
  shows "msa = msb"
proof -
  have o: "ordered (nodes w a)" "ordered (nodes w b)" using ord.holds [OF w(1)] w(2,3) by blast+
  note A = apply_many_messages [OF assms(9) o(1)] and B = apply_many_messages [OF assms(10) o(2)]
  have "entry_at (nodes w a) (lastApplied (nodes w a) + 1 + int d) =
      entry_at (nodes w b) (lastApplied (nodes w a) + 1 + int d)" if d: "d < j" for d
  proof -
    obtain u v where uv: "entry_at (nodes w a) (lastApplied (nodes w a) + 1 + int d) = Some u"
      "entry_at (nodes w b) (lastApplied (nodes w a) + 1 + int d) = Some v"
      using A B d assms(4) by (metis not_None_eq)
    moreover have "lastApplied (nodes w a) + 1 + int d \<le> k" using assms(8) d by simp
    ultimately show ?thesis using entries_agree [OF w k _ uv] by simp
  qed
  then show ?thesis using A B assms(4) by (auto simp: entry_message_def)
qed

subsection \<open>Services\<close>

text \<open>
  A service runs the commands it is handed (\<open>None\<close> is a panic); what it replicates is its \<open>view\<close>, which
  after a run depends on nothing but the view before it.
\<close>

locale replicated_service =
  fixes run :: "(int \<times> 'op) list \<Rightarrow> 'st \<Rightarrow> 'st option" and view :: "'st \<Rightarrow> 'v"
  assumes deterministic: "view s = view t \<Longrightarrow> run ms s = Some s' \<Longrightarrow> run ms t = Some t' \<Longrightarrow> view s' = view t'"
begin

lemma in_step:
  assumes "reachable N w" "a \<in> peer_ids N" "b \<in> peer_ids N"
    and "lastApplied (nodes w a) = lastApplied (nodes w b)"
    and "entry_at (nodes w a) k = Some x" "entry_at (nodes w b) k = Some y" "Term x = Term y"
    and "k = lastApplied (nodes w a) + int j"
    and "apply_many nil j (nodes w a) = Some (ra, msa)" "apply_many nil j (nodes w b) = Some (rb, msb)"
    and "run (commands msa) s = Some s'" "run (commands msb) t = Some t'" and "view s = view t"
  shows "view s' = view t'"
  using same_messages [OF assms(1-10)] deterministic [OF assms(13)] assms(11,12) by simp

end

text \<open>The key/value server.\<close>

lemma entry_msg_commands: "apply_many [] j rf = Some (rf', ms) \<Longrightarrow> ordered rf \<Longrightarrow> map entry_msg (commands ms) = ms"
proof -
  have "map entry_msg (commands (map (entry_message [] rf) ks)) = map (entry_message [] rf) ks"
    if "\<forall>i \<in> set ks. entry_at rf i \<noteq> None" for ks and rf
    using that by (induction ks) (auto simp: entry_message_def entry_msg_def)
  from this [of "map (\<lambda>d. lastApplied rf + 1 + int d) [0..<j]"]
  show "apply_many [] j rf = Some (rf', ms) \<Longrightarrow> ordered rf \<Longrightarrow> map entry_msg (commands ms) = ms"
    using apply_many_messages [of "[]" j rf rf' ms] by (auto simp: comp_def)
qed

interpretation kvs: replicated_service "\<lambda>ms. kv_run bytes (map entry_msg ms)" kv_view for bytes
  by unfold_locales (simp add: kv_run_entries)

text \<open>The shard master.\<close>

definition sm_entry_msg :: "'b \<Rightarrow> int \<times> sm_Op \<Rightarrow> (sm_Op, 'b) ApplyMsg" where
  "sm_entry_msg nil m = \<lparr>msg_Index = fst m, msg_Command = Some (snd m), UseSnapshot = False, msg_Snapshot = nil\<rparr>"

interpretation sms: replicated_service "\<lambda>ms. sm_run (map (sm_entry_msg nil) ms)" sm_view for nil
proof
  fix s t s' t' ms
  assume "sm_view s = sm_view t" "sm_run (map (sm_entry_msg nil) ms) s = Some s'"
    "sm_run (map (sm_entry_msg nil) ms) t = Some t'"
  then show "sm_view s' = sm_view t'"
    using shardmaster_replicas_agree [of s t "map (sm_entry_msg nil) ms"] by simp
qed

subsection \<open>Replicas agree\<close>

text \<open>
  C19. Key/value servers stay in step. Suppose two servers of a reachable cluster have handed over entries
  up to the same index and the replicated states above them are equal. When both hand over the
  entries up to an index at which their logs hold an entry of the same term, and neither server
  panics, then the messages are the same and so are the stores, the duplicate filters and the
  snapshot positions.
\<close>

theorem kv_replicas_agree:
  assumes "reachable N w" and "a \<in> peer_ids N" and "b \<in> peer_ids N"
    and "lastApplied (nodes w a) = lastApplied (nodes w b)"
    and "entry_at (nodes w a) k = Some x" and "entry_at (nodes w b) k = Some y" and "Term x = Term y"
    and "k = lastApplied (nodes w a) + int j"
    and "apply_many nil j (nodes w a) = Some (ra, msa)" and "apply_many nil j (nodes w b) = Some (rb, msb)"
    and "kv_run bytes (map entry_msg (commands msa)) kva = Some kva'"
    and "kv_run bytes (map entry_msg (commands msb)) kvb = Some kvb'"
    and "kv_view kva = kv_view kvb"
  shows "msa = msb \<and> kv_view kva' = kv_view kvb'"
  using same_messages [OF assms(1-10)] kvs.in_step [OF assms] by blast

definition append_put :: "int \<Rightarrow> int \<Rightarrow> kv_Op list \<Rightarrow> int \<Rightarrow> kv_Op AppendEntriesArgs" where
  "append_put i t ops c = \<lparr>ae_Term = 1, PrevLogIndex = i, PrevLogTerm = t,
     Entries = map (\<lambda>op. \<lparr>Term = 1, Index = 0, Command = op\<rparr>) ops, LeaderCommit = c\<rparr>"

definition replicate_put :: "kv_Op action list" where
  "replicate_put =
     [Tick 0 t0, Elect 0 t1, VoteRequest 0 1 vote0 t1, VoteReply 0 1 vote0 grant0 t1, Submit 0 put1,
      AppendRequest 0 1 (append_put 0 0 [put1] 0) t1,
      AppendReply 0 1 (append_put 0 0 [put1] 0) (accepted 1) t1, Heartbeat 0,
      AppendRequest 0 1 (append_put 1 1 [] 1) t1]"

definition seen_from :: "(kv_Op, unit) cluster \<Rightarrow> int \<Rightarrow> int \<times> kv_Op LogEntry option \<times> (int \<times> kv_Op) list option" where
  "seen_from w n = (lastApplied (nodes w n), entry_at (nodes w n) 1,
     map_option (\<lambda>(rf, ms). commands ms) (apply_many () 1 (nodes w n)))"

lemma replicate_put_eval:
  "map_option (\<lambda>w. (seen_from w 0, seen_from w 1)) (acts 3 replicate_put (init_cluster 3 ())) =
     Some ((0, Some \<lparr>Term = 1, Index = 0, Command = put1\<rparr>, Some [(1, put1)]),
           (0, Some \<lparr>Term = 1, Index = 0, Command = put1\<rparr>, Some [(1, put1)]))"
  by code_simp

theorem kv_replicas_agree_witness:
  "\<exists>(w :: (kv_Op, unit) cluster) ra rb msa msb kv'. reachable 3 w \<and>
     apply_many () 1 (nodes w 0) = Some (ra, msa) \<and> apply_many () 1 (nodes w 1) = Some (rb, msb) \<and>
     msa = msb \<and> commands msa = [(1, put1)] \<and> kv_run (\<lambda>_. 0) (map entry_msg (commands msa)) kv_new = Some kv'"
proof -
  let ?e = "\<lparr>Term = 1, Index = 0, Command = put1\<rparr>"
  obtain w where w: "acts 3 replicate_put (init_cluster 3 ()) = Some w"
    and s: "seen_from w 0 = (0, Some ?e, Some [(1, put1)])" "seen_from w 1 = (0, Some ?e, Some [(1, put1)])"
    using replicate_put_eval by auto
  have r: "reachable 3 w" by (rule cluster_steps_reachable [OF acts_steps [OF w] reachable.init])
  obtain ra msa rb msb where m: "apply_many () 1 (nodes w 0) = Some (ra, msa)" "commands msa = [(1, put1)]"
    "apply_many () 1 (nodes w 1) = Some (rb, msb)" "commands msb = [(1, put1)]"
    using s unfolding seen_from_def prod.inject map_option_eq_Some by (auto split: prod.splits)
  obtain kv' where k: "kv_run (\<lambda>_. 0) (map entry_msg [(1, put1)]) kv_new = Some kv'"
    using kv_run_total [OF kv_new_max] by blast
  have "msa = msb \<and> kv_view kv' = kv_view kv'"
    by (rule kv_replicas_agree [OF r, of 0 1 1 ?e ?e 1, OF _ _ _ _ _ _ _ m(1,3) k [folded m(2)] k [folded m(4)]])
       (use s in \<open>simp_all add: seen_from_def\<close>)
  then show ?thesis using r m k by auto
qed

text \<open>Shard masters stay in step likewise.\<close>

lemmas sm_replicas_in_step = sms.in_step

end
