(* ===== verification/Shard_KV.thy ===== *)
theory Shard_KV
  imports Shard_Machine
begin

text \<open>
  The sharded key/value service (\<^verbatim>\<open>src/src/shardkv\<close>): the clerk of \<^verbatim>\<open>client.go\<close>, which finds the group of a
  key's shard in the shard master's configuration, and the server of \<^verbatim>\<open>server.go\<close>, whose request handlers
  are empty.

  The clerk is a function of what the network answers: one round per turn of its outer loop, with the
  outcomes of the calls to the group's servers and of the query to the shard master. \<open>None\<close> is a panic.
\<close>

subsection \<open>Data\<close>

record sk_PutAppendArgs =
  skpa_Key :: string
  skpa_Value :: string
  skpa_Op :: string

record sk_PutAppendReply =
  sk_WrongLeader :: bool
  sk_Err :: string

record sk_GetArgs =
  skg_Key :: string

record sk_GetReply = sk_PutAppendReply +
  sk_Value :: string

subsection \<open>The server\<close>

record 'b ShardKV =
  sk_me :: int
  sk_rf :: "(unit, 'b) Raft"
  sk_gid :: int
  sk_masters :: nat
  sk_maxraftstate :: int

text \<open>The handlers return at once: the reply the clerk decodes is the zero value.\<close>

definition sk_Get_handler :: "sk_GetArgs \<Rightarrow> 'b ShardKV \<Rightarrow> sk_GetReply \<times> 'b ShardKV" where
  "sk_Get_handler args kv = (\<lparr>sk_WrongLeader = False, sk_Err = [], sk_Value = []\<rparr>, kv)"

definition sk_PutAppend_handler :: "sk_PutAppendArgs \<Rightarrow> 'b ShardKV \<Rightarrow> sk_PutAppendReply \<times> 'b ShardKV" where
  "sk_PutAppend_handler args kv = (\<lparr>sk_WrongLeader = False, sk_Err = []\<rparr>, kv)"

definition sk_Kill :: "'b ShardKV \<Rightarrow> 'b ShardKV" where
  "sk_Kill kv = kv\<lparr>sk_rf := Kill (sk_rf kv)\<rparr>"

definition sk_StartServer :: "nat \<Rightarrow> int \<Rightarrow> (unit, 'b) Persister \<Rightarrow> int \<Rightarrow> int \<Rightarrow> nat \<Rightarrow>
    'b ShardKV \<times> (unit, 'b) ApplyMsg" where
  "sk_StartServer n i ps maxraftstate gid masters =
     (case Make n i ps of (rf, msg) \<Rightarrow>
        (\<lparr>sk_me = i, sk_rf = rf, sk_gid = gid, sk_masters = masters, sk_maxraftstate = maxraftstate\<rparr>, msg))"

subsection \<open>The clerk\<close>

definition key2shard :: "string \<Rightarrow> int" where
  "key2shard key = (if length key > 0 then of_char (key ! 0) else 0) mod int NShards"

record sk_Clerk =
  sk_sm :: sm_Clerk
  sk_config :: Config

definition sk_MakeClerk :: "nat \<Rightarrow> int \<Rightarrow> sk_Clerk" where
  "sk_MakeClerk masters rand = \<lparr>sk_sm = sm_MakeClerk masters rand, sk_config = zero_Config\<rparr>"

text \<open>
  The inner loop over the servers of a group. \<open>accept\<close> is the test for a result, \<open>wrong\<close> the one for the wrong
  group. The result is the reply that ended the operation, the end of the loop, or that no more outcomes
  are known; with it come the servers that were called.
\<close>

datatype 'r attempt = Returned 'r | NextRound | Blocked

fun try_servers :: "('r \<Rightarrow> bool) \<Rightarrow> ('r \<Rightarrow> bool) \<Rightarrow> string list \<Rightarrow> 'r option list \<Rightarrow> string list \<times> 'r attempt" where
  "try_servers accept wrong [] outs = ([], NextRound)"
| "try_servers accept wrong (srv # servers) [] = ([srv], Blocked)"
| "try_servers accept wrong (srv # servers) (out # outs) =
     (case out of
        Some reply \<Rightarrow>
          if accept reply then ([srv], Returned reply)
          else if wrong reply then ([srv], NextRound)
          else apfst (\<lambda>called. srv # called) (try_servers accept wrong servers outs)
      | None \<Rightarrow> apfst (\<lambda>called. srv # called) (try_servers accept wrong servers outs))"

definition sk_attempt :: "('r \<Rightarrow> bool) \<Rightarrow> ('r \<Rightarrow> bool) \<Rightarrow> string \<Rightarrow> Config \<Rightarrow> 'r option list \<Rightarrow>
    (string list \<times> 'r attempt) option" where
  "sk_attempt accept wrong key c outs =
     do { gid \<leftarrow> go_index (Shards c) (key2shard key);
          case map_of (Groups c) gid of
            Some servers \<Rightarrow> Some (try_servers accept wrong servers outs)
          | None \<Rightarrow> Some ([], NextRound) }"

text \<open>The outer loop: try the group, then ask the shard master for the latest configuration.\<close>

fun sk_loop :: "('r \<Rightarrow> bool) \<Rightarrow> ('r \<Rightarrow> bool) \<Rightarrow> string \<Rightarrow> sk_Clerk \<Rightarrow>
    ('r option list \<times> QueryReply option list) list \<Rightarrow> ((Config \<times> string) list \<times> sk_Clerk \<times> 'r option) option" where
  "sk_loop accept wrong key ck [] = Some ([], ck, None)"
| "sk_loop accept wrong key ck ((outs, qouts) # rounds) =
     do { (called, res) \<leftarrow> sk_attempt accept wrong key (sk_config ck) outs;
          let trace = map (Pair (sk_config ck)) called;
          case res of
            Returned reply \<Rightarrow> Some (trace, ck, Some reply)
          | Blocked \<Rightarrow> Some (trace, ck, None)
          | NextRound \<Rightarrow>
              (case Clerk_Query (-1) (sk_sm ck) qouts of
                 (_, sm', None) \<Rightarrow> Some (trace, ck\<lparr>sk_sm := sm'\<rparr>, None)
               | (_, sm', Some c) \<Rightarrow>
                   map_option (\<lambda>(trace', ck', r). (trace @ trace', ck', r))
                     (sk_loop accept wrong key (ck\<lparr>sk_sm := sm', sk_config := c\<rparr>) rounds)) }"

definition get_accepts :: "sk_GetReply \<Rightarrow> bool" where
  "get_accepts reply \<longleftrightarrow> sk_WrongLeader reply = False \<and> (sk_Err reply = ''OK'' \<or> sk_Err reply = ''ErrNoKey'')"

definition put_accepts :: "sk_PutAppendReply \<Rightarrow> bool" where
  "put_accepts reply \<longleftrightarrow> sk_WrongLeader reply = False \<and> sk_Err reply = ''OK''"

definition sk_Get :: "string \<Rightarrow> sk_Clerk \<Rightarrow> (sk_GetReply option list \<times> QueryReply option list) list \<Rightarrow>
    (sk_GetArgs \<times> (Config \<times> string) list \<times> sk_Clerk \<times> string option) option" where
  "sk_Get key ck rounds =
     map_option (\<lambda>(trace, ck', r). (\<lparr>skg_Key = key\<rparr>, trace, ck', map_option sk_Value r))
       (sk_loop get_accepts (\<lambda>reply. sk_Err reply = ''ErrWrongGroup'') key ck rounds)"

definition sk_PutAppend :: "string \<Rightarrow> string \<Rightarrow> string \<Rightarrow> sk_Clerk \<Rightarrow>
    (sk_PutAppendReply option list \<times> QueryReply option list) list \<Rightarrow>
    (sk_PutAppendArgs \<times> (Config \<times> string) list \<times> sk_Clerk \<times> unit option) option" where
  "sk_PutAppend key v op_name ck rounds =
     map_option (\<lambda>(trace, ck', r). (\<lparr>skpa_Key = key, skpa_Value = v, skpa_Op = op_name\<rparr>, trace, ck', map_option (\<lambda>_. ()) r))
       (sk_loop put_accepts (\<lambda>reply. sk_Err reply = ''ErrWrongGroup'') key ck rounds)"

definition sk_Put :: "string \<Rightarrow> string \<Rightarrow> sk_Clerk \<Rightarrow> (sk_PutAppendReply option list \<times> QueryReply option list) list \<Rightarrow>
    (sk_PutAppendArgs \<times> (Config \<times> string) list \<times> sk_Clerk \<times> unit option) option" where
  "sk_Put key v ck rounds = sk_PutAppend key v ''Put'' ck rounds"

definition sk_Append :: "string \<Rightarrow> string \<Rightarrow> sk_Clerk \<Rightarrow> (sk_PutAppendReply option list \<times> QueryReply option list) list \<Rightarrow>
    (sk_PutAppendArgs \<times> (Config \<times> string) list \<times> sk_Clerk \<times> unit option) option" where
  "sk_Append key v ck rounds = sk_PutAppend key v ''Append'' ck rounds"

subsection \<open>The clerk asks the right servers\<close>

lemma key2shard_range: "0 \<le> key2shard key \<and> key2shard key < int NShards"
  by (simp add: key2shard_def NShards_def)

text \<open>The servers of the group that owns the key's shard.\<close>

definition responsible :: "string \<Rightarrow> Config \<Rightarrow> string set" where
  "responsible key c =
     (case map_of (Groups c) (Shards c ! nat (key2shard key)) of None \<Rightarrow> {} | Some servers \<Rightarrow> set servers)"

lemma try_servers_spec:
  assumes "try_servers accept wrong servers outs = (called, res)"
  shows "set called \<subseteq> set servers \<and> (\<forall>r. res = Returned r \<longrightarrow> accept r \<and> Some r \<in> set outs)"
  using assms
proof (induction servers arbitrary: outs called)
  case (Cons srv servers)
  show ?case
  proof (cases outs)
    case (Cons out outs')
    obtain called' res' where t: "try_servers accept wrong servers outs' = (called', res')" by fastforce
    have IH: "set called' \<subseteq> set servers \<and> (\<forall>r. res' = Returned r \<longrightarrow> accept r \<and> Some r \<in> set outs')" if "res' = res"
      using Cons.IH [of outs' called'] t that by simp
    show ?thesis
    proof (cases "\<exists>r. out = Some r \<and> (accept r \<or> wrong r)")
      case True
      then show ?thesis using Cons.prems Cons by (auto split: if_splits)
    next
      case False
      then have "called = srv # called'" "res' = res" using Cons.prems Cons t by (auto split: option.splits)
      then show ?thesis using IH Cons by auto
    qed
  qed (use Cons.prems in auto)
qed simp

lemma sk_attempt_spec:
  assumes "length (Shards c) = NShards"
  obtains called res where "sk_attempt accept wrong key c outs = Some (called, res)"
    "set called \<subseteq> responsible key c" "\<forall>r. res = Returned r \<longrightarrow> accept r \<and> Some r \<in> set outs"
proof -
  have g: "go_index (Shards c) (key2shard key) = Some (Shards c ! nat (key2shard key))"
    using key2shard_range assms by (simp add: go_index_def)
  show ?thesis
  proof (cases "map_of (Groups c) (Shards c ! nat (key2shard key))")
    case None
    then show ?thesis using g by (intro that [of "[]" NextRound]) (simp_all add: sk_attempt_def)
  next
    case (Some servers)
    obtain called res where t: "try_servers accept wrong servers outs = (called, res)" by fastforce
    then show ?thesis using g Some try_servers_spec [OF t]
      by (intro that [of called res]) (simp_all add: sk_attempt_def responsible_def)
  qed
qed

text \<open>Configurations are arrays of ten shards in Go: so are those in a sequence of query outcomes.\<close>

definition arrays :: "('r option list \<times> QueryReply option list) list \<Rightarrow> bool" where
  "arrays rounds \<longleftrightarrow>
     (\<forall>round \<in> set rounds. \<forall>q. Some q \<in> set (snd round) \<longrightarrow> length (Shards (query_Config q)) = NShards)"

lemma sm_retry_member: "sm_retry k wrong outs = Some (r, m) \<Longrightarrow> Some r \<in> set outs"
  by (induction outs arbitrary: k) (auto split: option.splits if_splits)

lemma sk_loop_spec:
  assumes "length (Shards (sk_config ck)) = NShards" and "arrays rounds"
  shows "\<exists>trace ck' res. sk_loop accept wrong key ck rounds = Some (trace, ck', res) \<and>
    (\<forall>called \<in> set trace. snd called \<in> responsible key (fst called)) \<and>
    (\<forall>r. res = Some r \<longrightarrow> accept r \<and> (\<exists>round \<in> set rounds. Some r \<in> set (fst round)))"
  using assms
proof (induction rounds arbitrary: ck)
  case (Cons rnd rounds)
  obtain outs qouts where rnd: "rnd = (outs, qouts)" by fastforce
  obtain called res where a: "sk_attempt accept wrong key (sk_config ck) outs = Some (called, res)"
    "set called \<subseteq> responsible key (sk_config ck)" "\<forall>r. res = Returned r \<longrightarrow> accept r \<and> Some r \<in> set outs"
    by (rule sk_attempt_spec [OF Cons.prems(1)])
  show ?case
  proof (cases "res = NextRound")
    case False
    then show ?thesis using a rnd by (cases res) auto
  next
    case next_round: True
    obtain args sm' c where q: "Clerk_Query (-1) (sk_sm ck) qouts = (args, sm', c)" by (metis prod_cases3)
    show ?thesis
    proof (cases c)
      case None
      then show ?thesis using a q rnd next_round by auto
    next
      case (Some c')
      then obtain r m where "sm_retry 0 sm_WrongLeader qouts = Some (r, m)" "c' = query_Config r"
        using q by (auto simp: Clerk_Query_def Let_def)
      then have "length (Shards c') = NShards"
        using Cons.prems(2) rnd sm_retry_member by (fastforce simp: arrays_def)
      moreover have "arrays rounds" using Cons.prems(2) by (simp add: arrays_def)
      ultimately obtain trace ck' res' where
        "sk_loop accept wrong key (ck\<lparr>sk_sm := sm', sk_config := c'\<rparr>) rounds = Some (trace, ck', res')"
        "\<forall>called \<in> set trace. snd called \<in> responsible key (fst called)"
        "\<forall>r. res' = Some r \<longrightarrow> accept r \<and> (\<exists>round \<in> set rounds. Some r \<in> set (fst round))"
        using Cons.IH [of "ck\<lparr>sk_sm := sm', sk_config := c'\<rparr>"] by auto
      then show ?thesis using a(1,2) q Some rnd next_round by auto
    qed
  qed
qed simp

text \<open>
  C36. The sharded clerk. A Get never indexes the shards out of range; it calls only servers of the group
  that its current configuration assigns to the key's shard; it returns only with the value of a reply
  that reports success or a missing key. Against the servers of this repository, whose handlers are
  empty, it never returns: the reply they leave is none of these.
\<close>

theorem sk_Get_outcome:
  assumes "length (Shards (sk_config ck)) = NShards" and "arrays rounds"
  shows "\<exists>trace ck' res. sk_Get key ck rounds = Some (\<lparr>skg_Key = key\<rparr>, trace, ck', res) \<and>
    (\<forall>called \<in> set trace. snd called \<in> responsible key (fst called)) \<and>
    (\<forall>v. res = Some v \<longrightarrow> (\<exists>round \<in> set rounds. \<exists>r. Some r \<in> set (fst round) \<and> sk_Value r = v \<and>
       \<not> sk_WrongLeader r \<and> sk_Err r \<in> {''OK'', ''ErrNoKey''})) \<and>
    ((\<forall>round \<in> set rounds. \<forall>r. Some r \<in> set (fst round) \<longrightarrow> r = fst (sk_Get_handler args kv)) \<longrightarrow> res = None)"
proof -
  obtain trace ck' res where loop:
    "sk_loop get_accepts (\<lambda>reply. sk_Err reply = ''ErrWrongGroup'') key ck rounds = Some (trace, ck', res)"
    "\<forall>called \<in> set trace. snd called \<in> responsible key (fst called)"
    "\<forall>r. res = Some r \<longrightarrow> get_accepts r \<and> (\<exists>round \<in> set rounds. Some r \<in> set (fst round))"
    using sk_loop_spec [OF assms] by blast
  have get: "sk_Get key ck rounds = Some (\<lparr>skg_Key = key\<rparr>, trace, ck', map_option sk_Value res)"
    using loop(1) by (simp add: sk_Get_def)
  show ?thesis
  proof (cases res)
    case None
    then show ?thesis using get loop(2) by auto
  next
    case (Some r)
    then have acc: "get_accepts r" and "\<exists>round \<in> set rounds. Some r \<in> set (fst round)" using loop(3) by auto
    then obtain rnd where rnd: "rnd \<in> set rounds" "Some r \<in> set (fst rnd)" by blast
    have "r \<noteq> fst (sk_Get_handler args kv)" using acc by (auto simp: get_accepts_def sk_Get_handler_def)
    then have "\<not> (\<forall>round \<in> set rounds. \<forall>r. Some r \<in> set (fst round) \<longrightarrow> r = fst (sk_Get_handler args kv))"
      using rnd by blast
    moreover have "\<exists>round \<in> set rounds. \<exists>r'. Some r' \<in> set (fst round) \<and> sk_Value r' = sk_Value r \<and>
       \<not> sk_WrongLeader r' \<and> sk_Err r' \<in> {''OK'', ''ErrNoKey''}"
      using rnd acc by (intro bexI [OF _ rnd(1)] exI [of _ r]) (simp add: get_accepts_def)
    ultimately show ?thesis using get loop(2) Some by (intro exI [of _ trace] exI [of _ ck']) auto
  qed
qed

text \<open>A clerk that first learns the configuration, then is answered by the group's second server.\<close>

definition sample_config :: Config where
  "sample_config = \<lparr>Num = 1, Shards = replicate 10 4, Groups = [(4, [''s1'', ''s2''])]\<rparr>"

definition sample_rounds :: "(sk_GetReply option list \<times> QueryReply option list) list" where
  "sample_rounds =
     [([], [Some \<lparr>sm_WrongLeader = False, sm_Err = ''OK'', query_Config = sample_config\<rparr>]),
      ([None, Some \<lparr>sk_WrongLeader = False, sk_Err = ''OK'', sk_Value = ''v''\<rparr>], [])]"

theorem sk_Get_outcome_witness:
  "arrays sample_rounds \<and>
   (\<exists>trace ck'. sk_Get ''k'' (sk_MakeClerk 3 9) sample_rounds = Some (\<lparr>skg_Key = ''k''\<rparr>, trace, ck', Some ''v'') \<and>
      (\<forall>called \<in> set trace. snd called \<in> responsible ''k'' (fst called)))"
proof -
  have a: "arrays sample_rounds" by (simp add: arrays_def sample_rounds_def sample_config_def NShards_def)
  have l: "length (Shards (sk_config (sk_MakeClerk 3 9))) = NShards"
    by (simp add: sk_MakeClerk_def zero_Config_def)
  have v: "map_option (\<lambda>(_, _, _, res). res) (sk_Get ''k'' (sk_MakeClerk 3 9) sample_rounds) = Some (Some ''v'')"
    by code_simp
  obtain trace ck' res where "sk_Get ''k'' (sk_MakeClerk 3 9) sample_rounds = Some (\<lparr>skg_Key = ''k''\<rparr>, trace, ck', res)"
    "\<forall>called \<in> set trace. snd called \<in> responsible ''k'' (fst called)"
    using sk_Get_outcome [OF l a, where key = "''k''"] by blast
  then show ?thesis using a v by auto
qed

end
