(* ===== verification/Map_Reduce.thy ===== *)
theory Map_Reduce
  imports Go_Prelude "HOL-Library.Word" "HOL-Library.List_Lexorder" "HOL-Library.Char_ord"
    "HOL-Library.Multiset"
begin

text \<open>
  MapReduce (\<^verbatim>\<open>src/src/mapreduce\<close>): the names of the intermediate files, the partition function, map and
  reduce tasks, the merge of their results, and the sequential master that runs them one after another.

  Strings are byte strings, ordered as Go orders them. The file system maps names to contents and says
  which names can be created. The JSON encoder and decoder of the library are parameters, and so is the
  order that \<^verbatim>\<open>sort.Slice\<close>, which is not stable, gives to entries with equal keys. \<open>None\<close> is
  \<^verbatim>\<open>log.Fatal\<close> or a panic: the process is gone.
\<close>

unbundle bit_operations_syntax

subsection \<open>Data\<close>

datatype jobPhase = mapPhase | reducePhase

record KeyValue =
  Key :: string
  Value :: string

record filesystem =
  contents :: "string \<rightharpoonup> string"
  writable :: "string \<Rightarrow> bool"

text \<open>
  \<^verbatim>\<open>encoding/json\<close>: the text of one value, and the values a decoder reads from a text with whether it
  stopped at the end of the text (\<^verbatim>\<open>io.EOF\<close>) or at an error.
\<close>

record json =
  encode :: "KeyValue \<Rightarrow> string"
  decode :: "string \<Rightarrow> KeyValue list \<times> bool"

definition create :: "string \<Rightarrow> filesystem \<Rightarrow> filesystem option" where
  "create name fs = (if writable fs name then Some (fs\<lparr>contents := (contents fs)(name \<mapsto> [])\<rparr>) else None)"

text \<open>Writing to a file that was created before: the text is appended to what it holds.\<close>

definition append_to :: "string \<Rightarrow> string \<Rightarrow> filesystem \<Rightarrow> filesystem" where
  "append_to name s fs =
     fs\<lparr>contents := (contents fs)(name \<mapsto> (case contents fs name of None \<Rightarrow> [] | Some t \<Rightarrow> t) @ s)\<rparr>"

subsection \<open>Names\<close>

text \<open>\<^verbatim>\<open>strconv.Itoa\<close> of a task number.\<close>

fun Itoa :: "nat \<Rightarrow> string" where
  "Itoa n = (if n < 10 then [char_of (48 + n)] else Itoa (n div 10) @ [char_of (48 + n mod 10)])"

declare Itoa.simps [simp del]

definition reduceName :: "string \<Rightarrow> nat \<Rightarrow> nat \<Rightarrow> string" where
  "reduceName jobName mapTask reduceTask =
     ''mrtmp.'' @ jobName @ ''-'' @ Itoa mapTask @ ''-'' @ Itoa reduceTask"

definition mergeName :: "string \<Rightarrow> nat \<Rightarrow> string" where
  "mergeName jobName reduceTask = ''mrtmp.'' @ jobName @ ''-res-'' @ Itoa reduceTask"

subsection \<open>The partition function\<close>

text \<open>\<^verbatim>\<open>hash/fnv\<close>, New32a: exclusive or with the byte, then multiply, modulo \<open>2 ^ 32\<close>.\<close>

definition fnv32a :: "string \<Rightarrow> 32 word" where
  "fnv32a s = foldl (\<lambda>h c. (h XOR of_char c) * 16777619) 2166136261 s"

definition ihash :: "string \<Rightarrow> nat" where
  "ihash s = unat (fnv32a s AND 0x7fffffff)"

subsection \<open>Map tasks\<close>

fun create_all :: "string list \<Rightarrow> filesystem \<Rightarrow> filesystem option" where
  "create_all [] fs = Some fs"
| "create_all (name # names) fs = do { fs' \<leftarrow> create name fs; create_all names fs' }"

text \<open>The loop over the pairs; \<^verbatim>\<open>ihash(kv.Key) % nReduce\<close> panics when there are no reduce tasks.\<close>

fun emit :: "json \<Rightarrow> string \<Rightarrow> nat \<Rightarrow> nat \<Rightarrow> KeyValue list \<Rightarrow> filesystem \<Rightarrow> filesystem option" where
  "emit j jobName mapTask nReduce [] fs = Some fs"
| "emit j jobName mapTask nReduce (kv # kvs) fs =
     (if nReduce = 0 then None
      else emit j jobName mapTask nReduce kvs
        (append_to (reduceName jobName mapTask (ihash (Key kv) mod nReduce)) (encode j kv) fs))"

definition doMap :: "json \<Rightarrow> string \<Rightarrow> nat \<Rightarrow> string \<Rightarrow> nat \<Rightarrow>
    (string \<Rightarrow> string \<Rightarrow> KeyValue list) \<Rightarrow> filesystem \<Rightarrow> filesystem option" where
  "doMap j jobName mapTaskNumber inFile nReduce mapF fs =
     do { data \<leftarrow> contents fs inFile;
          let kvs = mapF inFile data;
          fs1 \<leftarrow> create_all (map (reduceName jobName mapTaskNumber) [0..<nReduce]) fs;
          emit j jobName mapTaskNumber nReduce kvs fs1 }"

subsection \<open>Reduce tasks\<close>

text \<open>The loop over the map tasks: a file that cannot be opened is skipped, a decoding error is fatal.\<close>

fun collect :: "json \<Rightarrow> string \<Rightarrow> nat \<Rightarrow> nat list \<Rightarrow> filesystem \<Rightarrow> KeyValue list option" where
  "collect j jobName reduceTask [] fs = Some []"
| "collect j jobName reduceTask (mi # mis) fs =
     (case contents fs (reduceName jobName mi reduceTask) of
        None \<Rightarrow> collect j jobName reduceTask mis fs
      | Some text \<Rightarrow> (case decode j text of (kvs, eof) \<Rightarrow>
          if \<not> eof then None
          else map_option (\<lambda>rest. kvs @ rest) (collect j jobName reduceTask mis fs)))"

text \<open>The two nested loops over the sorted pairs: the runs of equal keys, each with its values.\<close>

function key_runs :: "KeyValue list \<Rightarrow> (string \<times> string list) list" where
  "key_runs [] = []"
| "key_runs (kv # kvs) =
     (Key kv, Value kv # map Value (takeWhile (\<lambda>x. Key x = Key kv) kvs)) #
     key_runs (dropWhile (\<lambda>x. Key x = Key kv) kvs)"
  by pat_completeness auto
termination
  by (relation "measure length") (auto simp: le_imp_less_Suc length_dropWhile_le)

definition doReduce :: "json \<Rightarrow> (KeyValue list \<Rightarrow> KeyValue list) \<Rightarrow> string \<Rightarrow> nat \<Rightarrow> string \<Rightarrow> nat \<Rightarrow>
    (string \<Rightarrow> string list \<Rightarrow> string) \<Rightarrow> filesystem \<Rightarrow> filesystem option" where
  "doReduce j sortSlice jobName reduceTaskNumber outFile nMap reduceF fs =
     do { kvs \<leftarrow> collect j jobName reduceTaskNumber [0..<nMap] fs;
          let sorted_kvs = sortSlice kvs;
          fs1 \<leftarrow> create outFile fs;
          Some (foldl (\<lambda>fs (k, vals).
              append_to outFile (encode j \<lparr>Key = k, Value = reduceF k vals\<rparr>) fs)
            fs1 (key_runs sorted_kvs)) }"

subsection \<open>Merging\<close>

text \<open>Reading the results: a missing file is fatal, decoding stops at the first error of any kind.\<close>

fun merge_read :: "json \<Rightarrow> string \<Rightarrow> nat list \<Rightarrow> filesystem \<Rightarrow> (string \<rightharpoonup> string) \<Rightarrow>
    (string \<rightharpoonup> string) option" where
  "merge_read j jobName [] fs m = Some m"
| "merge_read j jobName (i # is) fs m =
     (case contents fs (mergeName jobName i) of
        None \<Rightarrow> None
      | Some text \<Rightarrow>
          merge_read j jobName is fs (foldl (\<lambda>m kv. m(Key kv \<mapsto> Value kv)) m (fst (decode j text))))"

definition merge_line :: "(string \<rightharpoonup> string) \<Rightarrow> string \<Rightarrow> string" where
  "merge_line m k = k @ '': '' @ the (m k) @ ''\<newline>''"

definition merge :: "json \<Rightarrow> string \<Rightarrow> nat \<Rightarrow> filesystem \<Rightarrow> filesystem option" where
  "merge j jobName nReduce fs =
     do { kvs \<leftarrow> merge_read j jobName [0..<nReduce] fs Map.empty;
          let keys = sorted_list_of_set (dom kvs);
          fs1 \<leftarrow> create (''mrtmp.'' @ jobName) fs;
          Some (append_to (''mrtmp.'' @ jobName) (concat (map (merge_line kvs) keys)) fs1) }"

definition removeFile :: "string \<Rightarrow> filesystem \<Rightarrow> filesystem option" where
  "removeFile n fs =
     (case contents fs n of
        None \<Rightarrow> None
      | Some _ \<Rightarrow> Some (fs\<lparr>contents := (contents fs)(n := None)\<rparr>))"

fun remove_all :: "string list \<Rightarrow> filesystem \<Rightarrow> filesystem option" where
  "remove_all [] fs = Some fs"
| "remove_all (n # ns) fs = do { fs' \<leftarrow> removeFile n fs; remove_all ns fs' }"

definition CleanupFiles :: "string \<Rightarrow> nat \<Rightarrow> nat \<Rightarrow> filesystem \<Rightarrow> filesystem option" where
  "CleanupFiles jobName nFiles nReduce fs =
     do { fs1 \<leftarrow> remove_all (concat (map (\<lambda>i. map (reduceName jobName i) [0..<nReduce]) [0..<nFiles])) fs;
          fs2 \<leftarrow> remove_all (map (mergeName jobName) [0..<nReduce]) fs1;
          removeFile (''mrtmp.'' @ jobName) fs2 }"

subsection \<open>The sequential master\<close>

fun map_tasks :: "json \<Rightarrow> string \<Rightarrow> nat \<Rightarrow> (string \<Rightarrow> string \<Rightarrow> KeyValue list) \<Rightarrow>
    nat \<Rightarrow> string list \<Rightarrow> filesystem \<Rightarrow> filesystem option" where
  "map_tasks j jobName nReduce mapF i [] fs = Some fs"
| "map_tasks j jobName nReduce mapF i (f # files) fs =
     do { fs' \<leftarrow> doMap j jobName i f nReduce mapF fs;
          map_tasks j jobName nReduce mapF (Suc i) files fs' }"

fun reduce_tasks :: "json \<Rightarrow> (KeyValue list \<Rightarrow> KeyValue list) \<Rightarrow> string \<Rightarrow> nat \<Rightarrow>
    (string \<Rightarrow> string list \<Rightarrow> string) \<Rightarrow> nat list \<Rightarrow> filesystem \<Rightarrow> filesystem option" where
  "reduce_tasks j srt jobName nMap reduceF [] fs = Some fs"
| "reduce_tasks j srt jobName nMap reduceF (i # is) fs =
     do { fs' \<leftarrow> doReduce j srt jobName i (mergeName jobName i) nMap reduceF fs;
          reduce_tasks j srt jobName nMap reduceF is fs' }"

text \<open>\<^verbatim>\<open>run\<close>: both phases, \<^verbatim>\<open>finish\<close>, the merge. The phases are what the caller makes of them.\<close>

definition run :: "(jobPhase \<Rightarrow> filesystem \<Rightarrow> filesystem option) \<Rightarrow>
    (filesystem \<Rightarrow> int list) \<Rightarrow> json \<Rightarrow> string \<Rightarrow> nat \<Rightarrow> filesystem \<Rightarrow> (filesystem \<times> int list) option" where
  "run schedule finish j jobName nReduce fs =
     do { fs1 \<leftarrow> schedule mapPhase fs;
          fs2 \<leftarrow> schedule reducePhase fs1;
          let stats = finish fs2;
          fs3 \<leftarrow> merge j jobName nReduce fs2;
          Some (fs3, stats) }"

definition Sequential :: "json \<Rightarrow> (KeyValue list \<Rightarrow> KeyValue list) \<Rightarrow> string \<Rightarrow> string list \<Rightarrow> nat \<Rightarrow>
    (string \<Rightarrow> string \<Rightarrow> KeyValue list) \<Rightarrow> (string \<Rightarrow> string list \<Rightarrow> string) \<Rightarrow>
    filesystem \<Rightarrow> (filesystem \<times> int list) option" where
  "Sequential j srt jobName files nreduce mapF reduceF fs =
     run (\<lambda>phase fs. case phase of
            mapPhase \<Rightarrow> map_tasks j jobName nreduce mapF 0 files fs
          | reducePhase \<Rightarrow> reduce_tasks j srt jobName (length files) reduceF [0..<nreduce] fs)
       (\<lambda>_. [int (length files) + int nreduce]) j jobName nreduce fs"

end
