(* ===== verification/Map_Reduce_Distributed.thy ===== *)
theory Map_Reduce_Distributed
  imports Map_Reduce
begin

text \<open>
  The distributed MapReduce master: workers (\<^verbatim>\<open>worker.go\<close>), the master's RPC methods and helpers
  (\<^verbatim>\<open>master.go\<close>, \<^verbatim>\<open>master_rpc.go\<close>), and \<^verbatim>\<open>schedule\<close> (\<^verbatim>\<open>schedule.go\<close>) as a step relation.

  \<^verbatim>\<open>schedule\<close> starts one goroutine per task. Each takes a worker address from the channel, calls the
  worker, starts a goroutine that puts the address back, and stops when the call succeeded. The
  channel is unbuffered, so its content is the multiset of addresses some goroutine is trying to send.
\<close>

subsection \<open>RPC types\<close>

record DoTaskArgs =
  JobName :: string
  File :: string
  Phase :: jobPhase
  TaskNumber :: nat
  NumOtherPhase :: nat

record ShutdownReply =
  Ntasks :: int

record RegisterArgs =
  reg_Worker :: string

subsection \<open>Workers\<close>

record Worker =
  wk_name :: string
  wk_Map :: "string \<Rightarrow> string \<Rightarrow> KeyValue list"
  wk_Reduce :: "string \<Rightarrow> string list \<Rightarrow> string"
  nRPC :: int
  nTasks :: int
  concurrent :: int

text \<open>\<^verbatim>\<open>DoTask\<close> up to the test for a second concurrent call, which ends the process (\<open>None\<close>).\<close>

definition DoTask_begin :: "Worker \<Rightarrow> Worker option" where
  "DoTask_begin wk =
     (let wk1 = wk\<lparr>nTasks := nTasks wk + 1, concurrent := concurrent wk + 1\<rparr>;
          nc = concurrent wk1
      in if nc > 1 then None else Some wk1)"

definition DoTask_work :: "json \<Rightarrow> (KeyValue list \<Rightarrow> KeyValue list) \<Rightarrow> DoTaskArgs \<Rightarrow> Worker \<Rightarrow>
    filesystem \<Rightarrow> filesystem option" where
  "DoTask_work j srt arg wk fs =
     (case Phase arg of
        mapPhase \<Rightarrow> doMap j (JobName arg) (TaskNumber arg) (File arg) (NumOtherPhase arg) (wk_Map wk) fs
      | reducePhase \<Rightarrow> doReduce j srt (JobName arg) (TaskNumber arg) (mergeName (JobName arg) (TaskNumber arg))
          (NumOtherPhase arg) (wk_Reduce wk) fs)"

definition DoTask_end :: "Worker \<Rightarrow> Worker" where
  "DoTask_end wk = wk\<lparr>concurrent := concurrent wk - 1\<rparr>"

definition Worker_Shutdown :: "Worker \<Rightarrow> Worker \<times> ShutdownReply" where
  "Worker_Shutdown wk = (wk\<lparr>nRPC := 1\<rparr>, \<lparr>Ntasks = nTasks wk\<rparr>)"

text \<open>What a worker sends to \<^verbatim>\<open>Master.Register\<close>.\<close>

definition Worker_register :: "Worker \<Rightarrow> RegisterArgs" where
  "Worker_register wk = \<lparr>reg_Worker = wk_name wk\<rparr>"

text \<open>\<^verbatim>\<open>RunWorker\<close>: the new worker, and one turn of its accept loop, \<open>None\<close> when it leaves the loop.\<close>

definition RunWorker_new :: "string \<Rightarrow> (string \<Rightarrow> string \<Rightarrow> KeyValue list) \<Rightarrow>
    (string \<Rightarrow> string list \<Rightarrow> string) \<Rightarrow> int \<Rightarrow> Worker" where
  "RunWorker_new me MapFunc ReduceFunc n =
     \<lparr>wk_name = me, wk_Map = MapFunc, wk_Reduce = ReduceFunc, nRPC = n, nTasks = 0, concurrent = 0\<rparr>"

definition RunWorker_accept :: "Worker \<Rightarrow> Worker option" where
  "RunWorker_accept wk = (if nRPC wk = 0 then None else Some (wk\<lparr>nRPC := nRPC wk - 1\<rparr>))"

subsection \<open>The master\<close>

record Master =
  mr_address :: string
  mr_workers :: "string list"
  mr_jobName :: string
  mr_files :: "string list"
  mr_nReduce :: nat
  mr_shutdown :: bool
  mr_stats :: "int list"

definition newMaster :: "string \<Rightarrow> Master" where
  "newMaster master = \<lparr>mr_address = master, mr_workers = [], mr_jobName = [], mr_files = [], mr_nReduce = 0,
     mr_shutdown = False, mr_stats = []\<rparr>"

definition Register :: "RegisterArgs \<Rightarrow> Master \<Rightarrow> Master" where
  "Register args mr = mr\<lparr>mr_workers := mr_workers mr @ [reg_Worker args]\<rparr>"

text \<open>One turn of \<^verbatim>\<open>forwardRegistrations\<close>: the address it sends and its new \<^verbatim>\<open>i\<close>, or \<open>None\<close> when it waits.\<close>

definition forwardRegistrations :: "nat \<Rightarrow> Master \<Rightarrow> (string \<times> nat) option" where
  "forwardRegistrations i mr =
     (if length (mr_workers mr) > i then Some (mr_workers mr ! i, i + 1) else None)"

text \<open>\<open>None\<close> is the panic of closing a closed channel.\<close>

definition Master_Shutdown :: "Master \<Rightarrow> Master option" where
  "Master_Shutdown mr = (if mr_shutdown mr then None else Some (mr\<lparr>mr_shutdown := True\<rparr>))"

text \<open>\<^verbatim>\<open>killWorkers\<close>; \<open>call w\<close> is the reply of worker \<open>w\<close> to \<^verbatim>\<open>Worker.Shutdown\<close>, if there is one.\<close>

fun kill_all :: "(string \<Rightarrow> ShutdownReply option) \<Rightarrow> string list \<Rightarrow> int list \<Rightarrow> int list" where
  "kill_all call [] ntasks = ntasks"
| "kill_all call (w # ws) ntasks =
     (case call w of
        None \<Rightarrow> kill_all call ws ntasks
      | Some reply \<Rightarrow> kill_all call ws (ntasks @ [Ntasks reply]))"

definition killWorkers :: "(string \<Rightarrow> ShutdownReply option) \<Rightarrow> Master \<Rightarrow> int list" where
  "killWorkers call mr = kill_all call (mr_workers mr) []"

subsection \<open>Scheduling\<close>

definition ntasks :: "jobPhase \<Rightarrow> string list \<Rightarrow> nat \<Rightarrow> nat" where
  "ntasks phase mapFiles nReduce =
     (case phase of mapPhase \<Rightarrow> length mapFiles | reducePhase \<Rightarrow> nReduce)"

definition n_other :: "jobPhase \<Rightarrow> string list \<Rightarrow> nat \<Rightarrow> nat" where
  "n_other phase mapFiles nReduce =
     (case phase of mapPhase \<Rightarrow> nReduce | reducePhase \<Rightarrow> length mapFiles)"

definition task_args :: "string \<Rightarrow> string list \<Rightarrow> nat \<Rightarrow> jobPhase \<Rightarrow> nat \<Rightarrow> DoTaskArgs" where
  "task_args jobName mapFiles nReduce phase ti =
     \<lparr>JobName = jobName, File = (if phase = mapPhase then mapFiles ! ti else []), Phase = phase,
      TaskNumber = ti, NumOtherPhase = n_other phase mapFiles nReduce\<rparr>"

text \<open>
  Where the goroutine of a task is: waiting at the channel, in \<^verbatim>\<open>call\<close> with a worker that does not
  execute the task, in \<^verbatim>\<open>call\<close> while the worker executes it, or finished.
\<close>

datatype task_state = Waiting | Called string | Running string | Done

text \<open>
  The state of a phase: the goroutines, the addresses being sent on the channel, the \<^verbatim>\<open>i\<close> of
  \<^verbatim>\<open>forwardRegistrations\<close>, the master, the workers by address, those whose process is gone, the shared
  file system.
\<close>

record phase_state =
  tasks :: "task_state list"
  chan :: "string multiset"
  forwarded :: nat
  mr :: Master
  wks :: "string \<Rightarrow> Worker"
  gone :: "string set"
  files :: filesystem

text \<open>\<^verbatim>\<open>schedule\<close> begins: a new channel, a new \<^verbatim>\<open>forwardRegistrations\<close>, one goroutine per task.\<close>

definition start_phase :: "string list \<Rightarrow> nat \<Rightarrow> jobPhase \<Rightarrow> phase_state \<Rightarrow> phase_state" where
  "start_phase mapFiles nReduce phase s =
     s\<lparr>tasks := replicate (ntasks phase mapFiles nReduce) Waiting, chan := {#}, forwarded := 0\<rparr>"

text \<open>\<^verbatim>\<open>wg.Wait()\<close> returns.\<close>

definition all_done :: "phase_state \<Rightarrow> bool" where
  "all_done s = list_all (\<lambda>t. t = Done) (tasks s)"

text \<open>The files a task writes.\<close>

definition outputs :: "string \<Rightarrow> nat \<Rightarrow> jobPhase \<Rightarrow> nat \<Rightarrow> string set" where
  "outputs jobName nReduce phase ti =
     (case phase of
        mapPhase \<Rightarrow> reduceName jobName ti ` {..<nReduce}
      | reducePhase \<Rightarrow> {mergeName jobName ti})"

definition same_outside :: "string set \<Rightarrow> filesystem \<Rightarrow> filesystem \<Rightarrow> bool" where
  "same_outside A fs fs' \<longleftrightarrow> writable fs' = writable fs \<and> (\<forall>x. x \<notin> A \<longrightarrow> contents fs' x = contents fs x)"

text \<open>
  The steps of a phase. A worker registers under its own address, as often as it likes: \<^verbatim>\<open>Register\<close> appends
  without looking. A call may be lost on its way or refused; a worker may execute the task and its reply
  arrive or not; a second concurrent \<^verbatim>\<open>DoTask\<close> ends the worker's process (\<open>fatal\<close>); a process may end at any
  time (\<open>die\<close>), also in the middle of a task with its output files in any state (\<open>crash\<close>). In each case the
  address goes back to the channel. A worker may be started again at the address of one whose process has
  ended once the master's calls to it have returned (\<open>restart\<close>); it serves with a new counter, and registers again
  by a step of its own. The work of a task is one step: tasks of one phase read nothing that another one
  of them writes.

  \<^verbatim>\<open>call\<close> returns when the reply arrives or the connection breaks, and a connection to a worker on the same machine
  breaks when the worker's process ends. It sets no deadline, so no step lets a call return while the
  worker it reached still executes the task.
\<close>

inductive schedule_step :: "json \<Rightarrow> (KeyValue list \<Rightarrow> KeyValue list) \<Rightarrow> string \<Rightarrow> string list \<Rightarrow> nat \<Rightarrow> jobPhase \<Rightarrow>
    phase_state \<Rightarrow> phase_state \<Rightarrow> bool"
  for j srt jobName mapFiles nReduce phase where
  register: "schedule_step j srt jobName mapFiles nReduce phase s
       (s\<lparr>mr := Register (Worker_register (wks s w)) (mr s)\<rparr>)"
| forward: "forwardRegistrations (forwarded s) (mr s) = Some (w, i) \<Longrightarrow>
     schedule_step j srt jobName mapFiles nReduce phase s (s\<lparr>chan := add_mset w (chan s), forwarded := i\<rparr>)"
| receive: "ti < length (tasks s) \<Longrightarrow> tasks s ! ti = Waiting \<Longrightarrow> w \<in># chan s \<Longrightarrow>
     schedule_step j srt jobName mapFiles nReduce phase s
       (s\<lparr>tasks := (tasks s)[ti := Called w], chan := chan s - {#w#}\<rparr>)"
| lost: "ti < length (tasks s) \<Longrightarrow> tasks s ! ti = Called w \<Longrightarrow>
     schedule_step j srt jobName mapFiles nReduce phase s
       (s\<lparr>tasks := (tasks s)[ti := Waiting], chan := add_mset w (chan s)\<rparr>)"
| execute: "ti < length (tasks s) \<Longrightarrow> tasks s ! ti = Called w \<Longrightarrow> w \<notin> gone s \<Longrightarrow>
     RunWorker_accept (wks s w) = Some wk1 \<Longrightarrow> DoTask_begin wk1 = Some wk2 \<Longrightarrow>
     schedule_step j srt jobName mapFiles nReduce phase s
       (s\<lparr>tasks := (tasks s)[ti := Running w], wks := (wks s)(w := wk2)\<rparr>)"
| fatal: "ti < length (tasks s) \<Longrightarrow> tasks s ! ti = Called w \<Longrightarrow> w \<notin> gone s \<Longrightarrow>
     RunWorker_accept (wks s w) = Some wk1 \<Longrightarrow> DoTask_begin wk1 = None \<Longrightarrow>
     schedule_step j srt jobName mapFiles nReduce phase s
       (s\<lparr>tasks := (tasks s)[ti := Waiting], gone := insert w (gone s), chan := add_mset w (chan s)\<rparr>)"
| finish: "ti < length (tasks s) \<Longrightarrow> tasks s ! ti = Running w \<Longrightarrow> w \<notin> gone s \<Longrightarrow>
     DoTask_work j srt (task_args jobName mapFiles nReduce phase ti) (wks s w) (files s) = Some fs' \<Longrightarrow>
     schedule_step j srt jobName mapFiles nReduce phase s
       (s\<lparr>tasks := (tasks s)[ti := Done], wks := (wks s)(w := DoTask_end (wks s w)), files := fs',
          chan := add_mset w (chan s)\<rparr>)"
| reply_lost: "ti < length (tasks s) \<Longrightarrow> tasks s ! ti = Running w \<Longrightarrow> w \<notin> gone s \<Longrightarrow>
     DoTask_work j srt (task_args jobName mapFiles nReduce phase ti) (wks s w) (files s) = Some fs' \<Longrightarrow>
     schedule_step j srt jobName mapFiles nReduce phase s
       (s\<lparr>tasks := (tasks s)[ti := Waiting], wks := (wks s)(w := DoTask_end (wks s w)), files := fs',
          chan := add_mset w (chan s)\<rparr>)"
| crash: "ti < length (tasks s) \<Longrightarrow> tasks s ! ti = Running w \<Longrightarrow>
     same_outside (outputs jobName nReduce phase ti) (files s) fs' \<Longrightarrow>
     schedule_step j srt jobName mapFiles nReduce phase s
       (s\<lparr>tasks := (tasks s)[ti := Waiting], gone := insert w (gone s), files := fs',
          chan := add_mset w (chan s)\<rparr>)"
| die: "schedule_step j srt jobName mapFiles nReduce phase s (s\<lparr>gone := insert w (gone s)\<rparr>)"
| restart: "w \<in> gone s \<Longrightarrow> Running w \<notin> set (tasks s) \<Longrightarrow>
     schedule_step j srt jobName mapFiles nReduce phase s
       (s\<lparr>wks := (wks s)(w := RunWorker_new w (wk_Map (wks s w)) (wk_Reduce (wks s w)) k), gone := gone s - {w}\<rparr>)"

text \<open>
  A job: \<^verbatim>\<open>Distributed\<close> and \<^verbatim>\<open>run\<close>. The master starts; the map phase runs; when it is done the reduce
  phase runs. Workers are processes that \<^verbatim>\<open>RunWorker\<close> started with one map and one reduce function.
\<close>

definition Distributed_init :: "string \<Rightarrow> string \<Rightarrow> string list \<Rightarrow> nat \<Rightarrow>
    (string \<Rightarrow> string \<Rightarrow> KeyValue list) \<Rightarrow> (string \<Rightarrow> string list \<Rightarrow> string) \<Rightarrow> (string \<Rightarrow> int) \<Rightarrow>
    filesystem \<Rightarrow> phase_state" where
  "Distributed_init master jobName mapFiles nReduce mapF reduceF limit fs =
     \<lparr>tasks = [], chan = {#}, forwarded = 0,
      mr = (newMaster master)\<lparr>mr_jobName := jobName, mr_files := mapFiles, mr_nReduce := nReduce\<rparr>,
      wks = (\<lambda>w. RunWorker_new w mapF reduceF (limit w)), gone = {}, files = fs\<rparr>"

inductive Distributed :: "json \<Rightarrow> (KeyValue list \<Rightarrow> KeyValue list) \<Rightarrow> string \<Rightarrow> string list \<Rightarrow> nat \<Rightarrow> phase_state \<Rightarrow>
    jobPhase \<Rightarrow> phase_state \<Rightarrow> bool"
  for j srt jobName mapFiles nReduce s0 where
  map_start: "Distributed j srt jobName mapFiles nReduce s0 mapPhase (start_phase mapFiles nReduce mapPhase s0)"
| phase_step: "Distributed j srt jobName mapFiles nReduce s0 phase s \<Longrightarrow>
     schedule_step j srt jobName mapFiles nReduce phase s s' \<Longrightarrow>
     Distributed j srt jobName mapFiles nReduce s0 phase s'"
| reduce_start: "Distributed j srt jobName mapFiles nReduce s0 mapPhase s \<Longrightarrow> all_done s \<Longrightarrow>
     Distributed j srt jobName mapFiles nReduce s0 reducePhase (start_phase mapFiles nReduce reducePhase s)"

text \<open>
  The rest of \<^verbatim>\<open>run\<close>: \<^verbatim>\<open>finish\<close> collects the statistics and stops the master's RPC server through its own
  \<^verbatim>\<open>Shutdown\<close> method, then the results are merged.
\<close>

definition Distributed_finish :: "(string \<Rightarrow> ShutdownReply option) \<Rightarrow> json \<Rightarrow> string \<Rightarrow> nat \<Rightarrow> phase_state \<Rightarrow>
    (Master \<times> filesystem) option" where
  "Distributed_finish call j jobName nReduce s =
     do { mr1 \<leftarrow> Master_Shutdown ((mr s)\<lparr>mr_stats := killWorkers call (mr s)\<rparr>);
          fs' \<leftarrow> merge j jobName nReduce (files s);
          Some (mr1, fs') }"

end
