(* ===== verification/Map_Reduce_Proofs.thy ===== *)
theory Map_Reduce_Proofs
  imports Map_Reduce
begin

text \<open>
  Correctness of the MapReduce library: the intermediate file names do not collide, the partition
  function is in range, tasks write exactly their own files, and the sequential master computes, for
  every key the map function produced, the reduce function of all its values.
\<close>

subsection \<open>File names do not collide\<close>

definition digits :: "char set" where
  "digits = set ''0123456789''"

lemma char_of_digit:
  assumes "d < (10 :: nat)"
  shows "(char_of (48 + d) :: char) \<in> digits"
proof -
  from assms
  have "d \<in> {0, 1, 2, 3, 4, 5, 6, 7, 8, 9}" by auto
  then show ?thesis unfolding digits_def by (elim insertE) (simp_all add: char_of_def bit_Suc_0_iff)
qed

lemma Itoa_digits: "set (Itoa n) \<subseteq> digits"
  by (induction n rule: Itoa.induct) (subst Itoa.simps, simp add: char_of_digit)

lemma Itoa_nonempty [simp]: "Itoa n \<noteq> []"
  by (subst Itoa.simps) simp

definition atoi :: "string \<Rightarrow> nat" where
  "atoi s = foldl (\<lambda>n c. 10 * n + (of_char c - 48)) 0 s"

lemma atoi_snoc: "atoi (s @ [c]) = 10 * atoi s + (of_char c - 48)"
  by (simp add: atoi_def)

lemma atoi_Itoa [simp]: "atoi (Itoa n) = n"
proof (induction n rule: Itoa.induct)
  case (1 n)
  show ?case
  proof (cases "n < 10")
    case True
    then show ?thesis by (subst Itoa.simps) (simp add: atoi_def take_bit_eq_mod)
  next
    case False
    then show ?thesis using 1 by (subst Itoa.simps) (simp add: atoi_snoc take_bit_eq_mod)
  qed
qed

lemma Itoa_inject [simp]: "Itoa m = Itoa n \<longleftrightarrow> m = n"
  by (metis atoi_Itoa)

lemma dash_not_digit: "CHR ''-'' \<notin> set (Itoa n)"
  using Itoa_digits [of n] by (auto simp: digits_def)

lemma split_at_dash:
  assumes "CHR ''-'' \<notin> set u" and "CHR ''-'' \<notin> set u'" and "u @ CHR ''-'' # v = u' @ CHR ''-'' # v'"
  shows "u = u' \<and> v = v'"
proof -
  have "takeWhile (\<lambda>c. c \<noteq> CHR ''-'') (w @ CHR ''-'' # z) = w" if "CHR ''-'' \<notin> set w" for w z
    using that by (induction w) auto
  from this [OF assms(1), of v] this [OF assms(2), of v'] assms(3) show ?thesis by simp
qed

lemma reduceName_inject [simp]:
  "reduceName job m r = reduceName job m' r' \<longleftrightarrow> m = m' \<and> r = r'"
  using split_at_dash [OF dash_not_digit dash_not_digit, of m "Itoa r" m' "Itoa r'"]
  by (auto simp: reduceName_def)

lemma mergeName_inject [simp]: "mergeName job r = mergeName job r' \<longleftrightarrow> r = r'"
  by (simp add: mergeName_def)

lemma reduceName_neq_mergeName [simp]: "reduceName job m r \<noteq> mergeName job r'"
proof
  assume "reduceName job m r = mergeName job r'"
  then have "Itoa m @ CHR ''-'' # Itoa r = ''res'' @ CHR ''-'' # Itoa r'"
    by (simp add: reduceName_def mergeName_def)
  from split_at_dash [OF dash_not_digit _ this] have "Itoa m = ''res''" by simp
  then show False using Itoa_digits [of m] by (auto simp: digits_def)
qed

lemmas mergeName_neq_reduceName [simp] = reduceName_neq_mergeName [symmetric]

lemma result_neq [simp]:
  "reduceName job m r \<noteq> ''mrtmp.'' @ job" "mergeName job r \<noteq> ''mrtmp.'' @ job"
  by (simp_all add: reduceName_def mergeName_def)

lemmas neq_result [simp] = result_neq [symmetric]

subsection \<open>Files a task writes\<close>

lemma create_writable [simp]:
  "writable fs x \<Longrightarrow> create x fs = Some (fs\<lparr>contents := (contents fs)(x \<mapsto> [])\<rparr>)"
  by (simp add: create_def)

lemma append_to_sel [simp]:
  "writable (append_to x s fs) = writable fs"
  "contents (append_to x s fs) y = (if y = x then Some ((case contents fs x of None \<Rightarrow> [] | Some t \<Rightarrow> t) @ s)
     else contents fs y)"
  by (simp_all add: append_to_def)

lemma create_all_spec:
  assumes "\<forall>x \<in> set names. writable fs x"
  shows "\<exists>fs'. create_all names fs = Some fs' \<and> writable fs' = writable fs \<and>
    (\<forall>x. contents fs' x = (if x \<in> set names then Some [] else contents fs x))"
  using assms
proof (induction names arbitrary: fs)
  case (Cons n names)
  let ?fs = "fs\<lparr>contents := (contents fs)(n \<mapsto> [])\<rparr>"
  have "\<forall>x \<in> set names. writable ?fs x" using Cons.prems by simp
  from Cons.IH [OF this] obtain fs' where fs': "create_all names ?fs = Some fs'"
    "writable fs' = writable ?fs" "\<forall>x. contents fs' x = (if x \<in> set names then Some [] else contents ?fs x)"
    by blast
  have "create_all (n # names) fs = Some fs'" using Cons.prems fs'(1) by simp
  then show ?case using fs'(2,3) by (intro exI [of _ fs']) auto
qed simp

text \<open>What map task output goes to reduce task \<open>r\<close> of \<open>n\<close>, as it is encoded.\<close>

definition part :: "nat \<Rightarrow> nat \<Rightarrow> KeyValue list \<Rightarrow> KeyValue list" where
  "part n r kvs = filter (\<lambda>kv. ihash (Key kv) mod n = r) kvs"

definition encode_all :: "json \<Rightarrow> KeyValue list \<Rightarrow> string" where
  "encode_all j kvs = concat (map (encode j) kvs)"

lemma encode_all_simps [simp]:
  "encode_all j [] = []" "encode_all j (kv # kvs) = encode j kv @ encode_all j kvs"
  by (simp_all add: encode_all_def)

lemma emit_spec:
  assumes "0 < n" and "\<forall>r < n. contents fs (reduceName job m r) = Some (old r)"
  obtains fs' where "emit j job m n kvs fs = Some fs'" "writable fs' = writable fs"
    "\<forall>r < n. contents fs' (reduceName job m r) = Some (old r @ encode_all j (part n r kvs))"
    "\<forall>x. x \<notin> reduceName job m ` {..<n} \<longrightarrow> contents fs' x = contents fs x"
  using assms
proof (induction kvs arbitrary: fs old thesis)
  case Nil
  then show ?case by (simp add: part_def)
next
  case (Cons kv kvs)
  let ?r = "ihash (Key kv) mod n"
  let ?fs = "append_to (reduceName job m ?r) (encode j kv) fs"
  have r: "?r < n" using Cons.prems(2) by simp
  have "\<forall>r < n. contents ?fs (reduceName job m r) =
      Some ((if r = ?r then old r @ encode j kv else old r))"
    using Cons.prems(3) by simp
  from Cons.IH [OF _ Cons.prems(2) this] obtain fs' where fs':
    "emit j job m n kvs ?fs = Some fs'" "writable fs' = writable fs"
    "\<forall>r < n. contents fs' (reduceName job m r) =
       Some ((if r = ?r then old r @ encode j kv else old r) @ encode_all j (part n r kvs))"
    "\<forall>x. x \<notin> reduceName job m ` {..<n} \<longrightarrow> contents fs' x = contents ?fs x"
    by auto
  show ?case
  proof (rule Cons.prems(1))
    show "emit j job m n (kv # kvs) fs = Some fs'" using fs'(1) Cons.prems(2) by simp
    show "\<forall>r < n. contents fs' (reduceName job m r) = Some (old r @ encode_all j (part n r (kv # kvs)))"
      using fs'(3) by (auto simp: part_def)
    show "\<forall>x. x \<notin> reduceName job m ` {..<n} \<longrightarrow> contents fs' x = contents fs x"
      using fs'(4) r by auto
  qed (simp add: fs'(2))
qed

lemma doMap_spec:
  assumes "0 < n" and "contents fs f = Some data" and "\<forall>r < n. writable fs (reduceName job m r)"
  obtains fs' where "doMap j job m f n mapF fs = Some fs'" "writable fs' = writable fs"
    "\<forall>r < n. contents fs' (reduceName job m r) = Some (encode_all j (part n r (mapF f data)))"
    "\<forall>x. x \<notin> reduceName job m ` {..<n} \<longrightarrow> contents fs' x = contents fs x"
proof -
  have "\<forall>x \<in> set (map (reduceName job m) [0..<n]). writable fs x" using assms(3) by auto
  then obtain fs1 where fs1: "create_all (map (reduceName job m) [0..<n]) fs = Some fs1"
    "writable fs1 = writable fs"
    "\<forall>x. contents fs1 x = (if x \<in> reduceName job m ` {..<n} then Some [] else contents fs x)"
    using create_all_spec [of "map (reduceName job m) [0..<n]" fs] by (auto simp: atLeast0LessThan)
  have "\<forall>r < n. contents fs1 (reduceName job m r) = Some []" using fs1(3) by auto
  then obtain fs' where "emit j job m n (mapF f data) fs1 = Some fs'" "writable fs' = writable fs1"
    "\<forall>r < n. contents fs' (reduceName job m r) = Some ([] @ encode_all j (part n r (mapF f data)))"
    "\<forall>x. x \<notin> reduceName job m ` {..<n} \<longrightarrow> contents fs' x = contents fs1 x"
    by (rule emit_spec [OF assms(1)])
  then show thesis using fs1 assms(2) by (intro that [of fs']) (auto simp: doMap_def)
qed

lemma map_tasks_spec:
  assumes "0 < n" and "\<forall>f \<in> set files. contents fs f \<noteq> None \<and> (\<forall>m r. f \<noteq> reduceName job m r)"
    and "\<forall>m r. writable fs (reduceName job m r)"
  shows "\<exists>fs'. map_tasks j job n mapF i files fs = Some fs' \<and> writable fs' = writable fs \<and>
    (\<forall>k < length files. \<forall>r < n. contents fs' (reduceName job (i + k) r) =
       Some (encode_all j (part n r (mapF (files ! k) (the (contents fs (files ! k))))))) \<and>
    (\<forall>x. (\<forall>k < length files. \<forall>r < n. x \<noteq> reduceName job (i + k) r) \<longrightarrow> contents fs' x = contents fs x)"
  using assms(2-)
proof (induction files arbitrary: i fs)
  case (Cons f files)
  obtain data where data: "contents fs f = Some data" using Cons.prems(1) by auto
  have "\<forall>r < n. writable fs (reduceName job i r)" using Cons.prems(2) by simp
  from doMap_spec [OF assms(1) data this] obtain fs1 where fs1:
    "doMap j job i f n mapF fs = Some fs1" "writable fs1 = writable fs"
    "\<forall>r < n. contents fs1 (reduceName job i r) = Some (encode_all j (part n r (mapF f data)))"
    "\<forall>x. x \<notin> reduceName job i ` {..<n} \<longrightarrow> contents fs1 x = contents fs x" .
  have same: "\<forall>g \<in> set files. contents fs1 g = contents fs g"
    using fs1(4) Cons.prems(1) by (metis imageE list.set_intros(2))
  have "\<forall>g \<in> set files. contents fs1 g \<noteq> None \<and> (\<forall>m r. g \<noteq> reduceName job m r)"
    using same Cons.prems(1) by simp
  moreover have "\<forall>m r. writable fs1 (reduceName job m r)" using Cons.prems(2) fs1(2) by simp
  ultimately obtain fs' where fs': "map_tasks j job n mapF (Suc i) files fs1 = Some fs'"
    "writable fs' = writable fs1"
    "\<forall>k < length files. \<forall>r < n. contents fs' (reduceName job (Suc i + k) r) =
       Some (encode_all j (part n r (mapF (files ! k) (the (contents fs1 (files ! k))))))"
    "\<forall>x. (\<forall>k < length files. \<forall>r < n. x \<noteq> reduceName job (Suc i + k) r) \<longrightarrow> contents fs' x = contents fs1 x"
    using Cons.IH [of fs1 "Suc i"] by blast
  show ?case
  proof (intro exI [of _ fs'] conjI)
    show "map_tasks j job n mapF i (f # files) fs = Some fs'" using fs1(1) fs'(1) by simp
    show "writable fs' = writable fs" using fs1(2) fs'(2) by simp
    show "\<forall>k < length (f # files). \<forall>r < n. contents fs' (reduceName job (i + k) r) =
        Some (encode_all j (part n r (mapF ((f # files) ! k) (the (contents fs ((f # files) ! k))))))"
    proof (intro allI impI)
      fix k r assume "k < length (f # files)" "r < n"
      then show "contents fs' (reduceName job (i + k) r) =
          Some (encode_all j (part n r (mapF ((f # files) ! k) (the (contents fs ((f # files) ! k))))))"
        using fs1(3) fs'(3,4) same data by (cases k) auto
    qed
    show "\<forall>x. (\<forall>k < length (f # files). \<forall>r < n. x \<noteq> reduceName job (i + k) r) \<longrightarrow>
        contents fs' x = contents fs x"
    proof (intro allI impI)
      fix x assume x: "\<forall>k < length (f # files). \<forall>r < n. x \<noteq> reduceName job (i + k) r"
      have "\<forall>k < length files. \<forall>r < n. x \<noteq> reduceName job (Suc i + k) r"
        using x by (metis Suc_less_eq add_Suc add_Suc_right length_Cons)
      then have "contents fs' x = contents fs1 x" using fs'(4) by blast
      also have "\<dots> = contents fs x" using fs1(4) spec [OF x, of 0] by (metis add_0_right imageE lessThan_iff length_Cons zero_less_Suc)
      finally show "contents fs' x = contents fs x" .
    qed
  qed
qed simp

subsection \<open>Reduce tasks\<close>

text \<open>
  What the library promises. \<open>codec j V\<close>: a decoder reads back every sequence of values of \<open>V\<close> that an
  encoder wrote, up to the end of the text (JSON does not keep strings that are not UTF-8, so \<open>V\<close> need
  not be everything). \<open>sorts srt\<close>: \<^verbatim>\<open>sort.Slice\<close> permutes its argument and orders it by key.
\<close>

definition codec :: "json \<Rightarrow> KeyValue set \<Rightarrow> bool" where
  "codec j V \<longleftrightarrow> (\<forall>kvs. set kvs \<subseteq> V \<longrightarrow> decode j (concat (map (encode j) kvs)) = (kvs, True))"

definition sorts :: "(KeyValue list \<Rightarrow> KeyValue list) \<Rightarrow> bool" where
  "sorts srt \<longleftrightarrow> (\<forall>kvs. mset (srt kvs) = mset kvs \<and> sorted (map Key (srt kvs)))"

lemma decode_all: "codec j V \<Longrightarrow> set kvs \<subseteq> V \<Longrightarrow> decode j (encode_all j kvs) = (kvs, True)"
  by (simp add: codec_def encode_all_def)

lemma collect_spec:
  assumes "codec j V" and "\<forall>m \<in> set ms. contents fs (reduceName job m r) = Some (encode_all j (P m))"
    and "\<forall>m \<in> set ms. set (P m) \<subseteq> V"
  shows "collect j job r ms fs = Some (concat (map P ms))"
  using assms(2,3) by (induction ms) (simp_all add: decode_all [OF assms(1)])

text \<open>The runs of a sorted list are its groups: one per key, in order, with all values of the key.\<close>

lemma sorted_dropWhile_key:
  assumes "sorted (map Key (kv # kvs))" and "x \<in> set (dropWhile (\<lambda>x. Key x = Key kv) kvs)"
  shows "Key kv < Key x"
  using assms
proof (induction kvs)
  case (Cons y kvs)
  then show ?case by (cases "Key y = Key kv") auto
qed simp

lemma filter_key_split:
  assumes "sorted (map Key (kv # kvs))"
  shows "filter (\<lambda>x. Key x = Key kv) kvs = takeWhile (\<lambda>x. Key x = Key kv) kvs"
    and "k \<noteq> Key kv \<Longrightarrow> filter (\<lambda>x. Key x = k) kvs =
      filter (\<lambda>x. Key x = k) (dropWhile (\<lambda>x. Key x = Key kv) kvs)"
proof -
  let ?P = "\<lambda>x. Key x = Key kv"
  have split: "filter Q kvs = filter Q (takeWhile ?P kvs) @ filter Q (dropWhile ?P kvs)" for Q
    by (simp flip: filter_append)
  have "filter ?P (dropWhile ?P kvs) = []"
    using sorted_dropWhile_key [OF assms] by (fastforce simp: filter_empty_conv)
  moreover have "filter ?P (takeWhile ?P kvs) = takeWhile ?P kvs"
    by (auto simp: filter_id_conv dest: set_takeWhileD)
  ultimately show "filter ?P kvs = takeWhile ?P kvs" using split [of ?P] by simp
  show "filter (\<lambda>x. Key x = k) kvs = filter (\<lambda>x. Key x = k) (dropWhile ?P kvs)" if "k \<noteq> Key kv"
    using split [of "\<lambda>x. Key x = k"] that by (auto simp: filter_empty_conv dest!: set_takeWhileD)
qed

lemma key_runs_spec:
  assumes "sorted (map Key kvs)"
  shows "(\<forall>kvals \<in> set (key_runs kvs). snd kvals = map Value (filter (\<lambda>x. Key x = fst kvals) kvs)) \<and>
    fst ` set (key_runs kvs) = Key ` set kvs \<and> sorted_wrt (<) (map fst (key_runs kvs))"
  using assms
proof (induction kvs rule: key_runs.induct)
  case (2 kv kvs)
  let ?rest = "dropWhile (\<lambda>x. Key x = Key kv) kvs"
  have "sorted (map Key ?rest)"
    using 2(2) sorted_dropWhile [of "map Key kvs" "\<lambda>k. k = Key kv"] by (simp add: dropWhile_map comp_def)
  note IH = 2(1) [OF this]
  have later: "Key kv < fst kvals" if "kvals \<in> set (key_runs ?rest)" for kvals
  proof -
    have "fst kvals \<in> Key ` set ?rest" using IH that by blast
    then show ?thesis using sorted_dropWhile_key [OF 2(2)] by auto
  qed
  have "snd kvals = map Value (filter (\<lambda>x. Key x = fst kvals) (kv # kvs))"
    if "kvals \<in> set (key_runs ?rest)" for kvals
    using that IH later [OF that] filter_key_split(2) [OF 2(2), of "fst kvals"] by simp
  moreover have "Key ` set kvs \<subseteq> insert (Key kv) (Key ` set ?rest)"
  proof -
    have "set kvs = set (takeWhile (\<lambda>x. Key x = Key kv) kvs) \<union> set ?rest"
      by (metis set_append takeWhile_dropWhile_id)
    then show ?thesis by (auto dest: set_takeWhileD)
  qed
  ultimately show ?case
    using IH later sorted_dropWhile_key [OF 2(2)] filter_key_split(1) [OF 2(2)] by (auto dest: set_dropWhileD)
qed simp

text \<open>The values of a key, as the reduce task of the key sees them.\<close>

definition values_of :: "string \<Rightarrow> KeyValue list \<Rightarrow> string list" where
  "values_of k kvs = map Value (filter (\<lambda>kv. Key kv = k) kvs)"

definition results :: "(string \<Rightarrow> string list \<Rightarrow> string) \<Rightarrow> KeyValue list \<Rightarrow> KeyValue list" where
  "results reduceF kvs = map (\<lambda>(k, vals). \<lparr>Key = k, Value = reduceF k vals\<rparr>) (key_runs kvs)"

lemma results_spec:
  assumes "sorted (map Key kvs)"
  shows "Key ` set (results reduceF kvs) = Key ` set kvs"
    and "kv \<in> set (results reduceF kvs) \<Longrightarrow> Value kv = reduceF (Key kv) (values_of (Key kv) kvs)"
  using key_runs_spec [OF assms]
  by (force simp: results_def image_image case_prod_unfold, fastforce simp: results_def values_of_def)

lemma write_results:
  "foldl (\<lambda>fs (k, vals). append_to out (encode j \<lparr>Key = k, Value = reduceF k vals\<rparr>) fs)
     (fs\<lparr>contents := (contents fs)(out \<mapsto> s)\<rparr>) runs =
   fs\<lparr>contents := (contents fs)(out \<mapsto>
     s @ concat (map (\<lambda>(k, vals). encode j \<lparr>Key = k, Value = reduceF k vals\<rparr>) runs))\<rparr>"
  by (induction runs arbitrary: s) (auto simp: append_to_def)

lemma doReduce_spec:
  assumes "collect j job r [0..<nMap] fs = Some kvs" and "writable fs out"
  shows "doReduce j srt job r out nMap reduceF fs =
    Some (fs\<lparr>contents := (contents fs)(out \<mapsto> encode_all j (results reduceF (srt kvs)))\<rparr>)"
  using assms unfolding results_def encode_all_def map_map
  by (simp add: doReduce_def write_results) (simp add: comp_def case_prod_unfold)

lemma reduce_tasks_spec:
  assumes "codec j V" and "\<forall>r \<in> set rs. writable fs (mergeName job r)"
    and "\<forall>r \<in> set rs. \<forall>m < nMap. contents fs (reduceName job m r) = Some (encode_all j (P m r)) \<and>
      set (P m r) \<subseteq> V"
  shows "\<exists>fs'. reduce_tasks j srt job nMap reduceF rs fs = Some fs' \<and> writable fs' = writable fs \<and>
    (\<forall>r \<in> set rs. contents fs' (mergeName job r) =
       Some (encode_all j (results reduceF (srt (concat (map (\<lambda>m. P m r) [0..<nMap])))))) \<and>
    (\<forall>x. x \<notin> mergeName job ` set rs \<longrightarrow> contents fs' x = contents fs x)"
  using assms(2,3)
proof (induction rs arbitrary: fs)
  case (Cons r rs)
  let ?kvs = "\<lambda>r. concat (map (\<lambda>m. P m r) [0..<nMap])"
  let ?fs = "fs\<lparr>contents := (contents fs)(mergeName job r \<mapsto> encode_all j (results reduceF (srt (?kvs r))))\<rparr>"
  have "collect j job r [0..<nMap] fs = Some (?kvs r)"
    using Cons.prems(2) by (intro collect_spec [OF assms(1)]) auto
  then have first: "doReduce j srt job r (mergeName job r) nMap reduceF fs = Some ?fs"
    using Cons.prems(1) by (intro doReduce_spec) auto
  have "\<forall>r \<in> set rs. writable ?fs (mergeName job r)" using Cons.prems(1) by simp
  moreover have "\<forall>r \<in> set rs. \<forall>m < nMap. contents ?fs (reduceName job m r) = Some (encode_all j (P m r)) \<and>
      set (P m r) \<subseteq> V" using Cons.prems(2) by simp
  ultimately obtain fs' where fs': "reduce_tasks j srt job nMap reduceF rs ?fs = Some fs'"
    "writable fs' = writable ?fs"
    "\<forall>r \<in> set rs. contents fs' (mergeName job r) = Some (encode_all j (results reduceF (srt (?kvs r))))"
    "\<forall>x. x \<notin> mergeName job ` set rs \<longrightarrow> contents fs' x = contents ?fs x"
    using Cons.IH [of ?fs] by blast
  show ?case
  proof (intro exI [of _ fs'] conjI)
    show "reduce_tasks j srt job nMap reduceF (r # rs) fs = Some fs'" using first fs'(1) by simp
    show "\<forall>x \<in> set (r # rs). contents fs' (mergeName job x) =
        Some (encode_all j (results reduceF (srt (?kvs x))))"
    proof
      fix x assume "x \<in> set (r # rs)"
      then consider "x \<in> set rs" | "x = r" "r \<notin> set rs" by auto
      then show "contents fs' (mergeName job x) = Some (encode_all j (results reduceF (srt (?kvs x))))"
      proof cases
        case 2
        then have "mergeName job x \<notin> mergeName job ` set rs" by auto
        then show ?thesis using fs'(4) 2(1) by simp
      qed (simp add: fs'(3))
    qed
    show "\<forall>x. x \<notin> mergeName job ` set (r # rs) \<longrightarrow> contents fs' x = contents fs x" using fs'(4) by auto
  qed (simp add: fs'(2))
qed simp

subsection \<open>Merging\<close>

lemma merge_read_spec:
  assumes "codec j V" and "\<forall>r \<in> set rs. contents fs (mergeName job r) = Some (encode_all j (R r))"
    and "\<forall>r \<in> set rs. set (R r) \<subseteq> V"
  shows "merge_read j job rs fs m = Some (foldl (\<lambda>m kv. m(Key kv \<mapsto> Value kv)) m (concat (map R rs)))"
  using assms(2,3) by (induction rs arbitrary: m) (simp_all add: decode_all [OF assms(1)])

text \<open>When equal keys come with equal values, the order in which they are stored does not matter.\<close>

lemma foldl_store:
  assumes "\<forall>kv \<in> set kvs. Value kv = g (Key kv)"
  shows "foldl (\<lambda>m kv. m(Key kv \<mapsto> Value kv)) m kvs = (\<lambda>k. if k \<in> Key ` set kvs then Some (g k) else m k)"
  using assms by (induction kvs arbitrary: m) auto

lemma merge_from:
  assumes "merge_read j job [0..<n] fs Map.empty = Some (\<lambda>k. if k \<in> K then Some (g k) else None)"
    and "finite K" and "writable fs (''mrtmp.'' @ job)"
  shows "merge j job n fs = Some (fs\<lparr>contents := (contents fs)(''mrtmp.'' @ job \<mapsto>
    concat (map (\<lambda>k. k @ '': '' @ g k @ ''\<newline>'') (sorted_list_of_set K)))\<rparr>)"
proof -
  let ?m = "\<lambda>k. if k \<in> K then Some (g k) else None"
  have "dom ?m = K" by (auto simp: dom_def)
  moreover have "concat (map (merge_line ?m) (sorted_list_of_set K)) =
      concat (map (\<lambda>k. k @ '': '' @ g k @ ''\<newline>'') (sorted_list_of_set K))"
    using assms(2) by (intro arg_cong [of _ _ concat] map_cong) (simp_all add: merge_line_def)
  ultimately show ?thesis using assms(3) by (simp add: merge_def assms(1) append_to_def)
qed

lemma merge_spec:
  assumes "codec j V" and "\<forall>r < n. contents fs (mergeName job r) = Some (encode_all j (R r)) \<and> set (R r) \<subseteq> V"
    and "\<forall>r < n. \<forall>kv \<in> set (R r). Value kv = g (Key kv)" and "writable fs (''mrtmp.'' @ job)"
  shows "merge j job n fs = Some (fs\<lparr>contents := (contents fs)(''mrtmp.'' @ job \<mapsto>
    concat (map (\<lambda>k. k @ '': '' @ g k @ ''\<newline>'')
      (sorted_list_of_set (\<Union>r < n. Key ` set (R r)))))\<rparr>)"
proof -
  let ?res = "concat (map R [0..<n])" and ?K = "\<Union>r < n. Key ` set (R r)"
  have K: "Key ` set ?res = ?K" by (auto simp: atLeast0LessThan)
  have "merge_read j job [0..<n] fs Map.empty = Some (foldl (\<lambda>m kv. m(Key kv \<mapsto> Value kv)) Map.empty ?res)"
    using assms(2) by (intro merge_read_spec [OF assms(1)]) auto
  also have "\<dots> = Some (\<lambda>k. if k \<in> ?K then Some (g k) else None)"
    using assms(3) unfolding K [symmetric] by (subst foldl_store [of _ g]) auto
  finally show ?thesis by (rule merge_from) (use assms(4) in simp_all)
qed

subsection \<open>The sequential master\<close>

text \<open>All pairs the map function produces, task by task.\<close>

definition pairs :: "(string \<Rightarrow> string \<Rightarrow> KeyValue list) \<Rightarrow> string list \<Rightarrow> filesystem \<Rightarrow> KeyValue list" where
  "pairs mapF files fs = concat (map (\<lambda>f. mapF f (the (contents fs f))) files)"

lemma parts_of_pairs:
  "concat (map (\<lambda>m. part n r (mapF (files ! m) (the (contents fs (files ! m))))) [0..<length files]) =
   part n r (pairs mapF files fs)"
proof -
  have "map (\<lambda>m. part n r (mapF (files ! m) (the (contents fs (files ! m))))) [0..<length files] =
      map (\<lambda>f. part n r (mapF f (the (contents fs f)))) files"
    by (rule nth_equalityI) simp_all
  then show ?thesis by (simp add: pairs_def part_def filter_concat comp_def)
qed

lemma values_of_sorted_part:
  assumes "sorts srt"
  shows "mset (values_of k (srt (part n (ihash k mod n) kvs))) = mset (values_of k kvs)"
proof -
  have "filter_mset (\<lambda>kv. Key kv = k) (mset (srt (part n (ihash k mod n) kvs))) =
      filter_mset (\<lambda>kv. Key kv = k) (mset (part n (ihash k mod n) kvs))"
    using assms by (simp add: sorts_def)
  also have "\<dots> = filter_mset (\<lambda>kv. Key kv = k) (mset kvs)"
    by (simp add: part_def filter_filter_mset) (rule filter_mset_cong, auto)
  finally show ?thesis by (simp add: values_of_def)
qed

lemma ihash_partition: "0 < n \<Longrightarrow> (\<Union>r < n. Key ` set (part n r kvs)) = Key ` set kvs"
  by (force simp: part_def)

text \<open>The result file, from the pairs: each key with its values as its reduce task sorted them.\<close>

definition job_output :: "(KeyValue list \<Rightarrow> KeyValue list) \<Rightarrow> nat \<Rightarrow> (string \<Rightarrow> string list \<Rightarrow> string) \<Rightarrow>
    KeyValue list \<Rightarrow> string" where
  "job_output srt n reduceF ps =
     concat (map (\<lambda>k. k @ '': '' @ reduceF k (values_of k (srt (part n (ihash k mod n) ps))) @ ''\<newline>'')
       (sorted_list_of_set (Key ` set ps)))"

text \<open>The values of the reduce function for every order of a key's values can be encoded.\<close>

definition encodable :: "KeyValue set \<Rightarrow> (string \<Rightarrow> string list \<Rightarrow> string) \<Rightarrow> KeyValue list \<Rightarrow> bool" where
  "encodable V reduceF ps \<longleftrightarrow> set ps \<subseteq> V \<and>
     (\<forall>k \<in> Key ` set ps. \<forall>vs. mset vs = mset (values_of k ps) \<longrightarrow> \<lparr>Key = k, Value = reduceF k vs\<rparr> \<in> V)"

lemma merge_results:
  assumes "codec j V" and "sorts srt" and "0 < n" and "encodable V reduceF ps"
    and "\<forall>r < n. contents fs (mergeName job r) = Some (encode_all j (results reduceF (srt (part n r ps))))"
    and "writable fs (''mrtmp.'' @ job)"
  shows "merge j job n fs =
    Some (fs\<lparr>contents := (contents fs)(''mrtmp.'' @ job \<mapsto> job_output srt n reduceF ps)\<rparr>)"
proof -
  let ?R = "\<lambda>r. results reduceF (srt (part n r ps))"
  let ?vals = "\<lambda>k. values_of k (srt (part n (ihash k mod n) ps))"
  have sorted: "sorted (map Key (srt kvs))" "set (srt kvs) = set kvs" for kvs
    using assms(2) by (auto simp: sorts_def dest: mset_eq_setD)
  have keys: "Key ` set (?R r) = Key ` set (part n r ps)" for r
    using results_spec(1) [OF sorted(1)] sorted(2) by auto
  have vals: "Value kv = reduceF (Key kv) (?vals (Key kv))" if "kv \<in> set (?R r)" for r kv
  proof -
    have "Key kv \<in> Key ` set (part n r ps)" using that keys by blast
    then have "ihash (Key kv) mod n = r" by (auto simp: part_def)
    then show ?thesis using results_spec(2) [OF sorted(1) that] by simp
  qed
  have inV: "set (?R r) \<subseteq> V" for r
  proof
    fix kv assume kv: "kv \<in> set (?R r)"
    then have "Key kv \<in> Key ` set ps" using keys [of r] by (auto simp: part_def)
    with assms(4) values_of_sorted_part [OF assms(2)]
    have "\<lparr>Key = Key kv, Value = reduceF (Key kv) (?vals (Key kv))\<rparr> \<in> V" unfolding encodable_def by blast
    with vals [OF kv] show "kv \<in> V" by (cases kv) simp
  qed
  have "merge j job n fs = Some (fs\<lparr>contents := (contents fs)(''mrtmp.'' @ job \<mapsto>
      concat (map (\<lambda>k. k @ '': '' @ reduceF k (?vals k) @ ''\<newline>'')
        (sorted_list_of_set (\<Union>r < n. Key ` set (?R r)))))\<rparr>)"
    using vals inV assms(5,6) by (intro merge_spec [OF assms(1)]) auto
  then show ?thesis by (simp add: keys ihash_partition [OF assms(3)] job_output_def)
qed

text \<open>The files a job leaves behind beside its result.\<close>

definition intermediate :: "string \<Rightarrow> nat \<Rightarrow> nat \<Rightarrow> string set" where
  "intermediate job nMap n =
     {reduceName job m r | m r. m < nMap \<and> r < n} \<union> {mergeName job r | r. r < n}"

text \<open>What a job needs of the file system: readable inputs with names of their own, and room for its files.\<close>

definition ready :: "string \<Rightarrow> string list \<Rightarrow> filesystem \<Rightarrow> bool" where
  "ready job files fs \<longleftrightarrow>
     (\<forall>f \<in> set files. contents fs f \<noteq> None \<and> (\<forall>m r. f \<noteq> reduceName job m r)) \<and>
     (\<forall>m r. writable fs (reduceName job m r) \<and> writable fs (mergeName job r)) \<and> writable fs (''mrtmp.'' @ job)"

lemma part_encodable:
  "encodable V reduceF (pairs mapF files fs) \<Longrightarrow> m < length files \<Longrightarrow>
    set (part n r (mapF (files ! m) (the (contents fs (files ! m))))) \<subseteq> V"
  by (fastforce simp: encodable_def pairs_def part_def)

lemma Sequential_effect:
  assumes "codec j V" and "sorts srt" and "0 < n" and "ready job files fs"
    and "encodable V reduceF (pairs mapF files fs)"
  shows "\<exists>fs'. Sequential j srt job files n mapF reduceF fs = Some (fs', [int (length files) + int n]) \<and>
    contents fs' (''mrtmp.'' @ job) = Some (job_output srt n reduceF (pairs mapF files fs)) \<and>
    (\<forall>x. x \<noteq> ''mrtmp.'' @ job \<longrightarrow> x \<notin> intermediate job (length files) n \<longrightarrow> contents fs' x = contents fs x) \<and>
    (\<forall>x \<in> intermediate job (length files) n. contents fs' x \<noteq> None)"
proof -
  let ?ps = "pairs mapF files fs"
  let ?P = "\<lambda>m r. part n r (mapF (files ! m) (the (contents fs (files ! m))))"
  have in_files: "\<forall>f \<in> set files. contents fs f \<noteq> None \<and> (\<forall>m r. f \<noteq> reduceName job m r)"
    "\<forall>m r. writable fs (reduceName job m r)"
    using assms(4) by (simp_all add: ready_def)
  obtain fs1 where fs1: "map_tasks j job n mapF 0 files fs = Some fs1" "writable fs1 = writable fs"
    "\<forall>m < length files. \<forall>r < n. contents fs1 (reduceName job m r) = Some (encode_all j (?P m r))"
    "\<forall>x. (\<forall>m < length files. \<forall>r < n. x \<noteq> reduceName job m r) \<longrightarrow> contents fs1 x = contents fs x"
    using map_tasks_spec [OF assms(3) in_files, of j mapF 0] by auto
  obtain fs2 where fs2: "reduce_tasks j srt job (length files) reduceF [0..<n] fs1 = Some fs2"
    "writable fs2 = writable fs1"
    "\<forall>r < n. contents fs2 (mergeName job r) = Some (encode_all j (results reduceF (srt (part n r ?ps))))"
    "\<forall>x. x \<notin> mergeName job ` {0..<n} \<longrightarrow> contents fs2 x = contents fs1 x"
    using reduce_tasks_spec [OF assms(1), of "[0..<n]" fs1 job "length files" ?P srt reduceF] fs1 assms(4)
      part_encodable [OF assms(5)] by (auto simp: parts_of_pairs ready_def)
  have "writable fs2 (''mrtmp.'' @ job)" using assms(4) fs1(2) fs2(2) by (simp add: ready_def)
  from merge_results [OF assms(1-3,5) fs2(3) this]
  have run: "Sequential j srt job files n mapF reduceF fs = Some (fs2\<lparr>contents := (contents fs2)(''mrtmp.'' @ job \<mapsto>
      job_output srt n reduceF ?ps)\<rparr>, [int (length files) + int n])"
    using fs1(1) fs2(1) by (simp add: Sequential_def run_def)
  have "contents fs2 x = contents fs x" if "x \<notin> intermediate job (length files) n" for x
  proof -
    have "x \<notin> mergeName job ` {0..<n}" "\<forall>m < length files. \<forall>r < n. x \<noteq> reduceName job m r"
      using that by (auto simp: intermediate_def)
    then show ?thesis using fs1(4) fs2(4) by simp
  qed
  moreover have "contents fs2 x \<noteq> None" if "x \<in> intermediate job (length files) n" for x
  proof -
    have "contents fs2 (reduceName job m r) = contents fs1 (reduceName job m r)" for m r
      using fs2(4) by (auto simp: image_iff)
    then show ?thesis using that fs1(3) fs2(3) by (auto simp: intermediate_def)
  qed
  ultimately show ?thesis using run by (intro exI conjI) auto
qed

text \<open>A job that counts letters, with a codec that ends keys with a comma and values with a semicolon.\<close>

function sample_decode :: "string \<Rightarrow> KeyValue list \<times> bool" where
  "sample_decode text =
     (if text = [] then ([], True)
      else let rest = tl (dropWhile (\<lambda>c. c \<noteq> CHR '','') text)
           in case sample_decode (tl (dropWhile (\<lambda>c. c \<noteq> CHR '';'') rest)) of
             (kvs, ok) \<Rightarrow> (\<lparr>Key = takeWhile (\<lambda>c. c \<noteq> CHR '','') text,
                            Value = takeWhile (\<lambda>c. c \<noteq> CHR '';'') rest\<rparr> # kvs, ok))"
  by pat_completeness auto
termination
proof (relation "measure length")
  fix s rest :: string
  assume "s \<noteq> []" and "rest = tl (dropWhile (\<lambda>c. c \<noteq> CHR '','') s)"
  moreover have "length (tl (dropWhile P xs)) \<le> length xs - 1" for P and xs :: string
    using length_dropWhile_le [of P xs] by simp
  ultimately have "length rest < length s" "length (tl (dropWhile (\<lambda>c. c \<noteq> CHR '';'') rest)) \<le> length rest"
    by (metis One_nat_def diff_less length_greater_0_conv le_less_trans zero_less_one)
      (metis diff_le_self le_trans length_dropWhile_le length_tl)
  then show "(tl (dropWhile (\<lambda>c. c \<noteq> CHR '';'') rest), s) \<in> measure length" by simp
qed simp

declare sample_decode.simps [simp del]

definition sample_json :: json where
  "sample_json = \<lparr>encode = (\<lambda>kv. Key kv @ '','' @ Value kv @ '';''), decode = sample_decode\<rparr>"

definition sample_pairs :: "KeyValue set" where
  "sample_pairs = {kv. CHR '','' \<notin> set (Key kv) \<and> CHR '';'' \<notin> set (Value kv)}"

lemma takeWhile_stop:
  assumes "c \<notin> set u"
  shows "takeWhile (\<lambda>x. x \<noteq> c) (u @ c # v) = u" "dropWhile (\<lambda>x. x \<noteq> c) (u @ c # v) = c # v"
  using assms by (induction u) auto

lemma sample_codec: "codec sample_json sample_pairs"
proof -
  have "sample_decode (concat (map (encode sample_json) kvs)) = (kvs, True)" if "set kvs \<subseteq> sample_pairs" for kvs
    using that
  proof (induction kvs)
    case (Cons kv kvs)
    let ?more = "concat (map (encode sample_json) kvs)"
    have "sample_decode (Key kv @ CHR '','' # Value kv @ CHR '';'' # ?more) = (kv # kvs, True)"
      using Cons by (subst sample_decode.simps) (simp add: takeWhile_stop sample_pairs_def)
    then show ?case by (simp add: sample_json_def)
  qed (simp add: sample_decode.simps)
  then show ?thesis by (simp add: codec_def sample_json_def)
qed

definition letters :: "string \<Rightarrow> string \<Rightarrow> KeyValue list" where
  "letters file text = map (\<lambda>c. \<lparr>Key = [c], Value = ''1''\<rparr>) text"

definition count_all :: "string \<Rightarrow> string list \<Rightarrow> string" where
  "count_all k vals = Itoa (length vals)"

definition sample_files :: filesystem where
  "sample_files = \<lparr>contents = [''a'' \<mapsto> ''xy'', ''b'' \<mapsto> ''y''], writable = (\<lambda>_. True)\<rparr>"

lemma sorts_sort_key: "sorts (sort_key Key)"
  by (simp add: sorts_def)

lemma sample_pairs_eq: "pairs letters [''a'', ''b''] sample_files =
    [\<lparr>Key = ''x'', Value = ''1''\<rparr>, \<lparr>Key = ''y'', Value = ''1''\<rparr>, \<lparr>Key = ''y'', Value = ''1''\<rparr>]"
  by (simp add: pairs_def letters_def sample_files_def)

lemma sample_ready: "ready ''wc'' [''a'', ''b''] sample_files"
  by (simp add: ready_def sample_files_def reduceName_def)

lemma sample_encodable: "encodable sample_pairs count_all (pairs letters [''a'', ''b''] sample_files)"
  using Itoa_digits unfolding sample_pairs_eq
  by (force simp: encodable_def sample_pairs_def count_all_def digits_def)

lemmas sample_job = sample_codec sorts_sort_key zero_less_numeral sample_ready sample_encodable

text \<open>
  C10. MapReduce computes what it promises. If every input file can be read and does not carry the name of
  an intermediate file, and the files can be created, the sequential master finishes; its output
  file lists, in increasing order, exactly the keys the map function produced, each once with the
  reduce function applied to all the values it was produced with, in some order.
\<close>

theorem Sequential_correct:
  assumes "codec j V" and "sorts srt" and "0 < n" and "ready job files fs"
    and "encodable V reduceF (pairs mapF files fs)"
  shows "\<exists>fs' vals. Sequential j srt job files n mapF reduceF fs = Some (fs', [int (length files) + int n]) \<and>
    (\<forall>k. mset (vals k) = mset (values_of k (pairs mapF files fs))) \<and>
    contents fs' (''mrtmp.'' @ job) = Some (concat (map (\<lambda>k. k @ '': '' @ reduceF k (vals k) @ ''\<newline>'')
      (sorted_list_of_set (Key ` set (pairs mapF files fs)))))"
proof -
  let ?vals = "\<lambda>k. values_of k (srt (part n (ihash k mod n) (pairs mapF files fs)))"
  have "\<forall>k. mset (?vals k) = mset (values_of k (pairs mapF files fs))"
    using values_of_sorted_part [OF assms(2)] by blast
  moreover obtain fs' where "Sequential j srt job files n mapF reduceF fs = Some (fs', [int (length files) + int n])"
    "contents fs' (''mrtmp.'' @ job) = Some (job_output srt n reduceF (pairs mapF files fs))"
    using Sequential_effect [OF assms] by blast
  ultimately show ?thesis unfolding job_output_def by (intro exI [of _ fs'] exI [of _ ?vals] conjI)
qed

theorem Sequential_correct_witness:
  "\<exists>fs'. Sequential sample_json (sort_key Key) ''wc'' [''a'', ''b''] 2 letters count_all sample_files =
     Some (fs', [4]) \<and> contents fs' ''mrtmp.wc'' = Some ''x: 1\<newline>y: 2\<newline>''"
proof -
  have keys: "sorted_list_of_set {''x'', ''y''} = [''x'', ''y'']" by code_simp
  have num: "Itoa (Suc 0) = ''1''" "Itoa (Suc (Suc 0)) = ''2''" by code_simp+
  obtain fs' vals where s: "Sequential sample_json (sort_key Key) ''wc'' [''a'', ''b''] 2 letters count_all sample_files =
      Some (fs', [int (length [''a'', ''b'']) + int 2])"
    "\<forall>k. mset (vals k) = mset (values_of k (pairs letters [''a'', ''b''] sample_files))"
    "contents fs' (''mrtmp.'' @ ''wc'') = Some (concat (map (\<lambda>k. k @ '': '' @ count_all k (vals k) @ ''\<newline>'')
      (sorted_list_of_set (Key ` set (pairs letters [''a'', ''b''] sample_files)))))"
    using Sequential_correct [OF sample_job] by blast
  have "length (vals k) = length (values_of k (pairs letters [''a'', ''b''] sample_files))" for k
    using s(2) by (metis size_mset)
  then have "count_all ''x'' (vals ''x'') = ''1''" "count_all ''y'' (vals ''y'') = ''2''"
    by (simp_all add: count_all_def sample_pairs_eq values_of_def num)
  then show ?thesis using s(1,3) by (simp add: sample_pairs_eq keys)
qed

subsection \<open>Cleaning up\<close>

lemma remove_all_spec:
  assumes "distinct ns" and "\<forall>x \<in> set ns. contents fs x \<noteq> None"
  shows "remove_all ns fs = Some (fs\<lparr>contents := (contents fs) |` (- set ns)\<rparr>)"
  using assms
proof (induction ns arbitrary: fs)
  case (Cons x ns)
  let ?fs = "fs\<lparr>contents := (contents fs)(x := None)\<rparr>"
  have "removeFile x fs = Some ?fs" using Cons.prems(2) by (auto simp: removeFile_def split: option.split)
  moreover have "remove_all ns ?fs = Some (?fs\<lparr>contents := (contents ?fs) |` (- set ns)\<rparr>)"
    using Cons.prems by (intro Cons.IH) auto
  moreover have "((contents fs)(x := None)) |` (- set ns) = contents fs |` (- set (x # ns))"
    by (auto simp: restrict_map_def fun_eq_iff)
  ultimately show ?case by simp
qed (simp add: restrict_map_def)

definition reduce_names :: "string \<Rightarrow> nat \<Rightarrow> nat \<Rightarrow> string list" where
  "reduce_names job nMap n = concat (map (\<lambda>i. map (reduceName job i) [0..<n]) [0..<nMap])"

lemma distinct_reduce_names: "distinct (reduce_names job nMap n)"
  unfolding reduce_names_def
  by (induction nMap) (auto simp: distinct_map inj_on_def)

lemma set_reduce_names: "set (reduce_names job nMap n) = {reduceName job m r | m r. m < nMap \<and> r < n}"
  by (auto simp: reduce_names_def)

lemma CleanupFiles_spec:
  assumes "\<forall>x \<in> intermediate job nMap n. contents fs x \<noteq> None" and "contents fs (''mrtmp.'' @ job) \<noteq> None"
  shows "CleanupFiles job nMap n fs =
    Some (fs\<lparr>contents := (contents fs) |` (- insert (''mrtmp.'' @ job) (intermediate job nMap n))\<rparr>)"
proof -
  let ?ns = "reduce_names job nMap n" and ?ms = "map (mergeName job) [0..<n]"
  let ?fs = "\<lambda>A. fs\<lparr>contents := (contents fs) |` (- A)\<rparr>"
  have sets: "intermediate job nMap n = set ?ns \<union> set ?ms"
    by (auto simp: intermediate_def set_reduce_names)
  have new: "set ?ns \<inter> set ?ms = {}" "''mrtmp.'' @ job \<notin> set ?ns" "''mrtmp.'' @ job \<notin> set ?ms"
    using neq_result by (auto simp: set_reduce_names)
  have 1: "remove_all ?ns fs = Some (?fs (set ?ns))"
    using assms(1) by (intro remove_all_spec distinct_reduce_names) (simp add: sets)
  have "remove_all ?ms (?fs (set ?ns)) = Some ((?fs (set ?ns))\<lparr>contents := (contents (?fs (set ?ns))) |` (- set ?ms)\<rparr>)"
  proof (rule remove_all_spec)
    show "distinct ?ms" by (simp add: distinct_map inj_on_def)
    show "\<forall>x \<in> set ?ms. contents (?fs (set ?ns)) x \<noteq> None"
      using assms(1) new(1) by (auto simp: sets restrict_map_def)
  qed
  then have 2: "remove_all ?ms (?fs (set ?ns)) = Some (?fs (set ?ns \<union> set ?ms))"
    by (simp add: Int_commute)
  have 3: "removeFile (''mrtmp.'' @ job) (?fs (set ?ns \<union> set ?ms)) =
      Some (?fs (insert (''mrtmp.'' @ job) (set ?ns \<union> set ?ms)))"
  proof -
    have "(contents fs |` (- (set ?ns \<union> set ?ms)))(''mrtmp.'' @ job := None) =
        contents fs |` (- insert (''mrtmp.'' @ job) (set ?ns \<union> set ?ms))"
      by (rule ext) (simp add: restrict_map_def)
    moreover have "(contents fs |` (- (set ?ns \<union> set ?ms))) (''mrtmp.'' @ job) \<noteq> None"
      using assms(2) new(2,3) by (simp add: restrict_map_def)
    ultimately show ?thesis by (auto simp: removeFile_def split: option.split)
  qed
  show ?thesis
    unfolding CleanupFiles_def reduce_names_def [symmetric] 1 sets bind.bind_lunit 2 by (rule 3)
qed

text \<open>
  Cleaning up. If none of the files of a job existed before it ran, \<^verbatim>\<open>CleanupFiles\<close> after the sequential
  master finds every file it wants to remove and leaves the file system as it was before the job.
\<close>

lemma CleanupFiles_restores:
  assumes "codec j V" and "sorts srt" and "0 < n" and "ready job files fs"
    and "encodable V reduceF (pairs mapF files fs)"
    and "\<forall>x \<in> insert (''mrtmp.'' @ job) (intermediate job (length files) n). contents fs x = None"
  shows "\<exists>fs' stats fs''. Sequential j srt job files n mapF reduceF fs = Some (fs', stats) \<and>
    CleanupFiles job (length files) n fs' = Some fs'' \<and> contents fs'' = contents fs"
proof -
  obtain fs' where fs': "Sequential j srt job files n mapF reduceF fs = Some (fs', [int (length files) + int n])"
    "contents fs' (''mrtmp.'' @ job) \<noteq> None"
    "\<forall>x. x \<noteq> ''mrtmp.'' @ job \<longrightarrow> x \<notin> intermediate job (length files) n \<longrightarrow> contents fs' x = contents fs x"
    "\<forall>x \<in> intermediate job (length files) n. contents fs' x \<noteq> None"
    using Sequential_effect [OF assms(1-5)] by blast
  have "contents fs' |` (- insert (''mrtmp.'' @ job) (intermediate job (length files) n)) = contents fs"
    using fs'(3) assms(6) by (auto simp: restrict_map_def fun_eq_iff)
  then show ?thesis using fs'(1) CleanupFiles_spec [OF fs'(4,2)] by simp
qed

end
