(* ===== verification/Map_Reduce_Schedule.thy ===== *)
theory Map_Reduce_Schedule
  imports Map_Reduce_Distributed Map_Reduce_Proofs
begin

text \<open>
  The scheduler: no worker that registered once gets two calls at once, a phase that ends has every task's output in
  place whatever failed on the way, a phase can always be brought to its end as long as a worker is
  alive, and the distributed master computes what the sequential one computes.
\<close>

subsection \<open>Who holds which worker\<close>

fun worker_of :: "task_state \<Rightarrow> string multiset" where
  "worker_of (Called w) = {#w#}"
| "worker_of (Running w) = {#w#}"
| "worker_of _ = {#}"

definition busy :: "task_state list \<Rightarrow> string multiset" where
  "busy ts = sum_list (map worker_of ts)"

lemma busy_replicate [simp]: "busy (replicate n Waiting) = {#}"
  by (induction n) (simp_all add: busy_def)

lemma busy_update: "i < length ts \<Longrightarrow> busy (ts[i := t]) + worker_of (ts ! i) = busy ts + worker_of t"
  by (induction ts arbitrary: i) (auto simp: busy_def less_Suc_eq_0_disj add_ac)

lemma busy_memberD: "w \<in># busy ts \<Longrightarrow> \<exists>t \<in> set ts. w \<in># worker_of t"
  by (induction ts) (auto simp: busy_def)

lemma count_busy: "count (busy ts) w = count_list ts (Called w) + count_list ts (Running w)"
proof (induction ts)
  case (Cons t ts)
  then show ?case by (cases t) (auto simp: busy_def)
qed (simp add: busy_def)

lemma count_list_update:
  "i < length ts \<Longrightarrow>
   count_list (ts[i := t]) x + (if ts ! i = x then 1 else 0) = count_list ts x + (if t = x then 1 else 0)"
proof (induction ts arbitrary: i)
  case (Cons a ts)
  show ?case
  proof (cases i)
    case (Suc k)
    then show ?thesis using Cons.IH [of k] Cons.prems by (auto split: if_splits)
  qed simp
qed simp

lemma count_list_positive: "i < length ts \<Longrightarrow> ts ! i = x \<Longrightarrow> 1 \<le> count_list ts x"
  by (metis One_nat_def Suc_leI count_list_0_iff gr0I nth_mem)

text \<open>
  Every registration of a worker is in exactly one place: not yet forwarded, on the channel, or held by one
  task. A live worker executes as many tasks as run on it.
\<close>

definition calls_inv :: "phase_state \<Rightarrow> bool" where
  "calls_inv s \<longleftrightarrow>
     chan s + busy (tasks s) + mset (drop (forwarded s) (mr_workers (mr s))) = mset (mr_workers (mr s)) \<and>
     forwarded s \<le> length (mr_workers (mr s)) \<and> (\<forall>w. wk_name (wks s w) = w) \<and>
     (\<forall>w. w \<notin> gone s \<longrightarrow> concurrent (wks s w) = int (count_list (tasks s) (Running w)))"

lemma calls_inv_busy:
  assumes "calls_inv s"
  shows "count (busy (tasks s)) w \<le> count_list (mr_workers (mr s)) w"
proof -
  have "busy (tasks s) \<subseteq># mset (mr_workers (mr s))"
    using assms by (metis calls_inv_def mset_subset_eq_add_left mset_subset_eq_add_right subset_mset.order_trans)
  then show ?thesis using mset_subset_eq_count by (fastforce simp: count_mset)
qed

text \<open>A worker registered once that is called for a task executes none.\<close>

lemma called_idle:
  assumes inv: "calls_inv s" and "ti < length (tasks s)" and "tasks s ! ti = Called w" and "w \<notin> gone s"
    and "count_list (mr_workers (mr s)) w = 1"
  shows "concurrent (wks s w) = 0"
proof -
  have "count_list (tasks s) (Called w) + count_list (tasks s) (Running w) \<le> 1"
    using calls_inv_busy [OF inv, of w] assms(5) by (simp add: count_busy)
  moreover have "1 \<le> count_list (tasks s) (Called w)" by (rule count_list_positive [OF assms(2,3)])
  ultimately have "count_list (tasks s) (Running w) = 0" by linarith
  then show ?thesis using inv assms(4) by (simp add: calls_inv_def)
qed

text \<open>
  What the steps of one task do to the invariant: it changes its state and gives back or takes an address, and
  a live worker's counter moves with the tasks that run on it.
\<close>

lemma calls_inv_task:
  assumes inv: "calls_inv s" and ti: "ti < length (tasks s)"
    and tokens: "chan s' + worker_of t = chan s + worker_of (tasks s ! ti)"
    and s': "tasks s' = (tasks s)[ti := t]" "forwarded s' = forwarded s" "mr s' = mr s"
    and names: "\<forall>v. wk_name (wks s' v) = v"
    and calls: "\<And>v. v \<notin> gone s' \<Longrightarrow> v \<notin> gone s \<and>
      concurrent (wks s' v) + (if tasks s ! ti = Running v then 1 else 0) =
      concurrent (wks s v) + (if t = Running v then 1 else 0)"
  shows "calls_inv s'"
proof -
  have "chan s' + busy ((tasks s)[ti := t]) + (worker_of t + worker_of (tasks s ! ti)) =
      chan s + busy (tasks s) + (worker_of t + worker_of (tasks s ! ti))"
    using busy_update [OF ti, of t] tokens by (metis (no_types, lifting) add.assoc add.left_commute)
  then have tok: "chan s' + busy (tasks s') = chan s + busy (tasks s)" using s'(1) by simp
  have "concurrent (wks s' v) = int (count_list (tasks s') (Running v))" if "v \<notin> gone s'" for v
  proof -
    have "concurrent (wks s v) = int (count_list (tasks s) (Running v))"
      using inv calls [OF that] by (simp add: calls_inv_def)
    then show ?thesis using calls [OF that] count_list_update [OF ti, of t "Running v"]
      by (auto simp: s'(1) split: if_splits)
  qed
  then show ?thesis using inv names by (simp add: calls_inv_def s'(2,3) tok)
qed

lemma mset_drop_Suc:
  "i < length xs \<Longrightarrow> mset (drop i xs) = add_mset (xs ! i) (mset (drop (Suc i) xs))"
  by (simp flip: Cons_nth_drop_Suc)

lemma accept_begin:
  "RunWorker_accept wk = Some wk1 \<Longrightarrow> DoTask_begin wk1 = Some wk2 \<Longrightarrow>
   concurrent wk2 = concurrent wk + 1 \<and> wk_name wk2 = wk_name wk \<and> wk_Map wk2 = wk_Map wk \<and> wk_Reduce wk2 = wk_Reduce wk"
  by (auto simp: RunWorker_accept_def DoTask_begin_def Let_def split: if_splits)

text \<open>Every step keeps the invariant.\<close>

lemma calls_inv_step:
  assumes "schedule_step j srt job mfiles n phase s s'" and inv: "calls_inv s"
  shows "calls_inv s'"
  using assms(1)
proof cases
  case (register w)
  then show ?thesis using inv
    by (auto simp: calls_inv_def Register_def Worker_register_def)
next
  case (forward w i)
  then have "forwarded s < length (mr_workers (mr s))" "w = mr_workers (mr s) ! forwarded s" "i = Suc (forwarded s)"
    by (auto simp: forwardRegistrations_def split: if_splits)
  then show ?thesis using inv forward(1) mset_drop_Suc [of "forwarded s" "mr_workers (mr s)"]
    by (auto simp: calls_inv_def)
next
  case (receive ti w)
  then show ?thesis using inv
    by (intro calls_inv_task [OF inv receive(2), of s' "Called w"]) (auto simp: calls_inv_def)
next
  case (lost ti w)
  then show ?thesis using inv
    by (intro calls_inv_task [OF inv lost(2), of s' Waiting]) (auto simp: calls_inv_def)
next
  case (execute ti w wk1 wk2)
  then show ?thesis using inv accept_begin [OF execute(5,6)]
    by (intro calls_inv_task [OF inv execute(2), of s' "Running w"]) (auto simp: calls_inv_def)
next
  case (fatal ti w wk1)
  then show ?thesis using inv
    by (intro calls_inv_task [OF inv fatal(2), of s' Waiting]) (auto simp: calls_inv_def)
next
  case (finish ti w fs')
  then show ?thesis using inv
    by (intro calls_inv_task [OF inv finish(2), of s' Done]) (auto simp: calls_inv_def DoTask_end_def)
next
  case (reply_lost ti w fs')
  then show ?thesis using inv
    by (intro calls_inv_task [OF inv reply_lost(2), of s' Waiting]) (auto simp: calls_inv_def DoTask_end_def)
next
  case (crash ti w fs')
  then show ?thesis using inv
    by (intro calls_inv_task [OF inv crash(2), of s' Waiting]) (auto simp: calls_inv_def)
next
  case (die w)
  then show ?thesis using inv by (simp add: calls_inv_def)
next
  case (restart w k)
  then show ?thesis using inv by (auto simp: calls_inv_def RunWorker_new_def)
qed

subsection \<open>What the scheduler needs of a task\<close>

definition files_inv :: "(filesystem \<Rightarrow> bool) \<Rightarrow> (nat \<Rightarrow> filesystem \<Rightarrow> bool) \<Rightarrow>
    (string \<Rightarrow> string \<Rightarrow> KeyValue list) \<Rightarrow> (string \<Rightarrow> string list \<Rightarrow> string) \<Rightarrow> nat \<Rightarrow> phase_state \<Rightarrow> bool" where
  "files_inv pre good mapF reduceF N s \<longleftrightarrow>
     length (tasks s) = N \<and> pre (files s) \<and> (\<forall>ti < N. tasks s ! ti = Done \<longrightarrow> good ti (files s)) \<and>
     (\<forall>w. wk_Map (wks s w) = mapF \<and> wk_Reduce (wks s w) = reduceF) \<and> \<not> mr_shutdown (mr s)"

text \<open>
  The contract between \<^verbatim>\<open>schedule\<close> and the tasks it hands out. \<open>pre\<close> is what a task reads, \<open>good\<close> what it
  leaves. A task that runs where \<open>pre\<close> holds succeeds, leaves \<open>good\<close> and touches only its own outputs; neither
  \<open>pre\<close> nor the result of another task depends on these outputs.
\<close>

locale task_phase =
  fixes j :: json and srt :: "KeyValue list \<Rightarrow> KeyValue list" and job :: string and mfiles :: "string list"
    and n :: nat and phase :: jobPhase and mapF :: "string \<Rightarrow> string \<Rightarrow> KeyValue list"
    and reduceF :: "string \<Rightarrow> string list \<Rightarrow> string"
    and pre :: "filesystem \<Rightarrow> bool" and good :: "nat \<Rightarrow> filesystem \<Rightarrow> bool"
  assumes work: "pre fs \<Longrightarrow> ti < ntasks phase mfiles n \<Longrightarrow> wk_Map wk = mapF \<Longrightarrow> wk_Reduce wk = reduceF \<Longrightarrow>
      \<exists>fs'. DoTask_work j srt (task_args job mfiles n phase ti) wk fs = Some fs' \<and> good ti fs' \<and>
        same_outside (outputs job n phase ti) fs fs'"
    and pre_frame: "pre fs \<Longrightarrow> ti < ntasks phase mfiles n \<Longrightarrow> same_outside (outputs job n phase ti) fs fs' \<Longrightarrow> pre fs'"
    and good_frame: "good tj fs \<Longrightarrow> tj \<noteq> ti \<Longrightarrow> same_outside (outputs job n phase ti) fs fs' \<Longrightarrow> good tj fs'"
begin

abbreviation N :: nat where
  "N \<equiv> ntasks phase mfiles n"

lemma files_inv_task:
  assumes "files_inv pre good mapF reduceF N s" and "ti < length (tasks s)"
    and "same_outside (outputs job n phase ti) (files s) (files s')"
    and "tasks s' = (tasks s)[ti := t]" and "t = Done \<longrightarrow> good ti (files s')" and "mr s' = mr s"
    and "\<forall>v. wk_Map (wks s' v) = wk_Map (wks s v) \<and> wk_Reduce (wks s' v) = wk_Reduce (wks s v)"
  shows "files_inv pre good mapF reduceF N s'"
proof -
  have ti: "ti < N" using assms(1,2) by (simp add: files_inv_def)
  have "good tj (files s')" if "tj < N" "tasks s' ! tj = Done" for tj
    using that assms good_frame [of tj "files s" ti "files s'"]
    by (cases "tj = ti") (auto simp: files_inv_def)
  then show ?thesis using assms pre_frame [OF _ ti assms(3)] by (auto simp: files_inv_def)
qed

lemma files_inv_step:
  assumes "schedule_step j srt job mfiles n phase s s'" and inv: "files_inv pre good mapF reduceF N s"
  shows "files_inv pre good mapF reduceF N s'"
  using assms(1)
proof cases
  case (register w)
  then show ?thesis using inv by (simp add: files_inv_def Register_def)
next
  case (forward w i)
  then show ?thesis using inv by (simp add: files_inv_def)
next
  case (receive ti w)
  then show ?thesis by (intro files_inv_task [OF inv receive(2)]) (auto simp: same_outside_def)
next
  case (lost ti w)
  then show ?thesis by (intro files_inv_task [OF inv lost(2)]) (auto simp: same_outside_def)
next
  case (execute ti w wk1 wk2)
  then show ?thesis using accept_begin [OF execute(5,6)]
    by (intro files_inv_task [OF inv execute(2)]) (auto simp: same_outside_def)
next
  case (fatal ti w wk1)
  then show ?thesis by (intro files_inv_task [OF inv fatal(2)]) (auto simp: same_outside_def)
next
  case (finish ti w fs')
  then have "good ti fs' \<and> same_outside (outputs job n phase ti) (files s) fs'"
    using work [of "files s" ti "wks s w"] inv by (auto simp: files_inv_def)
  then show ?thesis using finish
    by (intro files_inv_task [OF inv finish(2)]) (auto simp: DoTask_end_def)
next
  case (reply_lost ti w fs')
  then have "same_outside (outputs job n phase ti) (files s) fs'"
    using work [of "files s" ti "wks s w"] inv by (auto simp: files_inv_def)
  then show ?thesis using reply_lost
    by (intro files_inv_task [OF inv reply_lost(2)]) (auto simp: DoTask_end_def)
next
  case (crash ti w fs')
  then show ?thesis by (intro files_inv_task [OF inv crash(2)]) auto
next
  case (die w)
  then show ?thesis using inv by (simp add: files_inv_def)
next
  case (restart w k)
  then show ?thesis using inv by (simp add: files_inv_def RunWorker_new_def)
qed

end

subsection \<open>A phase can always be finished\<close>

text \<open>A worker that is there and never stops accepting calls: \<^verbatim>\<open>nRPC\<close> is negative.\<close>

definition alive :: "string \<Rightarrow> phase_state \<Rightarrow> bool" where
  "alive w s \<longleftrightarrow> w \<notin> gone s \<and> nRPC (wks s w) < 0"

context task_phase
begin

lemma inv_steps:
  assumes "(schedule_step j srt job mfiles n phase)\<^sup>*\<^sup>* s s'"
    and "calls_inv s" and "files_inv pre good mapF reduceF N s"
  shows "calls_inv s' \<and> files_inv pre good mapF reduceF N s'"
  using assms by (induction rule: rtranclp_induct) (auto intro: calls_inv_step files_inv_step)

text \<open>
  A task can be brought out of its call: a call that is not executed is lost, a live worker finishes, and the
  call to a worker that is gone breaks. Other tasks and other workers do not notice.
\<close>

lemma settle_one:
  assumes "files_inv pre good mapF reduceF N s" and ti: "ti < length (tasks s)"
  shows "\<exists>s' t. (schedule_step j srt job mfiles n phase)\<^sup>*\<^sup>* s s' \<and> tasks s' = (tasks s)[ti := t] \<and>
    t \<in> {Waiting, Done} \<and> (\<forall>w. alive w s \<longrightarrow> alive w s') \<and> mr_workers (mr s') = mr_workers (mr s)"
proof (cases "tasks s ! ti")
  case Waiting
  then show ?thesis by (intro exI [of _ s] exI [of _ Waiting]) (metis insertI1 list_update_id rtranclp.rtrancl_refl)
next
  case (Called v)
  from schedule_step.lost [OF ti Called] show ?thesis
    by (intro exI [of _ "s\<lparr>tasks := (tasks s)[ti := Waiting], chan := add_mset v (chan s)\<rparr>"] exI [of _ Waiting])
      (auto simp: alive_def)
next
  case (Running v)
  show ?thesis
  proof (cases "v \<in> gone s")
    case True
    from schedule_step.crash [OF ti Running, of job n phase "files s"] True show ?thesis
      by (intro exI [of _ "s\<lparr>tasks := (tasks s)[ti := Waiting], gone := insert v (gone s), files := files s,
          chan := add_mset v (chan s)\<rparr>"] exI [of _ Waiting]) (auto simp: alive_def same_outside_def)
  next
    case False
    obtain fs' where "DoTask_work j srt (task_args job mfiles n phase ti) (wks s v) (files s) = Some fs'"
      using work [of "files s" ti "wks s v"] assms by (auto simp: files_inv_def)
    from schedule_step.finish [OF ti Running False this] show ?thesis
      by (intro exI [of _ "s\<lparr>tasks := (tasks s)[ti := Done], wks := (wks s)(v := DoTask_end (wks s v)), files := fs',
          chan := add_mset v (chan s)\<rparr>"] exI [of _ Done]) (auto simp: alive_def DoTask_end_def)
  qed
next
  case Done
  then show ?thesis by (intro exI [of _ s] exI [of _ Done]) (metis insertI1 insertI2 list_update_id rtranclp.rtrancl_refl)
qed

lemma settle_upto:
  assumes inv: "calls_inv s" "files_inv pre good mapF reduceF N s" and "k \<le> length (tasks s)"
  shows "\<exists>s'. (schedule_step j srt job mfiles n phase)\<^sup>*\<^sup>* s s' \<and> length (tasks s') = length (tasks s) \<and>
    (\<forall>i < k. tasks s' ! i \<in> {Waiting, Done}) \<and> (\<forall>w. alive w s \<longrightarrow> alive w s') \<and>
    mr_workers (mr s') = mr_workers (mr s)"
  using assms(3)
proof (induction k)
  case 0
  then show ?case by blast
next
  case (Suc k)
  then obtain s1 where s1: "(schedule_step j srt job mfiles n phase)\<^sup>*\<^sup>* s s1"
    "length (tasks s1) = length (tasks s)" "\<forall>i < k. tasks s1 ! i \<in> {Waiting, Done}"
    "\<forall>w. alive w s \<longrightarrow> alive w s1" "mr_workers (mr s1) = mr_workers (mr s)"
    by auto
  have k: "k < length (tasks s1)" using Suc.prems s1(2) by simp
  obtain s2 t where s2: "(schedule_step j srt job mfiles n phase)\<^sup>*\<^sup>* s1 s2" "tasks s2 = (tasks s1)[k := t]"
    "t \<in> {Waiting, Done}" "\<forall>w. alive w s1 \<longrightarrow> alive w s2" "mr_workers (mr s2) = mr_workers (mr s1)"
    using settle_one [OF _ k] inv_steps [OF s1(1) inv] by blast
  have "\<forall>i < Suc k. tasks s2 ! i \<in> {Waiting, Done}"
    using s1(3) s2(2,3) k by (auto simp: less_Suc_eq nth_list_update)
  then show ?case using s1 s2 by (intro exI [of _ s2]) auto
qed

text \<open>No task is in a call.\<close>

abbreviation settled :: "phase_state \<Rightarrow> bool" where
  "settled s \<equiv> \<forall>t \<in> set (tasks s). t \<in> {Waiting, Done}"

lemma settled_idle:
  assumes "calls_inv s" and "settled s" and "w \<notin> gone s"
  shows "concurrent (wks s w) = 0"
proof -
  have "Running w \<notin> set (tasks s)" using assms(2) by auto
  then show ?thesis using assms(1,3) by (simp add: calls_inv_def)
qed

lemma settled_busy: "settled s \<Longrightarrow> busy (tasks s) = {#}"
  by (rule ccontr, erule multiset_nonemptyE, drule busy_memberD) auto

text \<open>A waiting task can be finished by any live worker on the channel that executes nothing.\<close>

lemma finish_waiting:
  assumes inv: "calls_inv s" "files_inv pre good mapF reduceF N s" and "settled s"
    and "ti < length (tasks s)" and "tasks s ! ti = Waiting" and "w \<in># chan s" and "alive w s"
  shows "\<exists>s'. (schedule_step j srt job mfiles n phase)\<^sup>*\<^sup>* s s' \<and> tasks s' = (tasks s)[ti := Done] \<and>
    w \<in># chan s' \<and> alive w s'"
proof -
  let ?s1 = "s\<lparr>tasks := (tasks s)[ti := Called w], chan := chan s - {#w#}\<rparr>"
  have 1: "schedule_step j srt job mfiles n phase s ?s1" by (rule receive) (use assms in auto)
  have called: "ti < length (tasks ?s1)" "tasks ?s1 ! ti = Called w" using assms(4) by auto
  let ?wk1 = "(wks s w)\<lparr>nRPC := nRPC (wks s w) - 1\<rparr>"
  let ?wk2 = "?wk1\<lparr>nTasks := nTasks ?wk1 + 1, concurrent := concurrent ?wk1 + 1\<rparr>"
  have idle: "concurrent (wks s w) = 0" using settled_idle [OF inv(1) assms(3)] assms(7) by (simp add: alive_def)
  let ?s2 = "?s1\<lparr>tasks := (tasks ?s1)[ti := Running w], wks := (wks ?s1)(w := ?wk2)\<rparr>"
  have 2: "schedule_step j srt job mfiles n phase ?s1 ?s2"
    by (rule execute [OF called]) (use assms(7) idle in \<open>auto simp: alive_def RunWorker_accept_def DoTask_begin_def\<close>)
  have running: "ti < length (tasks ?s2)" "tasks ?s2 ! ti = Running w" "w \<notin> gone ?s2"
    using assms(4,7) by (auto simp: alive_def)
  obtain fs' where fs': "DoTask_work j srt (task_args job mfiles n phase ti) (wks ?s2 w) (files ?s2) = Some fs'"
    using work [of "files s" ti ?wk2] inv(2) assms(4) by (auto simp: files_inv_def)
  note 3 = schedule_step.finish [OF running fs']
  note steps = converse_rtranclp_into_rtranclp [of "schedule_step j srt job mfiles n phase", OF 1
      converse_rtranclp_into_rtranclp [of "schedule_step j srt job mfiles n phase", OF 2 r_into_rtranclp, OF 3]]
  show ?thesis by (intro exI conjI, rule steps) (use assms(7) in \<open>auto simp: alive_def DoTask_end_def\<close>)
qed

lemma finish_upto:
  assumes inv: "calls_inv s" "files_inv pre good mapF reduceF N s" and "settled s" and "w \<in># chan s" and "alive w s"
    and "k \<le> length (tasks s)"
  shows "\<exists>s'. (schedule_step j srt job mfiles n phase)\<^sup>*\<^sup>* s s' \<and> length (tasks s') = length (tasks s) \<and>
    (\<forall>i < k. tasks s' ! i = Done) \<and> settled s' \<and> w \<in># chan s' \<and> alive w s'"
  using assms(6)
proof (induction k)
  case 0
  then show ?case using assms by blast
next
  case (Suc k)
  then obtain s1 where s1: "(schedule_step j srt job mfiles n phase)\<^sup>*\<^sup>* s s1"
    "length (tasks s1) = length (tasks s)" "\<forall>i < k. tasks s1 ! i = Done" "settled s1" "w \<in># chan s1" "alive w s1"
    by auto
  have k: "k < length (tasks s1)" using Suc.prems s1(2) by simp
  have inv1: "calls_inv s1" "files_inv pre good mapF reduceF N s1" using inv_steps [OF s1(1) inv] by auto
  have "\<exists>s2. (schedule_step j srt job mfiles n phase)\<^sup>*\<^sup>* s1 s2 \<and> tasks s2 = (tasks s1)[k := Done] \<and>
      w \<in># chan s2 \<and> alive w s2"
  proof (cases "tasks s1 ! k = Waiting")
    case True
    then show ?thesis by (rule finish_waiting [OF inv1 s1(4) k _ s1(5,6)])
  next
    case False
    then have "tasks s1 ! k = Done" using s1(4) nth_mem [OF k] by auto
    then show ?thesis using s1(5,6) by (metis list_update_id rtranclp.rtrancl_refl)
  qed
  then obtain s2 where s2: "(schedule_step j srt job mfiles n phase)\<^sup>*\<^sup>* s1 s2" "tasks s2 = (tasks s1)[k := Done]"
    "w \<in># chan s2" "alive w s2" by blast
  have "\<forall>i < Suc k. tasks s2 ! i = Done"
    using s1(3) s2(2) k by (auto simp: less_Suc_eq nth_list_update)
  moreover have "settled s2"
    unfolding s2(2) using s1(4) set_update_subset_insert [of "tasks s1" k Done] by blast
  ultimately show ?case using s1 s2 by (intro exI [of _ s2]) auto
qed

text \<open>Every registered worker can be brought to the channel.\<close>

lemma forward_to:
  assumes "forwarded s + k < length (mr_workers (mr s))"
  shows "\<exists>s'. (schedule_step j srt job mfiles n phase)\<^sup>*\<^sup>* s s' \<and> mr_workers (mr s) ! (forwarded s + k) \<in># chan s' \<and>
    tasks s' = tasks s \<and> (\<forall>w. alive w s \<longrightarrow> alive w s')"
  using assms
proof (induction k arbitrary: s)
  case 0
  then have "schedule_step j srt job mfiles n phase s
      (s\<lparr>chan := add_mset (mr_workers (mr s) ! forwarded s) (chan s), forwarded := Suc (forwarded s)\<rparr>)"
    by (intro forward) (simp add: forwardRegistrations_def)
  then show ?case by (intro exI conjI, rule r_into_rtranclp) (auto simp: alive_def)
next
  case (Suc k)
  let ?s1 = "s\<lparr>chan := add_mset (mr_workers (mr s) ! forwarded s) (chan s), forwarded := Suc (forwarded s)\<rparr>"
  have 1: "schedule_step j srt job mfiles n phase s ?s1"
    using Suc.prems by (intro forward) (simp add: forwardRegistrations_def)
  have "\<exists>s'. (schedule_step j srt job mfiles n phase)\<^sup>*\<^sup>* ?s1 s' \<and>
      mr_workers (mr ?s1) ! (forwarded ?s1 + k) \<in># chan s' \<and> tasks s' = tasks ?s1 \<and> (\<forall>w. alive w ?s1 \<longrightarrow> alive w s')"
    using Suc.prems by (intro Suc.IH) simp
  then show ?case using converse_rtranclp_into_rtranclp [of "schedule_step j srt job mfiles n phase", OF 1] by (auto simp: alive_def)
qed

lemma bring_to_channel:
  assumes inv: "calls_inv s" and "settled s" and "w \<in> set (mr_workers (mr s))" and "alive w s"
  shows "\<exists>s'. (schedule_step j srt job mfiles n phase)\<^sup>*\<^sup>* s s' \<and> w \<in># chan s' \<and> settled s' \<and> alive w s'"
proof -
  have "w \<in># chan s + mset (drop (forwarded s) (mr_workers (mr s)))"
    using inv assms(3) settled_busy [OF assms(2)] by (simp add: calls_inv_def)
  then consider "w \<in># chan s" | "w \<in> set (drop (forwarded s) (mr_workers (mr s)))"
    by (auto simp: in_multiset_in_set)
  then show ?thesis
  proof cases
    case 1
    then show ?thesis using assms(2,4) by blast
  next
    case 2
    then obtain k where "k < length (mr_workers (mr s)) - forwarded s" "w = mr_workers (mr s) ! (forwarded s + k)"
      by (auto simp: in_set_conv_nth)
    moreover from this(1) have "forwarded s + k < length (mr_workers (mr s))" by linarith
    ultimately show ?thesis using forward_to [of s k] assms(2,4) by metis
  qed
qed

lemma can_finish:
  assumes inv: "calls_inv s" "files_inv pre good mapF reduceF N s"
    and "w \<in> set (mr_workers (mr s))" and "alive w s"
  shows "\<exists>s'. (schedule_step j srt job mfiles n phase)\<^sup>*\<^sup>* s s' \<and> all_done s' \<and>
    w \<in> set (mr_workers (mr s')) \<and> alive w s'"
proof -
  obtain s0 where s0: "(schedule_step j srt job mfiles n phase)\<^sup>*\<^sup>* s s0"
    "\<forall>i < length (tasks s0). tasks s0 ! i \<in> {Waiting, Done}" "alive w s0" "mr_workers (mr s0) = mr_workers (mr s)"
    using settle_upto [OF inv order_refl] assms(4) by auto
  have "settled s0" using s0(2) by (metis in_set_conv_nth)
  then obtain s1 where s1: "(schedule_step j srt job mfiles n phase)\<^sup>*\<^sup>* s0 s1" "w \<in># chan s1" "settled s1" "alive w s1"
    using bring_to_channel [of s0 w] inv_steps [OF s0(1) inv] assms(3) s0(3,4) by metis
  note steps1 = rtranclp_trans [OF s0(1) s1(1)]
  have inv1: "calls_inv s1" "files_inv pre good mapF reduceF N s1" using inv_steps [OF steps1 inv] by auto
  obtain s2 where s2: "(schedule_step j srt job mfiles n phase)\<^sup>*\<^sup>* s1 s2" "length (tasks s2) = length (tasks s1)"
    "\<forall>i < length (tasks s1). tasks s2 ! i = Done" "w \<in># chan s2" "alive w s2"
    using finish_upto [OF inv1 s1(3,2,4) order_refl] by blast
  note steps = rtranclp_trans [OF steps1 s2(1)]
  have "all_done s2" using s2(2,3) by (simp add: all_done_def list_all_length)
  moreover have "w \<in># mset (mr_workers (mr s2))"
    using inv_steps [OF steps inv] s2(4) by (metis calls_inv_def union_iff)
  ultimately show ?thesis using steps s2(5) by auto
qed

end

subsection \<open>Map and reduce tasks keep the contract\<close>

definition map_pre :: "string \<Rightarrow> string list \<Rightarrow> nat \<Rightarrow> filesystem \<Rightarrow> filesystem \<Rightarrow> bool" where
  "map_pre job mfiles n fs0 fs \<longleftrightarrow> 0 < n \<and> ready job mfiles fs0 \<and> writable fs = writable fs0 \<and>
     (\<forall>f \<in> set mfiles. contents fs f = contents fs0 f)"

definition map_good :: "json \<Rightarrow> string \<Rightarrow> string list \<Rightarrow> nat \<Rightarrow> (string \<Rightarrow> string \<Rightarrow> KeyValue list) \<Rightarrow>
    filesystem \<Rightarrow> nat \<Rightarrow> filesystem \<Rightarrow> bool" where
  "map_good j job mfiles n mapF fs0 ti fs \<longleftrightarrow>
     (\<forall>r < n. contents fs (reduceName job ti r) =
        Some (encode_all j (part n r (mapF (mfiles ! ti) (the (contents fs0 (mfiles ! ti)))))))"

lemma map_work:
  assumes "map_pre job mfiles n fs0 fs" and "ti < length mfiles" and "wk_Map wk = mapF"
  shows "\<exists>fs'. DoTask_work j srt (task_args job mfiles n mapPhase ti) wk fs = Some fs' \<and>
    map_good j job mfiles n mapF fs0 ti fs' \<and> same_outside (outputs job n mapPhase ti) fs fs'"
proof -
  have f: "mfiles ! ti \<in> set mfiles" using assms(2) by simp
  then obtain data where data: "contents fs (mfiles ! ti) = Some data" "contents fs0 (mfiles ! ti) = Some data"
    using assms(1) by (auto simp: map_pre_def ready_def)
  have n: "0 < n" and w: "\<forall>r < n. writable fs (reduceName job ti r)"
    using assms(1) by (auto simp: map_pre_def ready_def)
  obtain fs' where "doMap j job ti (mfiles ! ti) n mapF fs = Some fs'" "writable fs' = writable fs"
    "\<forall>r < n. contents fs' (reduceName job ti r) = Some (encode_all j (part n r (mapF (mfiles ! ti) data)))"
    "\<forall>x. x \<notin> reduceName job ti ` {..<n} \<longrightarrow> contents fs' x = contents fs x"
    by (rule doMap_spec [OF n data(1) w])
  then show ?thesis using assms(3) data(2)
    by (simp add: DoTask_work_def task_args_def n_other_def map_good_def same_outside_def outputs_def)
qed

interpretation mapt: task_phase j srt job mfiles n mapPhase mapF reduceF
    "map_pre job mfiles n fs0" "map_good j job mfiles n mapF fs0"
  for j srt job mfiles n mapF reduceF fs0
proof
  show "\<exists>fs'. DoTask_work j srt (task_args job mfiles n mapPhase ti) wk fs = Some fs' \<and>
      map_good j job mfiles n mapF fs0 ti fs' \<and> same_outside (outputs job n mapPhase ti) fs fs'"
    if "map_pre job mfiles n fs0 fs" "ti < ntasks mapPhase mfiles n" "wk_Map wk = mapF" for fs ti wk
    using map_work that by (simp add: ntasks_def)
  show "map_pre job mfiles n fs0 fs'"
    if "map_pre job mfiles n fs0 fs" "same_outside (outputs job n mapPhase ti) fs fs'" for fs ti fs'
    using that by (fastforce simp: map_pre_def same_outside_def outputs_def ready_def)
  show "map_good j job mfiles n mapF fs0 tj fs'"
    if "map_good j job mfiles n mapF fs0 tj fs" "tj \<noteq> ti" "same_outside (outputs job n mapPhase ti) fs fs'"
    for tj fs ti fs'
    using that by (auto simp: map_good_def same_outside_def outputs_def image_iff)
qed

definition reduce_pre :: "json \<Rightarrow> KeyValue set \<Rightarrow> string \<Rightarrow> string list \<Rightarrow> nat \<Rightarrow> (string \<Rightarrow> string \<Rightarrow> KeyValue list) \<Rightarrow>
    (string \<Rightarrow> string list \<Rightarrow> string) \<Rightarrow> filesystem \<Rightarrow> filesystem \<Rightarrow> bool" where
  "reduce_pre j V job mfiles n mapF reduceF fs0 fs \<longleftrightarrow> codec j V \<and> encodable V reduceF (pairs mapF mfiles fs0) \<and>
     ready job mfiles fs0 \<and> writable fs = writable fs0 \<and>
     (\<forall>m < length mfiles. map_good j job mfiles n mapF fs0 m fs)"

definition reduce_good :: "json \<Rightarrow> (KeyValue list \<Rightarrow> KeyValue list) \<Rightarrow> string \<Rightarrow> string list \<Rightarrow> nat \<Rightarrow>
    (string \<Rightarrow> string \<Rightarrow> KeyValue list) \<Rightarrow> (string \<Rightarrow> string list \<Rightarrow> string) \<Rightarrow> filesystem \<Rightarrow> nat \<Rightarrow> filesystem \<Rightarrow> bool" where
  "reduce_good j srt job mfiles n mapF reduceF fs0 ti fs \<longleftrightarrow>
     contents fs (mergeName job ti) =
       Some (encode_all j (results reduceF (srt (part n ti (pairs mapF mfiles fs0)))))"

lemma reduce_work:
  assumes "reduce_pre j V job mfiles n mapF reduceF fs0 fs" and "ti < n" and "wk_Reduce wk = reduceF"
  shows "\<exists>fs'. DoTask_work j srt (task_args job mfiles n reducePhase ti) wk fs = Some fs' \<and>
    reduce_good j srt job mfiles n mapF reduceF fs0 ti fs' \<and> same_outside (outputs job n reducePhase ti) fs fs'"
proof -
  let ?P = "\<lambda>m. part n ti (mapF (mfiles ! m) (the (contents fs0 (mfiles ! m))))"
  have pre: "codec j V" "encodable V reduceF (pairs mapF mfiles fs0)" "writable fs (mergeName job ti)"
    "\<forall>m < length mfiles. contents fs (reduceName job m ti) = Some (encode_all j (?P m))"
    using assms(1,2) by (auto simp: reduce_pre_def ready_def map_good_def)
  have "collect j job ti [0..<length mfiles] fs = Some (concat (map ?P [0..<length mfiles]))"
    using pre(4) part_encodable [OF pre(2)] by (intro collect_spec [OF pre(1)]) auto
  then have "collect j job ti [0..<length mfiles] fs = Some (part n ti (pairs mapF mfiles fs0))"
    by (simp only: parts_of_pairs)
  from doReduce_spec [OF this pre(3)] show ?thesis using assms(3)
    by (simp add: DoTask_work_def task_args_def n_other_def reduce_good_def same_outside_def outputs_def)
qed

interpretation redt: task_phase j srt job mfiles n reducePhase mapF reduceF
    "reduce_pre j V job mfiles n mapF reduceF fs0" "reduce_good j srt job mfiles n mapF reduceF fs0"
  for j srt job mfiles n mapF reduceF V fs0
proof
  show "\<exists>fs'. DoTask_work j srt (task_args job mfiles n reducePhase ti) wk fs = Some fs' \<and>
      reduce_good j srt job mfiles n mapF reduceF fs0 ti fs' \<and> same_outside (outputs job n reducePhase ti) fs fs'"
    if "reduce_pre j V job mfiles n mapF reduceF fs0 fs" "ti < ntasks reducePhase mfiles n" "wk_Reduce wk = reduceF"
    for fs ti wk
    using reduce_work that by (simp add: ntasks_def)
  show "reduce_pre j V job mfiles n mapF reduceF fs0 fs'"
    if "reduce_pre j V job mfiles n mapF reduceF fs0 fs" "same_outside (outputs job n reducePhase ti) fs fs'"
    for fs ti fs'
    using that by (simp add: reduce_pre_def map_good_def same_outside_def outputs_def)
  show "reduce_good j srt job mfiles n mapF reduceF fs0 tj fs'"
    if "reduce_good j srt job mfiles n mapF reduceF fs0 tj fs" "tj \<noteq> ti"
      "same_outside (outputs job n reducePhase ti) fs fs'" for tj fs ti fs'
    using that by (simp add: reduce_good_def same_outside_def outputs_def)
qed

subsection \<open>Both phases\<close>

lemma calls_inv_start:
  assumes "\<forall>w. wk_name (wks s w) = w" and "\<forall>w. w \<notin> gone s \<longrightarrow> concurrent (wks s w) = 0"
  shows "calls_inv (start_phase mfiles n phase s)"
  using assms by (simp add: calls_inv_def start_phase_def)

lemma all_done_not_running: "all_done s \<Longrightarrow> Running w \<notin> set (tasks s)"
  by (auto simp: all_done_def list_all_iff)

lemma Distributed_calls_inv:
  assumes "Distributed j srt job mfiles n (Distributed_init master job mfiles n mapF reduceF limit fs) phase s"
  shows "calls_inv s"
  using assms
proof (induction rule: Distributed.induct)
  case map_start
  show ?case
    by (rule calls_inv_start) (simp_all add: Distributed_init_def newMaster_def RunWorker_new_def)
next
  case (phase_step phase s s')
  then show ?case using calls_inv_step by blast
next
  case (reduce_start s)
  then show ?case using all_done_not_running [OF reduce_start.hyps(2)]
    by (intro calls_inv_start) (simp_all add: calls_inv_def)
qed

lemma Distributed_files_inv:
  assumes "Distributed j srt job mfiles n (Distributed_init master job mfiles n mapF reduceF limit fs) phase s"
    and "codec j V" and "encodable V reduceF (pairs mapF mfiles fs)" and "0 < n" and "ready job mfiles fs"
  shows "case phase of
     mapPhase \<Rightarrow> files_inv (map_pre job mfiles n fs) (map_good j job mfiles n mapF fs) mapF reduceF (length mfiles) s
   | reducePhase \<Rightarrow> files_inv (reduce_pre j V job mfiles n mapF reduceF fs)
       (reduce_good j srt job mfiles n mapF reduceF fs) mapF reduceF n s"
  using assms(1)
proof (induction rule: Distributed.induct)
  case map_start
  show ?case using assms(4,5)
    by (simp add: files_inv_def map_pre_def start_phase_def Distributed_init_def newMaster_def RunWorker_new_def
        ntasks_def)
next
  case (phase_step phase s s')
  show ?case
  proof (cases phase)
    case mapPhase
    then show ?thesis using phase_step mapt.files_inv_step by (fastforce simp: ntasks_def)
  next
    case reducePhase
    then show ?thesis using phase_step redt.files_inv_step by (fastforce simp: ntasks_def)
  qed
next
  case (reduce_start s)
  then have "\<forall>m < length mfiles. map_good j job mfiles n mapF fs m (files s)"
    by (auto simp: files_inv_def all_done_def list_all_length)
  then show ?case using reduce_start assms
    by (simp add: files_inv_def reduce_pre_def map_pre_def start_phase_def ntasks_def)
qed

text \<open>
  C27. A worker registered once is never asked to do two things at once. Whatever calls are lost, and whichever
  processes end and start again, a live worker whose address is in the master's list once and that is called
  for a task is not executing another one, so the test that ends a worker process on concurrent calls does
  not fire. (A call returns only when its reply arrives or its connection breaks, as \<^verbatim>\<open>call\<close> is written; the
  lemmas \<open>registered_twice_fatal\<close> and \<open>time_out_fatal\<close> below show that both conditions are needed.)
\<close>

theorem DoTask_never_concurrent:
  assumes "Distributed j srt job mfiles n (Distributed_init master job mfiles n mapF reduceF limit fs) phase s"
    and "ti < length (tasks s)" and "tasks s ! ti = Called w" and "w \<notin> gone s"
    and "count_list (mr_workers (mr s)) w = 1" and "RunWorker_accept (wks s w) = Some wk"
  shows "concurrent (wks s w) = 0 \<and> DoTask_begin wk \<noteq> None"
proof -
  have "concurrent (wks s w) = 0" by (rule called_idle [OF Distributed_calls_inv [OF assms(1)] assms(2-5)])
  then show ?thesis using assms(6)
    by (auto simp: RunWorker_accept_def DoTask_begin_def Let_def split: if_splits)
qed

text \<open>
  If \<^verbatim>\<open>call\<close> did time out, as its comment says to assume, and gave up on a worker that still executes its task, the
  next task that takes the worker's address off the channel would end the worker's process.
\<close>

lemma time_out_fatal:
  assumes "calls_inv s" and "ti < length (tasks s)" and "tasks s ! ti = Running w" and "w \<notin> gone s"
    and "tk < length (tasks s)" and "tasks s ! tk = Waiting" and "nRPC (wks s w) \<noteq> 0"
    and "s1 = s\<lparr>tasks := (tasks s)[ti := Waiting], chan := add_mset w (chan s)\<rparr>"
  shows "\<exists>s2 wk. schedule_step j srt job mfiles n phase s1 s2 \<and> tasks s2 ! tk = Called w \<and> w \<notin> gone s2 \<and>
    RunWorker_accept (wks s2 w) = Some wk \<and> DoTask_begin wk = None"
proof -
  let ?s2 = "s1\<lparr>tasks := (tasks s1)[tk := Called w], chan := chan s1 - {#w#}\<rparr>"
  have "tk \<noteq> ti" using assms(3,6) by auto
  then have "schedule_step j srt job mfiles n phase s1 ?s2"
    by (intro receive) (use assms(5,6,8) in auto)
  moreover have "1 \<le> count_list (tasks s) (Running w)" by (rule count_list_positive [OF assms(2,3)])
  then have "1 \<le> concurrent (wks s w)" using assms(1,4) by (simp add: calls_inv_def)
  ultimately show ?thesis using assms(4,5,7,8)
    by (intro exI [of _ ?s2] exI [of _ "(wks s w)\<lparr>nRPC := nRPC (wks s w) - 1\<rparr>"] conjI)
      (auto simp: RunWorker_accept_def DoTask_begin_def Let_def)
qed

text \<open>
  C9. The distributed master computes what the sequential one computes. However workers register, calls
  fail and workers die in the middle of a task, when both phases have ended the master merges the same
  result file as the sequential master on the same input.
\<close>

theorem Distributed_refines_Sequential:
  assumes "codec j V" and "sorts srt" and "0 < n" and "ready job mfiles fs"
    and "encodable V reduceF (pairs mapF mfiles fs)"
    and "Distributed j srt job mfiles n (Distributed_init master job mfiles n mapF reduceF limit fs) reducePhase s"
    and "all_done s"
  shows "\<exists>mr' fs' fs'' stats. Distributed_finish call j job n s = Some (mr', fs') \<and>
    Sequential j srt job mfiles n mapF reduceF fs = Some (fs'', stats) \<and>
    contents fs' (''mrtmp.'' @ job) = contents fs'' (''mrtmp.'' @ job)"
proof -
  have inv: "files_inv (reduce_pre j V job mfiles n mapF reduceF fs)
      (reduce_good j srt job mfiles n mapF reduceF fs) mapF reduceF n s"
    using Distributed_files_inv [OF assms(6,1,5,3,4)] by simp
  then have "\<forall>r < n. contents (files s) (mergeName job r) =
      Some (encode_all j (results reduceF (srt (part n r (pairs mapF mfiles fs)))))"
    using assms(7) by (auto simp: files_inv_def all_done_def list_all_length reduce_good_def)
  moreover have "writable (files s) (''mrtmp.'' @ job)"
    using inv assms(4) by (simp add: files_inv_def reduce_pre_def ready_def)
  ultimately have "merge j job n (files s) = Some ((files s)\<lparr>contents := (contents (files s))(''mrtmp.'' @ job \<mapsto>
      job_output srt n reduceF (pairs mapF mfiles fs))\<rparr>)"
    by (rule merge_results [OF assms(1-3,5)])
  moreover have "\<not> mr_shutdown (mr s)" using inv by (simp add: files_inv_def)
  ultimately show ?thesis
    using Sequential_effect [OF assms(1-5)] by (auto simp: Distributed_finish_def Master_Shutdown_def)
qed

lemma Distributed_steps:
  assumes "(schedule_step j srt job mfiles n phase)\<^sup>*\<^sup>* s s'" and "Distributed j srt job mfiles n s0 phase s"
  shows "Distributed j srt job mfiles n s0 phase s'"
  using assms by (induction rule: rtranclp_induct) (auto intro: phase_step)

lemma Distributed_can_finish:
  assumes "codec j V" and "0 < n" and "ready job mfiles fs" and "encodable V reduceF (pairs mapF mfiles fs)"
    and "Distributed j srt job mfiles n (Distributed_init master job mfiles n mapF reduceF limit fs) phase s"
    and "w \<in> set (mr_workers (mr s))" and "alive w s"
  shows "\<exists>s'. (schedule_step j srt job mfiles n phase)\<^sup>*\<^sup>* s s' \<and> all_done s' \<and>
    w \<in> set (mr_workers (mr s')) \<and> alive w s'"
proof -
  note c = Distributed_calls_inv [OF assms(5)]
  note f = Distributed_files_inv [OF assms(5,1,4,2,3)]
  show ?thesis
  proof (cases phase)
    case mapPhase
    then show ?thesis using mapt.can_finish [OF c _ assms(6,7)] f by (simp add: ntasks_def)
  next
    case reducePhase
    then show ?thesis using redt.can_finish [OF c _ assms(6,7)] f by (simp add: ntasks_def)
  qed
qed

text \<open>
  C24. Scheduling is never stuck. From every state a distributed job can reach, after any failures, the phase
  can still run to its end as long as one registered worker is alive and accepts calls; that worker is
  then still registered and alive.
\<close>

theorem schedule_can_finish:
  assumes "codec j V" and "0 < n" and "ready job mfiles fs" and "encodable V reduceF (pairs mapF mfiles fs)"
    and "Distributed j srt job mfiles n (Distributed_init master job mfiles n mapF reduceF limit fs) phase s"
    and "w \<in> set (mr_workers (mr s))" and "w \<notin> gone s" and "nRPC (wks s w) < 0"
  shows "\<exists>s'. (schedule_step j srt job mfiles n phase)\<^sup>*\<^sup>* s s' \<and> all_done s' \<and>
    w \<in> set (mr_workers (mr s')) \<and> w \<notin> gone s' \<and> nRPC (wks s' w) < 0"
  using Distributed_can_finish [OF assms(1-6)] assms(7,8) by (simp add: alive_def)

subsection \<open>A job with one worker\<close>

definition sample_init :: phase_state where
  "sample_init = Distributed_init ''m'' ''wc'' [''a'', ''b''] 2 letters count_all (\<lambda>_. -1) sample_files"

definition sample_start :: phase_state where
  "sample_start = (start_phase [''a'', ''b''] 2 mapPhase sample_init)
     \<lparr>mr := Register \<lparr>reg_Worker = ''w''\<rparr> (mr sample_init)\<rparr>"

abbreviation sample_reach :: "jobPhase \<Rightarrow> phase_state \<Rightarrow> bool" where
  "sample_reach \<equiv> Distributed sample_json (sort_key Key) ''wc'' [''a'', ''b''] 2 sample_init"

lemmas sample_state_defs = sample_start_def sample_init_def Distributed_init_def start_phase_def newMaster_def
  RunWorker_new_def Register_def Worker_register_def

lemma sample_start_reach: "sample_reach mapPhase sample_start"
proof -
  let ?s = "start_phase [''a'', ''b''] 2 mapPhase sample_init"
  have "schedule_step sample_json (sort_key Key) ''wc'' [''a'', ''b''] 2 mapPhase ?s
      (?s\<lparr>mr := Register (Worker_register (wks ?s ''w'')) (mr ?s)\<rparr>)"
    by (rule register)
  moreover have "?s\<lparr>mr := Register (Worker_register (wks ?s ''w'')) (mr ?s)\<rparr> = sample_start"
    by (simp add: sample_state_defs)
  ultimately show ?thesis using phase_step [OF map_start] by metis
qed

lemma sample_start_alive: "''w'' \<in> set (mr_workers (mr sample_start))" "alive ''w'' sample_start"
  by (simp_all add: sample_state_defs alive_def)

theorem schedule_can_finish_witness:
  "sample_reach mapPhase sample_start \<and>
   (\<exists>s'. (schedule_step sample_json (sort_key Key) ''wc'' [''a'', ''b''] 2 mapPhase)\<^sup>*\<^sup>* sample_start s' \<and> all_done s')"
  using sample_start_reach sample_start_alive
    schedule_can_finish [OF sample_codec zero_less_numeral sample_ready sample_encodable
      sample_start_reach [unfolded sample_init_def], of "''w''"]
  by (auto simp: alive_def)

theorem DoTask_never_concurrent_witness:
  "\<exists>s wk. sample_reach mapPhase s \<and> tasks s ! 0 = Called ''w'' \<and>
     RunWorker_accept (wks s ''w'') = Some wk \<and> DoTask_begin wk \<noteq> None"
proof -
  let ?s1 = "sample_start\<lparr>chan := {#''w''#}, forwarded := 1\<rparr>"
  let ?s2 = "?s1\<lparr>tasks := [Called ''w'', Waiting], chan := {#}\<rparr>"
  have "schedule_step sample_json (sort_key Key) ''wc'' [''a'', ''b''] 2 mapPhase sample_start
      (sample_start\<lparr>chan := add_mset ''w'' (chan sample_start), forwarded := 1\<rparr>)"
    by (rule forward) (simp add: forwardRegistrations_def sample_state_defs)
  moreover have "sample_start\<lparr>chan := add_mset ''w'' (chan sample_start), forwarded := 1\<rparr> = ?s1"
    by (simp add: sample_state_defs)
  ultimately have r1: "sample_reach mapPhase ?s1" using phase_step [OF sample_start_reach] by metis
  have t1: "tasks ?s1 = [Waiting, Waiting]" by (simp add: sample_state_defs ntasks_def numeral_2_eq_2)
  have "schedule_step sample_json (sort_key Key) ''wc'' [''a'', ''b''] 2 mapPhase ?s1
      (?s1\<lparr>tasks := (tasks ?s1)[0 := Called ''w''], chan := chan ?s1 - {#''w''#}\<rparr>)"
    by (rule receive) (use t1 in simp_all)
  then have r2: "sample_reach mapPhase ?s2" using phase_step [OF r1] t1 by simp
  obtain wk where wk: "RunWorker_accept (wks ?s2 ''w'') = Some wk"
    by (simp add: RunWorker_accept_def sample_state_defs)
  from DoTask_never_concurrent [OF r2 [unfolded sample_init_def], of 0 "''w''" wk] wk r2 show ?thesis
    by (intro exI [of _ ?s2] exI [of _ wk]) (simp add: sample_state_defs)
qed

subsection \<open>A worker that was started again\<close>

text \<open>
  The worker's process ends and is started again at the same address; it registers a second time. Its
  address is then on the channel twice, and the scheduler calls it for a second task while it executes the first.
\<close>

definition again_registered :: phase_state where
  "again_registered = sample_start\<lparr>mr := Register \<lparr>reg_Worker = ''w''\<rparr> (mr sample_start)\<rparr>"

definition again_executing :: phase_state where
  "again_executing = again_registered\<lparr>tasks := [Running ''w'', Waiting], chan := {#''w''#}, forwarded := 2,
     wks := (wks sample_start)(''w'' := (wks sample_start ''w'')\<lparr>nRPC := -2, nTasks := 1, concurrent := 1\<rparr>)\<rparr>"

abbreviation sample_step :: "phase_state \<Rightarrow> phase_state \<Rightarrow> bool" where
  "sample_step \<equiv> schedule_step sample_json (sort_key Key) ''wc'' [''a'', ''b''] 2 mapPhase"

lemma sample_tasks: "tasks sample_start = [Waiting, Waiting]"
  by (simp add: sample_state_defs ntasks_def numeral_2_eq_2)

lemma again_registered_steps: "sample_step\<^sup>*\<^sup>* sample_start again_registered"
proof -
  let ?s1 = "sample_start\<lparr>gone := {''w''}\<rparr>"
  have 1: "sample_step sample_start ?s1"
    using die [of _ _ _ _ _ _ sample_start "''w''"] by (simp add: sample_state_defs)
  have 2: "sample_step ?s1 sample_start"
    using restart [of "''w''" ?s1 _ _ _ _ _ _ "-1"] sample_tasks by (simp add: sample_state_defs fun_upd_idem)
  have 3: "sample_step sample_start again_registered"
    using register [of _ _ _ _ _ _ sample_start "''w''"]
    by (simp add: again_registered_def sample_state_defs)
  from 1 2 3 show ?thesis by (meson converse_rtranclp_into_rtranclp r_into_rtranclp)
qed

lemma again_executing_steps: "sample_step\<^sup>*\<^sup>* again_registered again_executing"
proof -
  let ?s1 = "again_registered\<lparr>chan := {#''w''#}, forwarded := 1\<rparr>"
  let ?s2 = "again_registered\<lparr>chan := {#''w'', ''w''#}, forwarded := 2\<rparr>"
  let ?s3 = "again_registered\<lparr>forwarded := 2, tasks := [Called ''w'', Waiting], chan := {#''w''#}\<rparr>"
  have 1: "sample_step again_registered ?s1"
    using forward [of again_registered "''w''" 1]
    by (simp add: again_registered_def sample_state_defs forwardRegistrations_def)
  have 2: "sample_step ?s1 ?s2"
    using forward [of ?s1 "''w''" 2]
    by (simp add: again_registered_def sample_state_defs forwardRegistrations_def)
  have 3: "sample_step ?s2 ?s3"
    using receive [of 0 ?s2 "''w''"] sample_tasks by (simp add: again_registered_def)
  have 4: "sample_step ?s3 again_executing"
    using execute [of 0 ?s3 "''w''" "(wks ?s3 ''w'')\<lparr>nRPC := -2\<rparr>"
        "(wks ?s3 ''w'')\<lparr>nRPC := -2, nTasks := 1, concurrent := 1\<rparr>"]
    by (simp add: again_executing_def again_registered_def sample_state_defs RunWorker_accept_def DoTask_begin_def)
  from 1 2 3 4 show ?thesis by (meson converse_rtranclp_into_rtranclp r_into_rtranclp)
qed

lemma registered_twice_fatal:
  "\<exists>s wk. sample_reach mapPhase s \<and> tasks s = [Running ''w'', Called ''w''] \<and> ''w'' \<notin> gone s \<and>
     RunWorker_accept (wks s ''w'') = Some wk \<and> DoTask_begin wk = None"
proof -
  let ?s = "again_executing\<lparr>tasks := [Running ''w'', Called ''w''], chan := {#}\<rparr>"
  have "sample_reach mapPhase again_executing"
    using Distributed_steps [OF rtranclp_trans [OF again_registered_steps again_executing_steps] sample_start_reach] .
  moreover have "sample_step again_executing ?s"
    using receive [of 1 again_executing "''w''"] by (simp add: again_executing_def)
  ultimately have "sample_reach mapPhase ?s" by (rule phase_step)
  then show ?thesis
    by (intro exI [of _ ?s] exI [of _ "(wks ?s ''w'')\<lparr>nRPC := -3\<rparr>"])
      (simp add: again_executing_def again_registered_def sample_state_defs RunWorker_accept_def DoTask_begin_def)
qed

theorem Distributed_refines_Sequential_witness:
  "\<exists>s mr' fs' fs'' stats. sample_reach reducePhase s \<and> all_done s \<and>
     Distributed_finish (\<lambda>_. None) sample_json ''wc'' 2 s = Some (mr', fs') \<and>
     Sequential sample_json (sort_key Key) ''wc'' [''a'', ''b''] 2 letters count_all sample_files = Some (fs'', stats) \<and>
     contents fs' (''mrtmp.'' @ ''wc'') = contents fs'' (''mrtmp.'' @ ''wc'')"
proof -
  note fin = Distributed_can_finish [OF sample_codec zero_less_numeral sample_ready sample_encodable]
  obtain s1 where s1: "sample_reach mapPhase s1" "all_done s1" "''w'' \<in> set (mr_workers (mr s1))" "alive ''w'' s1"
    using fin [OF sample_start_reach [unfolded sample_init_def] sample_start_alive] Distributed_steps [OF _ sample_start_reach]
    by blast
  let ?s2 = "start_phase [''a'', ''b''] 2 reducePhase s1"
  have r2: "sample_reach reducePhase ?s2" by (rule reduce_start [OF s1(1,2)])
  have "''w'' \<in> set (mr_workers (mr ?s2))" "alive ''w'' ?s2" using s1(3,4) by (simp_all add: start_phase_def alive_def)
  then obtain s3 where s3: "sample_reach reducePhase s3" "all_done s3"
    using fin [OF r2 [unfolded sample_init_def]] Distributed_steps [OF _ r2] by blast
  from Distributed_refines_Sequential [OF sample_job s3(1) [unfolded sample_init_def] s3(2), of "\<lambda>_. None"] s3
  show ?thesis by blast
qed

end
