(* ===== verification/Map_Reduce_Rpc.thy ===== *)
theory Map_Reduce_Rpc
  imports Map_Reduce_Distributed
begin

text \<open>
  The RPC servers of the MapReduce programs: the accept loops of \<^verbatim>\<open>startRPCServer\<close> (\<^verbatim>\<open>master_rpc.go\<close>) and of
  \<^verbatim>\<open>RunWorker\<close> (\<^verbatim>\<open>worker.go\<close>), the connections they serve, and how they are shut down.

  A listener is open or closed; \<^verbatim>\<open>Accept\<close> takes a connection while it is open, waits when there is none, and
  fails once it is closed. A connection carries one call, as those of \<^verbatim>\<open>call\<close> do, and is served by a
  goroutine of its own.
\<close>

subsection \<open>Calls\<close>

text \<open>
  \<^verbatim>\<open>call\<close>: \<open>dialled\<close> tells whether the server could be reached, \<open>answer\<close> is the reply of the handler or nothing
  when the connection broke or the handler returned an error.
\<close>

definition mr_call :: "bool \<Rightarrow> 'r option \<Rightarrow> bool \<times> 'r option" where
  "mr_call dialled answer = (if \<not> dialled then (False, None) else (answer \<noteq> None, answer))"

subsection \<open>The worker's server\<close>

datatype accept_loop = Testing | Accepting | Left

datatype worker_call = CallDoTask | CallShutdown

record worker_server =
  ws_wk :: Worker
  ws_loop :: accept_loop
  ws_open :: bool
  ws_serving :: "worker_call multiset"

definition worker_server_new :: "string \<Rightarrow> (string \<Rightarrow> string \<Rightarrow> KeyValue list) \<Rightarrow> (string \<Rightarrow> string list \<Rightarrow> string) \<Rightarrow> int \<Rightarrow>
    worker_server" where
  "worker_server_new me mapF reduceF n =
     \<lparr>ws_wk = RunWorker_new me mapF reduceF n, ws_loop = Testing, ws_open = True, ws_serving = {#}\<rparr>"

text \<open>The test at the head of the loop; leaving the loop closes the listener.\<close>

definition worker_test :: "worker_server \<Rightarrow> worker_server" where
  "worker_test s = (if nRPC (ws_wk s) = 0 then s\<lparr>ws_loop := Left, ws_open := False\<rparr> else s\<lparr>ws_loop := Accepting\<rparr>)"

definition worker_accept :: "worker_call \<Rightarrow> worker_server \<Rightarrow> worker_server" where
  "worker_accept c s =
     (if ws_open s
      then s\<lparr>ws_wk := (ws_wk s)\<lparr>nRPC := nRPC (ws_wk s) - 1\<rparr>, ws_loop := Testing, ws_serving := add_mset c (ws_serving s)\<rparr>
      else s\<lparr>ws_loop := Left\<rparr>)"

text \<open>
  What the goroutine of a connection does to the worker; of \<^verbatim>\<open>DoTask\<close>, its beginning and its end together
  (a second concurrent one would end the process).
\<close>

definition worker_serve :: "worker_call \<Rightarrow> Worker \<Rightarrow> Worker option" where
  "worker_serve c wk = (case c of
     CallShutdown \<Rightarrow> Some (fst (Worker_Shutdown wk))
   | CallDoTask \<Rightarrow> map_option DoTask_end (DoTask_begin wk))"

text \<open>The events a run of the worker's server consists of.\<close>

datatype worker_event = WTest | WAccept worker_call | WServe worker_call

inductive worker_step :: "worker_server \<Rightarrow> worker_event \<Rightarrow> worker_server \<Rightarrow> bool" where
  w_test: "ws_loop s = Testing \<Longrightarrow> worker_step s WTest (worker_test s)"
| w_accept: "ws_loop s = Accepting \<Longrightarrow> worker_step s (WAccept c) (worker_accept c s)"
| w_serve: "c \<in># ws_serving s \<Longrightarrow> worker_serve c (ws_wk s) = Some wk' \<Longrightarrow>
     worker_step s (WServe c) (s\<lparr>ws_wk := wk', ws_serving := ws_serving s - {#c#}\<rparr>)"

inductive worker_run :: "worker_server \<Rightarrow> worker_event list \<Rightarrow> worker_server \<Rightarrow> bool" where
  w_nil: "worker_run s [] s"
| w_snoc: "worker_run s es s' \<Longrightarrow> worker_step s' e s'' \<Longrightarrow> worker_run s (es @ [e]) s''"

inductive_cases worker_stepE: "worker_step s e s'"

subsection \<open>The master's server\<close>

datatype master_call = CallRegister RegisterArgs | CallMasterShutdown

text \<open>
  \<open>ms_closing\<close> says that a \<^verbatim>\<open>Shutdown\<close> handler has closed the channel and not yet the listener.
\<close>

record master_server =
  ms_mr :: Master
  ms_loop :: accept_loop
  ms_open :: bool
  ms_closing :: bool
  ms_serving :: "master_call multiset"

definition startRPCServer :: "Master \<Rightarrow> master_server" where
  "startRPCServer m = \<lparr>ms_mr = m, ms_loop = Testing, ms_open = True, ms_closing = False, ms_serving = {#}\<rparr>"

definition master_select :: "master_server \<Rightarrow> master_server" where
  "master_select s = (if mr_shutdown (ms_mr s) then s\<lparr>ms_loop := Left\<rparr> else s\<lparr>ms_loop := Accepting\<rparr>)"

definition master_accept :: "master_call \<Rightarrow> master_server \<Rightarrow> master_server" where
  "master_accept c s =
     (if ms_open s then s\<lparr>ms_loop := Testing, ms_serving := add_mset c (ms_serving s)\<rparr> else s\<lparr>ms_loop := Left\<rparr>)"

inductive master_step :: "master_server \<Rightarrow> master_server \<Rightarrow> bool" where
  m_select: "ms_loop s = Testing \<Longrightarrow> master_step s (master_select s)"
| m_accept: "ms_loop s = Accepting \<Longrightarrow> master_step s (master_accept c s)"
| m_register: "CallRegister args \<in># ms_serving s \<Longrightarrow>
     master_step s (s\<lparr>ms_mr := Register args (ms_mr s), ms_serving := ms_serving s - {#CallRegister args#}\<rparr>)"
| m_shutdown: "CallMasterShutdown \<in># ms_serving s \<Longrightarrow> Master_Shutdown (ms_mr s) = Some mr' \<Longrightarrow>
     master_step s (s\<lparr>ms_mr := mr', ms_closing := True, ms_serving := ms_serving s - {#CallMasterShutdown#}\<rparr>)"
| m_close: "ms_closing s \<Longrightarrow> master_step s (s\<lparr>ms_open := False, ms_closing := False\<rparr>)"

text \<open>
  \<^verbatim>\<open>stopRPCServer\<close>: one call of \<^verbatim>\<open>Master.Shutdown\<close>. The server can be dialled while its listener is open, and
  the handler's result does not depend on the reply's type; the outcome is only printed.
\<close>

definition stopRPCServer :: "master_server \<Rightarrow> bool \<times> unit option" where
  "stopRPCServer s = mr_call (ms_open s) (map_option (\<lambda>_. ()) (Master_Shutdown (ms_mr s)))"

subsection \<open>What shutting down does\<close>

text \<open>The number of connections a run accepts.\<close>

definition accepts :: "worker_event list \<Rightarrow> nat" where
  "accepts es = length (filter (\<lambda>e. case e of WAccept _ \<Rightarrow> True | _ \<Rightarrow> False) es)"

definition shutdowns :: "worker_event list \<Rightarrow> nat" where
  "shutdowns es = length (filter (\<lambda>e. e = WServe CallShutdown) es)"

lemma accepts_snoc [simp]:
  "accepts [] = 0" "accepts (es @ [WTest]) = accepts es" "accepts (es @ [WAccept c]) = accepts es + 1"
  "accepts (es @ [WServe c]) = accepts es"
  by (simp_all add: accepts_def)

lemma shutdowns_snoc [simp]:
  "shutdowns [] = 0" "shutdowns (es @ [WTest]) = shutdowns es" "shutdowns (es @ [WAccept c]) = shutdowns es"
  "shutdowns (es @ [WServe c]) = shutdowns es + (if c = CallShutdown then 1 else 0)"
  by (simp_all add: shutdowns_def)

lemma worker_serve_nRPC: "worker_serve c wk = Some wk' \<Longrightarrow> nRPC wk' = (if c = CallShutdown then 1 else nRPC wk)"
  by (cases c) (auto simp: worker_serve_def Worker_Shutdown_def DoTask_begin_def DoTask_end_def Let_def split: if_splits)

text \<open>The limit counts down with the connections accepted, and the loop is left exactly when it is used up.\<close>

lemma worker_run_limit:
  assumes "worker_run s es s'" and "shutdowns es = 0" and "ws_open s" and "ws_loop s \<noteq> Left"
  shows "nRPC (ws_wk s') = nRPC (ws_wk s) - int (accepts es) \<and> (ws_loop s' = Left \<longleftrightarrow> \<not> ws_open s') \<and>
    (ws_loop s' = Left \<longrightarrow> nRPC (ws_wk s') = 0)"
  using assms
proof (induction rule: worker_run.induct)
  case (w_snoc s es s' e s'')
  have z: "shutdowns es = 0" using w_snoc.prems(1) by (cases e) (auto split: if_splits)
  note ih = w_snoc.IH [OF z w_snoc.prems(2,3)]
  show ?case using w_snoc.hyps(2)
  proof cases
    case w_test
    then show ?thesis using ih by (auto simp: worker_test_def)
  next
    case (w_accept c)
    then show ?thesis using ih by (auto simp: worker_accept_def)
  next
    case (w_serve c wk')
    then have "c \<noteq> CallShutdown" using w_snoc.prems(1) by (auto split: if_splits)
    then have "nRPC wk' = nRPC (ws_wk s')" using worker_serve_nRPC [OF w_serve(4)] by simp
    then show ?thesis using ih w_serve(1,2) by auto
  qed
qed simp

lemma worker_run_open:
  assumes "worker_run s es s'" and "ws_open s" and "ws_loop s \<noteq> Left"
  shows "ws_loop s' = Left \<longleftrightarrow> \<not> ws_open s'"
  using assms
proof (induction rule: worker_run.induct)
  case (w_snoc s es s' e s'')
  note ih = w_snoc.IH [OF w_snoc.prems]
  show ?case using w_snoc.hyps(2)
    by (cases rule: worker_stepE) (use ih in \<open>auto simp: worker_test_def worker_accept_def split: if_splits\<close>)
qed simp

text \<open>
  A worker outlives its shutdown. \<^verbatim>\<open>Shutdown\<close> sets the limit to one while the loop is past its test, so after it
  the worker waits for one more connection: it leaves its loop only after accepting exactly one, and then
  does, at its next test.
\<close>

lemma worker_outlives_shutdown:
  assumes "worker_run (worker_server_new me mapF reduceF n) es s" and "ws_loop s \<noteq> Left"
    and "worker_step s (WServe CallShutdown) s1" and "worker_run s1 es' s'" and "shutdowns es' = 0"
  shows "(ws_loop s' = Left \<longrightarrow> accepts es' = 1) \<and>
    (ws_loop s' = Testing \<longrightarrow> (ws_loop (worker_test s') = Left \<longleftrightarrow> accepts es' = 1))"
proof -
  have "ws_loop s = Left \<longleftrightarrow> \<not> ws_open s"
    by (rule worker_run_open [OF assms(1)]) (simp_all add: worker_server_new_def)
  then have o: "ws_open s1" "ws_loop s1 \<noteq> Left" and n: "nRPC (ws_wk s1) = 1"
    using assms(2,3) by (auto elim!: worker_stepE simp: worker_serve_nRPC)
  from worker_run_limit [OF assms(4,5) o] n show ?thesis
    by (auto simp: worker_test_def)
qed

text \<open>
  The master's server stops. As long as no \<^verbatim>\<open>Shutdown\<close> has run, its listener is open and \<^verbatim>\<open>stopRPCServer\<close> gets
  through; once one has run to its end, the listener is closed, another \<^verbatim>\<open>stopRPCServer\<close> fails, and the
  loop is left or its next step leaves it.
\<close>

definition master_ok :: "master_server \<Rightarrow> bool" where
  "master_ok s \<longleftrightarrow> (ms_closing s \<longrightarrow> mr_shutdown (ms_mr s)) \<and>
     (ms_open s \<longleftrightarrow> \<not> mr_shutdown (ms_mr s) \<or> ms_closing s) \<and> (\<not> mr_shutdown (ms_mr s) \<longrightarrow> ms_loop s \<noteq> Left)"

lemma master_ok_step: "master_step s s' \<Longrightarrow> master_ok s \<Longrightarrow> master_ok s'"
  by (induction rule: master_step.induct)
    (auto simp: master_ok_def master_select_def master_accept_def Register_def Master_Shutdown_def split: if_splits)

lemma master_server_stops:
  assumes "master_step\<^sup>*\<^sup>* (startRPCServer m) s" and "\<not> mr_shutdown m"
  shows "(\<not> mr_shutdown (ms_mr s) \<longrightarrow> fst (stopRPCServer s) \<and> ms_loop s \<noteq> Left) \<and>
    (mr_shutdown (ms_mr s) \<and> \<not> ms_closing s \<longrightarrow> \<not> fst (stopRPCServer s) \<and>
       (ms_loop s = Testing \<longrightarrow> ms_loop (master_select s) = Left) \<and>
       (ms_loop s = Accepting \<longrightarrow> ms_loop (master_accept c s) = Left))"
proof -
  have "master_ok s"
    using assms(1)
  proof induction
    case base
    then show ?case using assms(2) by (simp add: master_ok_def startRPCServer_def)
  next
    case (step s s')
    then show ?case by (blast intro: master_ok_step)
  qed
  then show ?thesis
    by (auto simp: master_ok_def stopRPCServer_def mr_call_def Master_Shutdown_def master_select_def master_accept_def)
qed

end
