(* ===== verification/Drivers.thy ===== *)
theory Drivers
  imports Map_Reduce_Rpc Map_Reduce_Proofs
begin

text \<open>
  The command line programs of \<^verbatim>\<open>src/src/main\<close> whose packages are in the repository, word count and inverted
  index (\<^verbatim>\<open>wc.go\<close>, \<^verbatim>\<open>ii.go\<close>), and the programs that start or call services the repository does not have
  (\<^verbatim>\<open>diskvd.go\<close>, \<^verbatim>\<open>lockc.go\<close>, \<^verbatim>\<open>lockd.go\<close>, \<^verbatim>\<open>pbc.go\<close>, \<^verbatim>\<open>pbd.go\<close>, \<^verbatim>\<open>viewd.go\<close>), with the service as an argument.
  \<^verbatim>\<open>os.Args\<close> is the list of words of the command, the program's name first. The map and reduce functions,
  whose bodies the source leaves to be written, are arguments.
\<close>

subsection \<open>Word count and inverted index\<close>

datatype mr_action =
  PrintUsage
| RunSequential string "string list" nat
| RunDistributed string "string list" nat string
| RunAsWorker string string int

definition mr_main :: "string \<Rightarrow> string list \<Rightarrow> mr_action" where
  "mr_main job args =
     (if length args < 4 then PrintUsage
      else if args ! 1 = ''master''
      then if args ! 2 = ''sequential'' then RunSequential job (drop 3 args) 3
           else RunDistributed job (drop 3 args) 3 (args ! 2)
      else RunAsWorker (args ! 2) (args ! 3) 100)"

definition wc_main :: "string list \<Rightarrow> mr_action" where
  "wc_main = mr_main ''wcseq''"

definition ii_main :: "string list \<Rightarrow> mr_action" where
  "ii_main = mr_main ''iiseq''"

text \<open>A sequential invocation runs the master of \<open>Map_Reduce\<close> on the files named and three reduce tasks.\<close>

lemma wc_main_sequential:
  assumes "fs \<noteq> []"
  shows "wc_main (prog # ''master'' # ''sequential'' # fs) = RunSequential ''wcseq'' fs 3"
  using assms by (cases fs) (simp_all add: wc_main_def mr_main_def)

lemma wc_main_worker: "wc_main [prog, ''worker'', master, me] = RunAsWorker master me 100"
  by (simp add: wc_main_def mr_main_def)

subsection \<open>The options of diskvd\<close>

definition all_digits :: "string \<Rightarrow> bool" where
  "all_digits s \<longleftrightarrow> s \<noteq> [] \<and> list_all (\<lambda>c. c \<in> digits) s"

text \<open>
  \<^verbatim>\<open>strconv.ParseInt(s, 10, 64)\<close> without its error, as the program uses it: 0 for a string that is no number, the
  nearest bound for a number out of range. On the 64-bit platforms \<^verbatim>\<open>strconv.Atoi\<close> gives the same.
\<close>

definition ParseInt :: "string \<Rightarrow> int" where
  "ParseInt s =
     (let (neg, ds) = (case s of c # cs \<Rightarrow> if c = CHR ''-'' then (True, cs) else if c = CHR ''+'' then (False, cs) else (False, s)
                       | [] \<Rightarrow> (False, []))
      in if \<not> all_digits ds then 0
         else if neg then max (- int (atoi ds)) (- (2 ^ 63)) else min (int (atoi ds)) (2 ^ 63 - 1))"

text \<open>\<^verbatim>\<open>strconv.ParseBool\<close> without its error.\<close>

definition ParseBool :: "string \<Rightarrow> bool" where
  "ParseBool s \<longleftrightarrow> s \<in> {''1'', ''t'', ''T'', ''true'', ''TRUE'', ''True''}"

record diskvd_options =
  dv_gid :: int
  dv_masters :: "string list"
  dv_replicas :: "string list"
  dv_me :: int
  dv_unreliable :: bool
  dv_dir :: string
  dv_restart :: bool

definition diskvd_defaults :: diskvd_options where
  "diskvd_defaults = \<lparr>dv_gid = -1, dv_masters = [], dv_replicas = [], dv_me = -1, dv_unreliable = False, dv_dir = [], dv_restart = False\<rparr>"

text \<open>The loop over pairs of words; \<open>None\<close> is \<^verbatim>\<open>usage\<close>, which exits. A word left over at the end is ignored.\<close>

fun diskvd_parse :: "string list \<Rightarrow> diskvd_options \<Rightarrow> diskvd_options option" where
  "diskvd_parse (a0 # a1 # rest) o1 =
     (if a0 = ''-g'' then diskvd_parse rest (o1\<lparr>dv_gid := ParseInt a1\<rparr>)
      else if a0 = ''-m'' then diskvd_parse rest (o1\<lparr>dv_masters := dv_masters o1 @ [a1]\<rparr>)
      else if a0 = ''-s'' then diskvd_parse rest (o1\<lparr>dv_replicas := dv_replicas o1 @ [a1]\<rparr>)
      else if a0 = ''-i'' then diskvd_parse rest (o1\<lparr>dv_me := ParseInt a1\<rparr>)
      else if a0 = ''-u'' then diskvd_parse rest (o1\<lparr>dv_unreliable := ParseBool a1\<rparr>)
      else if a0 = ''-d'' then diskvd_parse rest (o1\<lparr>dv_dir := a1\<rparr>)
      else if a0 = ''-r'' then diskvd_parse rest (o1\<lparr>dv_restart := ParseBool a1\<rparr>)
      else None)"
| "diskvd_parse _ o1 = Some o1"

text \<open>\<^verbatim>\<open>main\<close> up to the start of the server, whose package is not in the repository.\<close>

definition diskvd_main :: "string list \<Rightarrow> diskvd_options option" where
  "diskvd_main args =
     (case diskvd_parse (drop 1 args) diskvd_defaults of
        None \<Rightarrow> None
      | Some o1 \<Rightarrow>
          if dv_gid o1 < 0 \<or> dv_me o1 < 0 \<or> length (dv_masters o1) < 1 \<or> dv_me o1 \<ge> int (length (dv_replicas o1)) \<or> dv_dir o1 = []
          then None else Some o1)"

lemma diskvd_main_valid:
  assumes "diskvd_main args = Some o1"
  shows "0 \<le> dv_gid o1 \<and> 0 \<le> dv_me o1 \<and> nat (dv_me o1) < length (dv_replicas o1) \<and> dv_masters o1 \<noteq> [] \<and> dv_dir o1 \<noteq> []"
  using assms by (auto simp: diskvd_main_def split: option.splits if_splits)

text \<open>What is no number counts as 0: a mistyped group or index is taken for group 0 and server 0.\<close>

lemma diskvd_mistyped:
  "diskvd_main [''diskvd'', ''-g'', ''x7'', ''-m'', ''m0'', ''-s'', ''s0'', ''-i'', ''O'', ''-d'', ''dir''] =
     Some \<lparr>dv_gid = 0, dv_masters = [''m0''], dv_replicas = [''s0''], dv_me = 0, dv_unreliable = False, dv_dir = ''dir'', dv_restart = False\<rparr>"
  by code_simp

text \<open>Numbers are read back as they are printed.\<close>

lemma ParseInt_Itoa:
  assumes "n < 2 ^ 63"
  shows "ParseInt (Itoa n) = int n"
proof -
  have d: "set (Itoa n) \<subseteq> digits" by (rule Itoa_digits)
  then have a: "all_digits (Itoa n)" by (simp add: all_digits_def list_all_iff subset_iff)
  obtain c cs where c: "Itoa n = c # cs" using Itoa_nonempty [of n] by (cases "Itoa n") auto
  then have "c \<in> digits" using d by simp
  then have "c \<noteq> CHR ''-''" "c \<noteq> CHR ''+''" by (auto simp: digits_def)
  moreover have "int n < 2 ^ 63" using assms by (simp add: nat_less_iff [symmetric])
  ultimately show ?thesis
    using a atoi_Itoa [of n] unfolding c by (simp add: ParseInt_def)
qed

subsection \<open>Programs over services of other packages\<close>

text \<open>
  How a program ends, with the lines it printed and what it made of the world outside: it exits with a
  status, loops for ever after starting a server, or kills itself after a number of seconds.
\<close>

datatype 'w ended =
  Exits nat "string list" 'w
| Serves 'w
| KillsItself nat 'w

text \<open>\<^verbatim>\<open>diskv.StartServer\<close> and \<^verbatim>\<open>Setunreliable\<close>: the server it returns is an object of the world.\<close>

record ('s, 'w) diskv =
  diskv_StartServer :: "int \<Rightarrow> string list \<Rightarrow> string list \<Rightarrow> int \<Rightarrow> string \<Rightarrow> bool \<Rightarrow> 'w \<Rightarrow> 's \<times> 'w"
  diskv_Setunreliable :: "'s \<Rightarrow> bool \<Rightarrow> 'w \<Rightarrow> 'w"

definition diskvd_usage :: "'w \<Rightarrow> 'w ended" where
  "diskvd_usage w = Exits 1 [''Usage: diskvd -g gid -m master... -s server... -i my-index -d dir''] w"

definition diskvd_run :: "('s, 'w) diskv \<Rightarrow> string list \<Rightarrow> 'w \<Rightarrow> 'w ended" where
  "diskvd_run pkg args w =
     (case diskvd_main args of
        None \<Rightarrow> diskvd_usage w
      | Some o1 \<Rightarrow>
          (case diskv_StartServer pkg (dv_gid o1) (dv_masters o1) (dv_replicas o1) (dv_me o1) (dv_dir o1) (dv_restart o1) w of
             (srv, w1) \<Rightarrow> KillsItself (10 * 60) (diskv_Setunreliable pkg srv (dv_unreliable o1) w1)))"

record ('ck, 'w) lockservice =
  lock_MakeClerk :: "string \<Rightarrow> string \<Rightarrow> 'ck"
  lock_Lock :: "'ck \<Rightarrow> string \<Rightarrow> 'w \<Rightarrow> bool \<times> 'w"
  lock_Unlock :: "'ck \<Rightarrow> string \<Rightarrow> 'w \<Rightarrow> bool \<times> 'w"
  lock_StartServer :: "string \<Rightarrow> string \<Rightarrow> bool \<Rightarrow> 'w \<Rightarrow> 'w"

definition lockc_usage :: "'w \<Rightarrow> 'w ended" where
  "lockc_usage w = Exits 1 [''Usage: lockc -l|-u primaryport backupport lockname''] w"

text \<open>\<^verbatim>\<open>fmt.Printf("reply: %v\n", ok)\<close>.\<close>

definition lockc_reply :: "bool \<times> 'w \<Rightarrow> 'w ended" where
  "lockc_reply r = Exits 0 [''reply: '' @ (if fst r then ''true'' else ''false'')] (snd r)"

definition lockc_main :: "('ck, 'w) lockservice \<Rightarrow> string list \<Rightarrow> 'w \<Rightarrow> 'w ended" where
  "lockc_main pkg args w =
     (if length args = 5 then
        let ck = lock_MakeClerk pkg (args ! 2) (args ! 3) in
        if args ! 1 = ''-l'' then lockc_reply (lock_Lock pkg ck (args ! 4) w)
        else if args ! 1 = ''-u'' then lockc_reply (lock_Unlock pkg ck (args ! 4) w)
        else lockc_usage w
      else lockc_usage w)"

definition lockd_main :: "('ck, 'w) lockservice \<Rightarrow> string list \<Rightarrow> 'w \<Rightarrow> 'w ended" where
  "lockd_main pkg args w =
     (if length args = 4 \<and> args ! 1 = ''-p'' then Serves (lock_StartServer pkg (args ! 2) (args ! 3) True w)
      else if length args = 4 \<and> args ! 1 = ''-b'' then Serves (lock_StartServer pkg (args ! 2) (args ! 3) False w)
      else Exits 1 [''Usage: lockd -p|-b primaryport backupport''] w)"

record ('ck, 'w) pbservice =
  pb_MakeClerk :: "string \<Rightarrow> string \<Rightarrow> 'ck"
  pb_Get :: "'ck \<Rightarrow> string \<Rightarrow> 'w \<Rightarrow> string \<times> 'w"
  pb_Put :: "'ck \<Rightarrow> string \<Rightarrow> string \<Rightarrow> 'w \<Rightarrow> 'w"
  pb_StartServer :: "string \<Rightarrow> string \<Rightarrow> 'w \<Rightarrow> 'w"

definition pbc_usage :: "'w \<Rightarrow> 'w ended" where
  "pbc_usage w = Exits 1 [''Usage: pbc viewport key'', ''       pbc viewport key value''] w"

definition pbc_main :: "('ck, 'w) pbservice \<Rightarrow> string list \<Rightarrow> 'w \<Rightarrow> 'w ended" where
  "pbc_main pkg args w =
     (if length args = 3 then
        (case pb_Get pkg (pb_MakeClerk pkg (args ! 1) []) (args ! 2) w of (v, w1) \<Rightarrow> Exits 0 [v] w1)
      else if length args = 4 then
        Exits 0 [] (pb_Put pkg (pb_MakeClerk pkg (args ! 1) []) (args ! 2) (args ! 3) w)
      else pbc_usage w)"

definition pbd_main :: "('ck, 'w) pbservice \<Rightarrow> string list \<Rightarrow> 'w \<Rightarrow> 'w ended" where
  "pbd_main pkg args w =
     (if length args \<noteq> 3 then Exits 1 [''Usage: pbd viewport myport''] w
      else Serves (pb_StartServer pkg (args ! 1) (args ! 2) w))"

definition viewd_main :: "(string \<Rightarrow> 'w \<Rightarrow> 'w) \<Rightarrow> string list \<Rightarrow> 'w \<Rightarrow> 'w ended" where
  "viewd_main startServer args w =
     (if length args \<noteq> 2 then Exits 1 [''Usage: viewd port''] w
      else Serves (startServer (args ! 1) w))"

text \<open>A program that refuses its arguments has not touched the world.\<close>

lemma refused_untouched:
  "lockc_main lpkg args w = Exits 1 ls w' \<Longrightarrow> w' = w"
  "lockd_main lpkg args w = Exits 1 ls w' \<Longrightarrow> w' = w"
  "pbc_main ppkg args w = Exits 1 ls w' \<Longrightarrow> w' = w"
  "pbd_main ppkg args w = Exits 1 ls w' \<Longrightarrow> w' = w"
  "viewd_main start args w = Exits 1 ls w' \<Longrightarrow> w' = w"
  "diskvd_run dpkg args w = Exits 1 ls w' \<Longrightarrow> w' = w"
  by (auto simp: lockc_main_def lockc_usage_def lockc_reply_def lockd_main_def pbc_main_def pbc_usage_def
      pbd_main_def viewd_main_def diskvd_run_def diskvd_usage_def Let_def split: if_splits option.splits prod.splits)

text \<open>
  \<^verbatim>\<open>pbc\<close> with a value and then without reads the value back, through any service in which a read
  returns what the last write of the key wrote.
\<close>

lemma pbc_put_get:
  assumes get_put: "\<And>ck ck' k v w. fst (pb_Get pkg ck k (pb_Put pkg ck' k v w)) = v"
    and "pbc_main pkg [prog, view, k, v] w = Exits c ls w1"
  shows "c = 0 \<and> ls = [] \<and> (\<exists>w2. pbc_main pkg [prog, view, k] w1 = Exits 0 [v] w2)"
  using assms(2) get_put [of "pb_MakeClerk pkg view []" k "pb_MakeClerk pkg view []" v w]
  by (auto simp: pbc_main_def numeral_3_eq_3 split: prod.splits)

text \<open>The two servers that the directions in \<^verbatim>\<open>lockd.go\<close> start differ in their role only.\<close>

lemma lockd_roles:
  "lockd_main pkg [prog, ''-p'', a, b] w = Serves (lock_StartServer pkg a b True w)"
  "lockd_main pkg [prog, ''-b'', a, b] w = Serves (lock_StartServer pkg a b False w)"
  by (simp_all add: lockd_main_def numeral_2_eq_2 numeral_3_eq_3)

text \<open>
  \<^verbatim>\<open>diskvd\<close> starts a server only with an index into its list of replicas, and lives for ten minutes.
\<close>

lemma diskvd_run_started:
  assumes "diskvd_run pkg args w = KillsItself secs w'"
  shows "secs = 600 \<and> (\<exists>o1 srv w1. diskvd_main args = Some o1 \<and> nat (dv_me o1) < length (dv_replicas o1) \<and>
    diskv_StartServer pkg (dv_gid o1) (dv_masters o1) (dv_replicas o1) (dv_me o1) (dv_dir o1) (dv_restart o1) w = (srv, w1) \<and>
    w' = diskv_Setunreliable pkg srv (dv_unreliable o1) w1)"
  using assms diskvd_main_valid [of args]
  by (auto simp: diskvd_run_def diskvd_usage_def split: option.splits prod.splits)

end
