(* ===== verification/Raft_Tester.thy ===== *)
theory Raft_Tester
  imports Raft_Node Lab_Rpc "HOL-Library.AList"
begin

text \<open>
  The harness of the Raft tests (\<^verbatim>\<open>src/src/raft/config.go\<close>): how it attaches servers to the simulated
  network and detaches them, what it keeps of their persisted state when it crashes and restarts them, and
  what it checks. The checks that read the servers' states take what they read as an argument. A call of
  \<^verbatim>\<open>t.Fatalf\<close> or \<^verbatim>\<open>log.Fatalf\<close> is a value of \<open>failure\<close>; \<open>Panic\<close> is an index out of range or a nil dereference.
\<close>

datatype failure =
  TwoLeaders int nat
| NoLeader
| TermsDisagree
| UnexpectedLeader nat
| ApplyError string
| ValuesDiffer int int int
| OnlyDecided nat int nat
| CommitConflict int nat int nat int
| OutOfOrder nat int
| NotAnInt nat
| EndTaken
| NoAgreement int
| Panic

subsection \<open>State\<close>

text \<open>
  Persisters are addresses into \<open>disk\<close>, because a server that was replaced goes on writing to the one it
  was started with.
\<close>

record 'b config =
  cfg_net :: "(string, nat) Network"
  cfg_n :: nat
  cfg_done :: bool
  rafts :: "(int, 'b) Raft option list"
  applyErr :: "string list"
  connected :: "bool list"
  saved :: "nat option list"
  endnames :: "string list option list"
  logs :: "(int \<rightharpoonup> int) list"
  disk :: "nat \<Rightarrow> (int, 'b) Persister"
  fresh :: nat

text \<open>A new persister with the given contents.\<close>

definition alloc :: "(int, 'b) Persister \<Rightarrow> 'b config \<Rightarrow> nat \<times> 'b config" where
  "alloc ps cfg = (fresh cfg, cfg\<lparr>disk := (disk cfg)(fresh cfg := ps), fresh := fresh cfg + 1\<rparr>)"

subsection \<open>Connections\<close>

definition endname :: "'b config \<Rightarrow> nat \<Rightarrow> nat \<Rightarrow> failure + string" where
  "endname cfg i j =
     (case endnames cfg ! i of
        Some es \<Rightarrow> if j < length es then Inr (es ! j) else Inl Panic
      | None \<Rightarrow> Inl Panic)"

text \<open>The two loops of \<^verbatim>\<open>connect\<close>: \<open>pick\<close> gives the indices of an end, outgoing or incoming.\<close>

fun connect_ends :: "(nat \<Rightarrow> nat \<times> nat) \<Rightarrow> nat list \<Rightarrow> 'b config \<Rightarrow> failure + 'b config" where
  "connect_ends pick [] cfg = Inr cfg"
| "connect_ends pick (j # js) cfg =
     (if connected cfg ! j
      then case endname cfg (fst (pick j)) (snd (pick j)) of
          Inl f \<Rightarrow> Inl f
        | Inr e \<Rightarrow> connect_ends pick js (cfg\<lparr>cfg_net := Enable e True (cfg_net cfg)\<rparr>)
      else connect_ends pick js cfg)"

definition connect :: "nat \<Rightarrow> 'b config \<Rightarrow> failure + 'b config" where
  "connect i cfg =
     (let cfg1 = cfg\<lparr>connected := (connected cfg)[i := True]\<rparr> in
      case connect_ends (\<lambda>j. (i, j)) [0..<cfg_n cfg1] cfg1 of
        Inl f \<Rightarrow> Inl f
      | Inr cfg2 \<Rightarrow> connect_ends (\<lambda>j. (j, i)) [0..<cfg_n cfg2] cfg2)"

text \<open>The loops of \<^verbatim>\<open>disconnect\<close> skip a server that has no ends yet.\<close>

fun disconnect_ends :: "(nat \<Rightarrow> nat \<times> nat) \<Rightarrow> nat list \<Rightarrow> 'b config \<Rightarrow> failure + 'b config" where
  "disconnect_ends pick [] cfg = Inr cfg"
| "disconnect_ends pick (j # js) cfg =
     (if endnames cfg ! fst (pick j) \<noteq> None
      then case endname cfg (fst (pick j)) (snd (pick j)) of
          Inl f \<Rightarrow> Inl f
        | Inr e \<Rightarrow> disconnect_ends pick js (cfg\<lparr>cfg_net := Enable e False (cfg_net cfg)\<rparr>)
      else disconnect_ends pick js cfg)"

definition disconnect :: "nat \<Rightarrow> 'b config \<Rightarrow> failure + 'b config" where
  "disconnect i cfg =
     (let cfg1 = cfg\<lparr>connected := (connected cfg)[i := False]\<rparr> in
      case disconnect_ends (\<lambda>j. (i, j)) [0..<cfg_n cfg1] cfg1 of
        Inl f \<Rightarrow> Inl f
      | Inr cfg2 \<Rightarrow> disconnect_ends (\<lambda>j. (j, i)) [0..<cfg_n cfg2] cfg2)"

definition setunreliable :: "bool \<Rightarrow> 'b config \<Rightarrow> 'b config" where
  "setunreliable unrel cfg = cfg\<lparr>cfg_net := Reliable (\<not> unrel) (cfg_net cfg)\<rparr>"

definition setlongreordering :: "bool \<Rightarrow> 'b config \<Rightarrow> 'b config" where
  "setlongreordering longrel cfg = cfg\<lparr>cfg_net := LongReordering longrel (cfg_net cfg)\<rparr>"

definition rpcCount :: "(nat \<Rightarrow> ('a, 'r, 'w) Server) \<Rightarrow> nat \<Rightarrow> 'b config \<Rightarrow> int option" where
  "rpcCount srvs server cfg = Network_GetCount srvs server (cfg_net cfg)"

subsection \<open>Crashing and starting servers\<close>

text \<open>\<open>nil\<close> is the snapshot of an empty persister.\<close>

definition crash1 :: "'b \<Rightarrow> nat \<Rightarrow> 'b config \<Rightarrow> failure + 'b config" where
  "crash1 nil i cfg =
     (case disconnect i cfg of
        Inl f \<Rightarrow> Inl f
      | Inr cfg1 \<Rightarrow>
          let cfg2 = cfg1\<lparr>cfg_net := DeleteServer i (cfg_net cfg1)\<rparr>;
              cfg3 = (case saved cfg2 ! i of
                  None \<Rightarrow> cfg2
                | Some a \<Rightarrow> (case alloc (Persister_Copy (disk cfg2 a)) cfg2 of
                    (a', c) \<Rightarrow> c\<lparr>saved := (saved c)[i := Some a']\<rparr>));
              cfg4 = cfg3\<lparr>rafts := (rafts cfg3)[i := None]\<rparr>
          in Inr (case saved cfg4 ! i of
               None \<Rightarrow> cfg4
             | Some a \<Rightarrow>
                 let raftlog = ReadRaftState (disk cfg4 a) in
                 (case alloc (SaveRaftState raftlog (MakePersister nil)) cfg4 of
                    (a', c) \<Rightarrow> c\<lparr>saved := (saved c)[i := Some a']\<rparr>)))"

fun make_ends :: "string list \<Rightarrow> nat \<Rightarrow> (string, nat) Network \<Rightarrow> (string, nat) Network option" where
  "make_ends [] j rn = Some rn"
| "make_ends (e # es) j rn =
     do { rn' \<leftarrow> MakeEnd e rn; make_ends es (Suc j) (Connect e j rn') }"

text \<open>
  \<^verbatim>\<open>start1\<close>; \<open>names\<close> are the \<^verbatim>\<open>cfg.n\<close> random strings it draws and \<open>srv\<close> the address of the new
  \<^verbatim>\<open>labrpc.Server\<close>. A name that is taken is fatal. The result carries the first message of the new Raft.
\<close>

definition start1 :: "'b \<Rightarrow> string list \<Rightarrow> nat \<Rightarrow> nat \<Rightarrow> 'b config \<Rightarrow> failure + 'b config \<times> (int, 'b) ApplyMsg" where
  "start1 nil names srv i cfg =
     (case crash1 nil i cfg of
        Inl f \<Rightarrow> Inl f
      | Inr cfg1 \<Rightarrow>
          let cfg2 = cfg1\<lparr>endnames := (endnames cfg1)[i := Some names]\<rparr> in
          (case make_ends names 0 (cfg_net cfg2) of
             None \<Rightarrow> Inl EndTaken
           | Some rn \<Rightarrow>
               let cfg3 = cfg2\<lparr>cfg_net := rn\<rparr>;
                   ps = (case saved cfg3 ! i of Some a \<Rightarrow> Persister_Copy (disk cfg3 a) | None \<Rightarrow> MakePersister nil)
               in (case alloc ps cfg3 of (a', c) \<Rightarrow>
                   let cfg4 = c\<lparr>saved := (saved c)[i := Some a']\<rparr> in
                   (case Make (cfg_n cfg4) (int i) (disk cfg4 a') of (rf, msg) \<Rightarrow>
                      Inr (cfg4\<lparr>rafts := (rafts cfg4)[i := Some rf],
                                cfg_net := AddServer i srv (cfg_net cfg4)\<rparr>, msg)))))"

text \<open>
  \<^verbatim>\<open>make_config\<close>: \<open>names ! i\<close> are the strings drawn for server \<open>i\<close> and \<open>srvs ! i\<close> the address of its
  \<^verbatim>\<open>labrpc.Server\<close>.
\<close>

fun start_all :: "'b \<Rightarrow> (string list \<times> nat) list \<Rightarrow> nat \<Rightarrow> 'b config \<Rightarrow> failure + 'b config" where
  "start_all nil [] i cfg = Inr cfg"
| "start_all nil ((names, srv) # rest) i cfg =
     (case start1 nil names srv i (cfg\<lparr>logs := (logs cfg)[i := Map.empty]\<rparr>) of
        Inl f \<Rightarrow> Inl f
      | Inr (cfg', _) \<Rightarrow> start_all nil rest (Suc i) cfg')"

fun connect_all :: "nat list \<Rightarrow> 'b config \<Rightarrow> failure + 'b config" where
  "connect_all [] cfg = Inr cfg"
| "connect_all (i # is) cfg = (case connect i cfg of Inl f \<Rightarrow> Inl f | Inr cfg' \<Rightarrow> connect_all is cfg')"

definition empty_config :: "nat \<Rightarrow> (nat \<Rightarrow> (int, 'b) Persister) \<Rightarrow> 'b config" where
  "empty_config n d =
     \<lparr>cfg_net = MakeNetwork, cfg_n = n, cfg_done = False, rafts = replicate n None, applyErr = replicate n [],
      connected = replicate n False, saved = replicate n None, endnames = replicate n None,
      logs = replicate n Map.empty, disk = d, fresh = 0\<rparr>"

definition make_config :: "'b \<Rightarrow> (nat \<Rightarrow> (int, 'b) Persister) \<Rightarrow> (string list \<times> nat) list \<Rightarrow> nat \<Rightarrow> bool \<Rightarrow>
    failure + 'b config" where
  "make_config nil d drawn n unreliable =
     (let cfg = setunreliable unreliable (empty_config n d);
          cfg1 = cfg\<lparr>cfg_net := LongDelays True (cfg_net cfg)\<rparr>
      in case start_all nil (take n drawn) 0 cfg1 of
           Inl f \<Rightarrow> Inl f
         | Inr cfg2 \<Rightarrow> connect_all [0..<n] cfg2)"

text \<open>What a server that was replaced does to its persister.\<close>

definition persists_to :: "nat \<Rightarrow> (int, 'b) Persister \<Rightarrow> 'b config \<Rightarrow> 'b config" where
  "persists_to a ps cfg = cfg\<lparr>disk := (disk cfg)(a := ps)\<rparr>"

definition cleanup :: "'b config \<Rightarrow> 'b config" where
  "cleanup cfg = cfg\<lparr>rafts := map (map_option Kill) (rafts cfg), cfg_done := True\<rparr>"

subsection \<open>The reader of the apply channel\<close>

text \<open>The loop over \<^verbatim>\<open>cfg.logs\<close>; the last conflict found is the one reported.\<close>

fun conflicts :: "nat \<Rightarrow> int \<Rightarrow> int \<Rightarrow> nat \<Rightarrow> (int \<rightharpoonup> int) list \<Rightarrow> failure option \<Rightarrow> failure option" where
  "conflicts i idx v j [] err = err"
| "conflicts i idx v j (l # ls) err =
     conflicts i idx v (Suc j) ls
       (case l idx of
          Some old \<Rightarrow> if old \<noteq> v then Some (CommitConflict idx i v j old) else err
        | None \<Rightarrow> err)"

text \<open>One message at server \<open>i\<close>; \<open>to_int\<close> is the type assertion \<^verbatim>\<open>m.Command.(int)\<close>.\<close>

definition apply_reader :: "('c \<Rightarrow> int option) \<Rightarrow> nat \<Rightarrow> ('c, 'b) ApplyMsg \<Rightarrow> (int \<rightharpoonup> int) list \<Rightarrow>
    failure + (int \<rightharpoonup> int) list" where
  "apply_reader to_int i m ls =
     (if UseSnapshot m then Inr ls
      else case Option.bind (msg_Command m) to_int of
          Some v \<Rightarrow>
            let err = conflicts i (msg_Index m) v 0 ls None;
                prevok = ((ls ! i) (msg_Index m - 1) \<noteq> None);
                ls' = ls[i := (ls ! i)(msg_Index m \<mapsto> v)]
            in if msg_Index m > 1 \<and> \<not> prevok then Inl (OutOfOrder i (msg_Index m))
               else (case err of Some f \<Rightarrow> Inl f | None \<Rightarrow> Inr ls')
        | None \<Rightarrow> Inl (NotAnInt i))"

subsection \<open>Checks\<close>

text \<open>
  What a check finds when it comes to a server: it is not connected and passed over, it is connected and its
  \<^verbatim>\<open>cfg.rafts[i]\<close> is nil, as \<^verbatim>\<open>crash1\<close> leaves it and a later \<^verbatim>\<open>connect\<close> does not mind, so that \<^verbatim>\<open>GetState\<close>
  dereferences nil, or \<^verbatim>\<open>GetState\<close> returns its term and whether it leads.
\<close>

datatype observation = Detached | Crashed | Seen int bool

fun scan_leaders :: "nat \<Rightarrow> observation list \<Rightarrow> (int \<times> nat list) list \<Rightarrow> failure + (int \<times> nat list) list" where
  "scan_leaders i [] m = Inr m"
| "scan_leaders i (Detached # obs) m = scan_leaders (Suc i) obs m"
| "scan_leaders i (Crashed # obs) m = Inl Panic"
| "scan_leaders i (Seen t ldr # obs) m =
     scan_leaders (Suc i) obs
       (if ldr then AList.update t ((case map_of m t of None \<Rightarrow> [] | Some l \<Rightarrow> l) @ [i]) m else m)"

fun last_term :: "(int \<times> nat list) list \<Rightarrow> int \<Rightarrow> failure + int" where
  "last_term [] lastTermWithLeader = Inr lastTermWithLeader"
| "last_term ((t, ls) # m) lastTermWithLeader =
     (if length ls > 1 then Inl (TwoLeaders t (length ls))
      else last_term m (if t > lastTermWithLeader then t else lastTermWithLeader))"

text \<open>The loop of \<^verbatim>\<open>checkOneLeader\<close> over what its passes find; \<open>passes k\<close> is what pass \<open>k\<close> finds, if it is made.\<close>

fun check_leader :: "observation list list \<Rightarrow> failure + nat" where
  "check_leader [] = Inl NoLeader"
| "check_leader (obs # iters) =
     (case scan_leaders 0 obs [] of
        Inl f \<Rightarrow> Inl f
      | Inr leaders \<Rightarrow>
          (case last_term leaders (-1) of
             Inl f \<Rightarrow> Inl f
           | Inr t \<Rightarrow>
               if length leaders \<noteq> 0
               then (case map_of leaders t of Some (l # _) \<Rightarrow> Inr l | _ \<Rightarrow> Inl Panic)
               else check_leader iters))"

definition checkOneLeader :: "(nat \<Rightarrow> observation list) \<Rightarrow> failure + nat" where
  "checkOneLeader passes = check_leader (map passes [0..<10])"

fun checkTerms :: "observation list \<Rightarrow> int \<Rightarrow> failure + int" where
  "checkTerms [] term = Inr term"
| "checkTerms (Detached # obs) term = checkTerms obs term"
| "checkTerms (Crashed # obs) term = Inl Panic"
| "checkTerms (Seen xterm _ # obs) term =
     (if term = -1 then checkTerms obs xterm
      else if term \<noteq> xterm then Inl TermsDisagree
      else checkTerms obs term)"

fun checkNoLeader :: "nat \<Rightarrow> observation list \<Rightarrow> failure + unit" where
  "checkNoLeader i [] = Inr ()"
| "checkNoLeader i (Detached # obs) = checkNoLeader (Suc i) obs"
| "checkNoLeader i (Crashed # obs) = Inl Panic"
| "checkNoLeader i (Seen _ is_leader # obs) =
     (if is_leader then Inl (UnexpectedLeader i) else checkNoLeader (Suc i) obs)"

fun count_committed :: "int \<Rightarrow> (string \<times> (int \<rightharpoonup> int)) list \<Rightarrow> nat \<Rightarrow> int \<Rightarrow> failure + nat \<times> int" where
  "count_committed index [] n cmd = Inr (n, cmd)"
| "count_committed index ((err, l) # ls) n cmd =
     (if err \<noteq> [] then Inl (ApplyError err)
      else case l index of
          Some cmd1 \<Rightarrow>
            if n > 0 \<and> cmd \<noteq> cmd1 then Inl (ValuesDiffer index cmd cmd1)
            else count_committed index ls (n + 1) cmd1
        | None \<Rightarrow> count_committed index ls n cmd)"

definition nCommitted :: "int \<Rightarrow> 'b config \<Rightarrow> failure + nat \<times> int" where
  "nCommitted index cfg = count_committed index (zip (applyErr cfg) (logs cfg)) 0 (-1)"

subsection \<open>Waiting for agreement\<close>

text \<open>
  \<^verbatim>\<open>wait\<close> polls. One turn of its loop is what \<^verbatim>\<open>nCommitted\<close> reads and then, if a start term is given, the
  terms of all servers, where \<open>None\<close> is a server that was crashed (calling \<^verbatim>\<open>GetState\<close> of it panics).
\<close>

type_synonym committed_view = "(string \<times> (int \<rightharpoonup> int)) list"

fun moved_on :: "int \<Rightarrow> int option list \<Rightarrow> failure + bool" where
  "moved_on startTerm [] = Inr False"
| "moved_on startTerm (None # ts) = Inl Panic"
| "moved_on startTerm (Some t # ts) = (if t > startTerm then Inr True else moved_on startTerm ts)"

text \<open>The loop: \<open>True\<close> when someone has moved on. It makes at most thirty turns.\<close>

fun wait_loop :: "int \<Rightarrow> nat \<Rightarrow> int \<Rightarrow> (committed_view \<times> int option list) list \<Rightarrow> failure + bool" where
  "wait_loop index n startTerm [] = Inr False"
| "wait_loop index n startTerm ((view, ts) # turns) =
     (case count_committed index view 0 (-1) of
        Inl f \<Rightarrow> Inl f
      | Inr (nd, _) \<Rightarrow>
          if nd \<ge> n then Inr False
          else if startTerm > -1
          then (case moved_on startTerm ts of
                  Inl f \<Rightarrow> Inl f
                | Inr True \<Rightarrow> Inr True
                | Inr False \<Rightarrow> wait_loop index n startTerm turns)
          else wait_loop index n startTerm turns)"

definition wait :: "int \<Rightarrow> nat \<Rightarrow> int \<Rightarrow> (nat \<Rightarrow> committed_view \<times> int option list) \<Rightarrow> committed_view \<Rightarrow>
    failure + int" where
  "wait index n startTerm turns view =
     (case wait_loop index n startTerm (map turns [0..<30]) of
        Inl f \<Rightarrow> Inl f
      | Inr True \<Rightarrow> Inr (-1)
      | Inr False \<Rightarrow> (case count_committed index view 0 (-1) of
            Inl f \<Rightarrow> Inl f
          | Inr (nd, cmd) \<Rightarrow> if nd < n then Inl (OnlyDecided nd index n) else Inr cmd))"

text \<open>
  \<^verbatim>\<open>one\<close>: a round tries the servers in turn, from the one after the last tried, until one accepts the
  command. \<open>start s\<close> is what \<^verbatim>\<open>Start\<close> of server \<open>s\<close> returns in this round, its index and whether it
  leads, and \<open>None\<close> when the server is not connected or crashed.
\<close>

fun try_start :: "nat \<Rightarrow> (nat \<Rightarrow> (int \<times> bool) option) \<Rightarrow> nat \<Rightarrow> nat \<Rightarrow> int \<times> nat" where
  "try_start n start 0 starts = (-1, starts)"
| "try_start n start (Suc k) starts =
     (let starts' = (starts + 1) mod n in
      case start starts' of
        Some (index1, True) \<Rightarrow> (index1, starts')
      | _ \<Rightarrow> try_start n start k starts')"

text \<open>The polls within two seconds: whether one of them finds the command committed widely enough.\<close>

fun poll_committed :: "int \<Rightarrow> int \<Rightarrow> nat \<Rightarrow> committed_view list \<Rightarrow> failure + bool" where
  "poll_committed cmd index expectedServers [] = Inr False"
| "poll_committed cmd index expectedServers (view # views) =
     (case count_committed index view 0 (-1) of
        Inl f \<Rightarrow> Inl f
      | Inr (nd, cmd1) \<Rightarrow>
          if nd > 0 \<and> nd \<ge> expectedServers \<and> cmd1 = cmd then Inr True
          else poll_committed cmd index expectedServers views)"

text \<open>The rounds within ten seconds; running out of them is \<open>NoAgreement\<close>.\<close>

fun one_rounds :: "nat \<Rightarrow> int \<Rightarrow> nat \<Rightarrow> nat \<Rightarrow> ((nat \<Rightarrow> (int \<times> bool) option) \<times> committed_view list) list \<Rightarrow>
    failure + int" where
  "one_rounds n cmd expectedServers starts [] = Inl (NoAgreement cmd)"
| "one_rounds n cmd expectedServers starts ((start, views) # rounds) =
     (case try_start n start n starts of (index, starts') \<Rightarrow>
        if index \<noteq> -1
        then (case poll_committed cmd index expectedServers views of
                Inl f \<Rightarrow> Inl f
              | Inr True \<Rightarrow> Inr index
              | Inr False \<Rightarrow> one_rounds n cmd expectedServers starts' rounds)
        else one_rounds n cmd expectedServers starts' rounds)"

definition one_cmd :: "nat \<Rightarrow> int \<Rightarrow> nat \<Rightarrow> ((nat \<Rightarrow> (int \<times> bool) option) \<times> committed_view list) list \<Rightarrow> failure + int" where
  "one_cmd n cmd expectedServers rounds = one_rounds n cmd expectedServers 0 rounds"

end
