(* ===== verification/Raft_Tester_Proofs.thy ===== *)
theory Raft_Tester_Proofs
  imports Raft_Tester Raft_Panic Lab_Rpc_Proofs
begin

text \<open>
  The harness against the components it drives: its leader check on a running cluster never reports two
  leaders of one term, and what the agreement check establishes when it succeeds.
\<close>

subsection \<open>The leader check\<close>

text \<open>The servers a pass found to lead term \<open>t\<close>, in order; \<open>i\<close> is the number of the first one.\<close>

fun leader_ids :: "nat \<Rightarrow> observation list \<Rightarrow> int \<Rightarrow> nat list" where
  "leader_ids i [] t = []"
| "leader_ids i (x # obs) t = (if x = Seen t True then [i] else []) @ leader_ids (Suc i) obs t"

lemma in_leader_ids:
  "k \<in> set (leader_ids i obs t) \<longleftrightarrow> (\<exists>d < length obs. k = i + d \<and> obs ! d = Seen t True)"
proof (induction obs arbitrary: i)
  case (Cons x obs)
  show ?case unfolding leader_ids.simps set_append Un_iff Cons.IH
    by (auto simp: less_Suc_eq_0_disj)
qed simp

lemma leader_ids_increasing: "sorted_wrt (<) (leader_ids i obs t)"
  by (induction obs arbitrary: i) (auto simp: in_leader_ids)

text \<open>A pass fails exactly when it comes to a connected server that was crashed.\<close>

lemma scan_leaders_crashed: "scan_leaders i obs m = Inl f \<longleftrightarrow> f = Panic \<and> Crashed \<in> set obs"
  by (induction i obs m rule: scan_leaders.induct) auto

lemma scan_leaders_map:
  assumes "scan_leaders i obs m = Inr m'"
  shows "map_of m' t =
     (if leader_ids i obs t = [] then map_of m t
      else Some ((case map_of m t of None \<Rightarrow> [] | Some l \<Rightarrow> l) @ leader_ids i obs t))"
  using assms
proof (induction i obs m rule: scan_leaders.induct)
  case (4 i u ldr obs m)
  have "scan_leaders (Suc i) obs
      (if ldr then AList.update u ((case map_of m u of None \<Rightarrow> [] | Some l \<Rightarrow> l) @ [i]) m else m) = Inr m'"
    using "4.prems" by simp
  from "4.IH" [OF this] show ?case
    by (cases ldr; cases "u = t"; cases "map_of m t") (auto simp: update_conv')
qed simp_all

lemma scan_leaders_distinct: "scan_leaders i obs m = Inr m' \<Longrightarrow> distinct (map fst m) \<Longrightarrow> distinct (map fst m')"
  by (induction i obs m rule: scan_leaders.induct) (simp_all add: distinct_update)

lemma last_term_ok:
  assumes "\<forall>p \<in> set m. length (snd p) \<le> 1"
  shows "\<exists>t. last_term m a = Inr t \<and> (\<forall>p \<in> set m. fst p \<le> t) \<and> a \<le> t \<and> (t = a \<or> t \<in> fst ` set m)"
  using assms
proof (induction m a rule: last_term.induct)
  case (2 t ls m a)
  define b where "b = (if t > a then t else a)"
  have "\<forall>p \<in> set m. length (snd p) \<le> 1" "\<not> length ls > 1" using "2.prems" by auto
  from "2.IH" [OF this(2,1)] obtain u where
    "last_term m b = Inr u \<and> (\<forall>p \<in> set m. fst p \<le> u) \<and> b \<le> u \<and> (u = b \<or> u \<in> fst ` set m)"
    unfolding b_def ..
  then show ?case
    using \<open>\<not> length ls > 1\<close> by (intro exI [of _ u]) (auto simp: b_def split: if_splits)
qed simp

definition sees :: "observation list \<Rightarrow> nat \<Rightarrow> int \<Rightarrow> bool" where
  "sees obs k t \<longleftrightarrow> k < length obs \<and> obs ! k = Seen t True"

text \<open>A pass that comes to its end and finds no leader.\<close>

definition quiet :: "observation list \<Rightarrow> bool" where
  "quiet obs \<longleftrightarrow> Crashed \<notin> set obs \<and> (\<forall>k t. \<not> sees obs k t)"

lemma scan_leaders_sees:
  "scan_leaders 0 obs [] = Inr m \<Longrightarrow> map_of m t = Some ls \<longleftrightarrow> ls \<noteq> [] \<and> ls = leader_ids 0 obs t"
  "k \<in> set (leader_ids 0 obs t) \<longleftrightarrow> sees obs k t"
  by (auto simp: scan_leaders_map in_leader_ids sees_def)

lemma distinct_singleton:
  assumes "distinct xs" and "set xs = {k}"
  shows "xs = [k]"
proof -
  have "length xs = 1" using distinct_card [OF assms(1)] assms(2) by simp
  then obtain y where "xs = [y]" by (auto simp: length_Suc_conv)
  then show ?thesis using assms(2) by simp
qed

lemma check_leader_pass:
  assumes uniq: "\<And>j k t. sees obs j t \<Longrightarrow> sees obs k t \<Longrightarrow> j = k" and pos: "\<And>k t. sees obs k t \<Longrightarrow> 0 \<le> t"
    and up: "Crashed \<notin> set obs"
  shows "(\<forall>k t. \<not> sees obs k t) \<and> check_leader (obs # iters) = check_leader iters \<or>
    (\<exists>l t. sees obs l t \<and> (\<forall>k u. sees obs k u \<longrightarrow> u \<le> t) \<and> check_leader (obs # iters) = Inr l)"
proof -
  obtain m where m: "scan_leaders 0 obs [] = Inr m"
    using scan_leaders_crashed [of 0 obs "[]"] up by (cases "scan_leaders 0 obs []") auto
  have dist: "distinct (map fst m)" by (rule scan_leaders_distinct [OF m]) simp
  have entry: "(t, ls) \<in> set m \<longleftrightarrow> ls \<noteq> [] \<and> ls = leader_ids 0 obs t" for t ls
    unfolding map_of_eq_Some_iff [OF dist, symmetric] by (rule scan_leaders_sees(1) [OF m])
  have single: "leader_ids 0 obs t = [k]" if "sees obs k t" for k t
  proof -
    have "distinct (leader_ids 0 obs t)"
      using leader_ids_increasing [of 0 obs t] by (simp add: strict_sorted_iff)
    moreover have "j \<in> set (leader_ids 0 obs t) \<longleftrightarrow> j \<in> {k}" for j
      unfolding scan_leaders_sees(2) by (metis uniq that singletonD singletonI)
    then have "set (leader_ids 0 obs t) = {k}" by (rule set_eqI)
    ultimately show ?thesis by (rule distinct_singleton)
  qed
  have named: "\<exists>k. sees obs k t" if "(t, ls) \<in> set m" for t ls
  proof -
    have "ls \<noteq> []" "ls = leader_ids 0 obs t" using that entry by auto
    then have "hd ls \<in> set (leader_ids 0 obs t)" by simp
    then show ?thesis unfolding scan_leaders_sees(2) ..
  qed
  have "length (snd p) \<le> 1" if in_m: "p \<in> set m" for p
  proof -
    obtain t ls where p: "p = (t, ls)" by fastforce
    then obtain k where "sees obs k t" using in_m named by blast
    then show ?thesis using single in_m entry p by auto
  qed
  then obtain t where t: "last_term m (-1) = Inr t" "\<forall>p \<in> set m. fst p \<le> t" "t = -1 \<or> t \<in> fst ` set m"
    using last_term_ok [of m "-1"] by blast
  have seen: "(u, [k]) \<in> set m" if "sees obs k u" for k u
    using entry single [OF that] by simp
  show ?thesis
  proof (cases "m = []")
    case True
    then have "\<not> sees obs k u" for k u using seen by fastforce
    then show ?thesis using True m by simp
  next
    case False
    then obtain u us where "(u, us) \<in> set m" by (cases m) auto
    then obtain k where uk: "sees obs k u" using named by blast
    then have "t \<noteq> -1" using pos [OF uk] t(2) seen [OF uk] by fastforce
    then obtain ls where "(t, ls) \<in> set m" using t(3) by auto
    then obtain l where l: "sees obs l t" using named by blast
    have "map_of m t = Some [l]" using seen [OF l] dist by simp
    then have "check_leader (obs # iters) = Inr l"
      using t(1) False m by simp
    then show ?thesis using l t(2) seen by fastforce
  qed
qed

subsection \<open>The leader check on a cluster\<close>

text \<open>
  A pass of \<^verbatim>\<open>checkOneLeader\<close> over a running cluster: before each of the \<open>N\<close> servers is looked at the
  cluster may take any steps; a server may be detached or crashed, else it is asked for its state.
\<close>

inductive pass :: "nat \<Rightarrow> nat \<Rightarrow> ('c, 'b) cluster \<Rightarrow> observation list \<Rightarrow> bool" for N where
  pass_end: "pass N N w []"
| pass_skip: "(cluster_step N)\<^sup>*\<^sup>* w u \<Longrightarrow> i < N \<Longrightarrow> pass N (Suc i) u obs \<Longrightarrow> x \<in> {Detached, Crashed} \<Longrightarrow>
     pass N i w (x # obs)"
| pass_read: "(cluster_step N)\<^sup>*\<^sup>* w u \<Longrightarrow> i < N \<Longrightarrow> pass N (Suc i) u obs \<Longrightarrow>
     GetState (nodes u (int i)) = (t, ldr) \<Longrightarrow> pass N i w (Seen t ldr # obs)"

lemma pass_sees:
  assumes "pass N i w obs" and "sees obs d t"
  shows "\<exists>u. (cluster_step N)\<^sup>*\<^sup>* w u \<and> i + d < N \<and> serverState (nodes u (int (i + d))) = leader \<and>
    currentTerm (nodes u (int (i + d))) = t"
  using assms
proof (induction arbitrary: d rule: pass.induct)
  case (pass_end w)
  then show ?case by (simp add: sees_def)
next
  case (pass_skip w u i obs x)
  then obtain d' where d: "d = Suc d'" "sees obs d' t" by (cases d) (auto simp: sees_def)
  then show ?case using pass_skip.IH [OF d(2)] pass_skip.hyps(1) by (auto intro: rtranclp_trans)
next
  case (pass_read w u i obs v ldr)
  show ?case
  proof (cases d)
    case 0
    then show ?thesis using pass_read.hyps pass_read.prems by (auto simp: sees_def GetState_def)
  next
    case (Suc d')
    then have "sees obs d' t" using pass_read.prems by (simp add: sees_def)
    then show ?thesis using pass_read.IH [of d'] pass_read.hyps(1) Suc by (auto intro: rtranclp_trans)
  qed
qed

lemma pass_once:
  assumes "pass N i w obs" and "reachable N w" and "sees obs j t" and "sees obs k t"
  shows "j = k"
  using assms
proof (induction arbitrary: j k rule: pass.induct)
  case (pass_end w)
  then show ?case by (simp add: sees_def)
next
  case (pass_skip w u i obs x)
  have r: "reachable N u" using cluster_steps_reachable [OF pass_skip.hyps(1) pass_skip.prems(1)] .
  obtain j' k' where "j = Suc j'" "sees obs j' t" "k = Suc k'" "sees obs k' t"
    using pass_skip.prems(2,3) pass_skip.hyps(4) by (cases j; cases k) (auto simp: sees_def)
  then show ?case using pass_skip.IH [OF r] by simp
next
  case (pass_read w u i obs v ldr)
  have r: "reachable N u" using cluster_steps_reachable [OF pass_read.hyps(1) pass_read.prems(1)] .
  have later: False if z: "sees (Seen v ldr # obs) 0 t" and d: "sees obs d t" for d
  proof -
    obtain x where x: "(cluster_step N)\<^sup>*\<^sup>* u x" "Suc i + d < N"
      "serverState (nodes x (int (Suc i + d))) = leader" "currentTerm (nodes x (int (Suc i + d))) = t"
      using pass_sees [OF pass_read.hyps(3) d] by auto
    have "serverState (nodes u (int i)) = leader" "currentTerm (nodes u (int i)) = t"
      using z pass_read.hyps(4) by (simp_all add: sees_def GetState_def)
    then show False
      using leader_unique [OF r x(1), of "int i" "int (Suc i + d)"] x(2-4) by simp
  qed
  have tl: "sees (x # obs) (Suc d) t = sees obs d t" for x d by (simp add: sees_def)
  show ?case
    using pass_read.prems(2,3) later pass_read.IH [OF r] by (cases j; cases k) (auto simp: tl)
qed

lemma terms_nonneg: "reachable N w \<Longrightarrow> n \<in> peer_ids N \<Longrightarrow> 0 \<le> currentTerm (nodes w n)"
proof (induction rule: reachable.induct)
  case (init nil)
  then show ?case by (simp add: init_cluster_def Make_def Let_def readPersist_def MakePersister_def ReadRaftState_def)
next
  case (step w w')
  then show ?case using grows_step [OF step.hyps step.prems] by (simp add: grows_def)
qed

lemma check_leader_pass_on:
  assumes "pass N 0 w obs" and "reachable N w"
  shows "quiet obs \<and> check_leader (obs # iters) = check_leader iters \<or>
    Crashed \<in> set obs \<and> check_leader (obs # iters) = Inl Panic \<or>
    Crashed \<notin> set obs \<and> (\<exists>l t. check_leader (obs # iters) = Inr l \<and> sees obs l t \<and>
      (\<forall>k u. sees obs k u \<longrightarrow> u \<le> t \<and> (u = t \<longrightarrow> k = l)))"
proof (cases "Crashed \<in> set obs")
  case True
  then have "scan_leaders 0 obs [] = Inl Panic" by (simp add: scan_leaders_crashed)
  then show ?thesis using True by simp
next
  case False
  have uniq: "j = k" if "sees obs j t" "sees obs k t" for j k t using pass_once [OF assms that] .
  have pos: "0 \<le> t" if s: "sees obs k t" for k t
  proof -
    obtain u where "(cluster_step N)\<^sup>*\<^sup>* w u" "k < N" "currentTerm (nodes u (int k)) = t"
      using pass_sees [OF assms(1) s] by auto
    then show ?thesis using terms_nonneg [OF cluster_steps_reachable [OF _ assms(2)], of u "int k"] by auto
  qed
  have "(\<forall>k t. \<not> sees obs k t) \<and> check_leader (obs # iters) = check_leader iters \<or>
    (\<exists>l t. sees obs l t \<and> (\<forall>k u. sees obs k u \<longrightarrow> u \<le> t) \<and> check_leader (obs # iters) = Inr l)"
  proof (rule check_leader_pass)
    show "j = k" if "sees obs j t" "sees obs k t" for j k t using that by (rule uniq)
    show "0 \<le> t" if "sees obs k t" for k t using that by (rule pos)
  qed (rule False)
  then show ?thesis
  proof (elim disjE exE conjE)
    fix l t assume "sees obs l t" "\<forall>k u. sees obs k u \<longrightarrow> u \<le> t" "check_leader (obs # iters) = Inr l"
    then show ?thesis using uniq False by (intro disjI2 conjI exI [of _ l] exI [of _ t]) auto
  qed (simp add: quiet_def False)
qed

text \<open>How the check ends: in a pass, or over all the passes it makes.\<close>

definition pass_verdict :: "observation list \<Rightarrow> failure + nat \<Rightarrow> bool" where
  "pass_verdict obs r \<longleftrightarrow>
     Crashed \<in> set obs \<and> r = Inl Panic \<or>
     Crashed \<notin> set obs \<and> (\<exists>l t. r = Inr l \<and> sees obs l t \<and> (\<forall>j u. sees obs j u \<longrightarrow> u \<le> t \<and> (u = t \<longrightarrow> j = l)))"

definition leader_verdict :: "observation list list \<Rightarrow> failure + nat \<Rightarrow> bool" where
  "leader_verdict iters r \<longleftrightarrow>
     (r = Inl NoLeader \<and> (\<forall>obs \<in> set iters. quiet obs)) \<or>
     (\<exists>k < length iters. (\<forall>i < k. quiet (iters ! i)) \<and> pass_verdict (iters ! k) r)"

lemma leader_verdict_quiet:
  assumes "quiet obs" and "leader_verdict iters r"
  shows "leader_verdict (obs # iters) r"
proof -
  have "\<forall>i < Suc k. quiet ((obs # iters) ! i)" if "\<forall>i < k. quiet (iters ! i)" for k
    using that assms(1) by (simp add: nth_Cons split: nat.split)
  then show ?thesis using assms unfolding leader_verdict_def
    by (elim disjE exE conjE) (auto intro: exI [of _ "Suc _"])
qed

lemma check_leader_verdict:
  assumes "\<And>obs. obs \<in> set iters \<Longrightarrow> \<exists>w :: ('c, 'b) cluster. reachable N w \<and> pass N 0 w obs"
  shows "leader_verdict iters (check_leader iters)"
  using assms
proof (induction iters)
  case Nil
  then show ?case by (simp add: leader_verdict_def)
next
  case (Cons obs iters)
  obtain w :: "('c, 'b) cluster" where w: "reachable N w" "pass N 0 w obs" using Cons.prems by auto
  have IH: "leader_verdict iters (check_leader iters)" using Cons.prems by (intro Cons.IH) simp
  from check_leader_pass_on [OF w(2,1), of iters] show ?case
  proof (elim disjE conjE)
    assume "quiet obs" "check_leader (obs # iters) = check_leader iters"
    then show ?thesis using leader_verdict_quiet [OF _ IH] by simp
  next
    assume "Crashed \<in> set obs" "check_leader (obs # iters) = Inl Panic"
    then have "pass_verdict obs (check_leader (obs # iters))" by (simp add: pass_verdict_def)
    then show ?thesis unfolding leader_verdict_def by (intro disjI2 exI [of _ 0]) simp
  next
    assume "Crashed \<notin> set obs" "\<exists>l t. check_leader (obs # iters) = Inr l \<and> sees obs l t \<and>
      (\<forall>k u. sees obs k u \<longrightarrow> u \<le> t \<and> (u = t \<longrightarrow> k = l))"
    then have "pass_verdict obs (check_leader (obs # iters))" unfolding pass_verdict_def by blast
    then show ?thesis unfolding leader_verdict_def by (intro disjI2 exI [of _ 0]) simp
  qed
qed

text \<open>
  C29. The leader check is sound. However a cluster runs while \<^verbatim>\<open>checkOneLeader\<close> looks at its servers one
  after the other, it never finds two leaders of a term and never indexes an empty list of leaders. It ends
  in the first pass that finds a leader, with the only leader of the newest term among those the pass
  found; or in the first pass that comes to a connected server that was crashed, whose nil state it
  dereferences (which ends the test); or it fails after ten passes that found neither.
\<close>

theorem checkOneLeader_sound:
  assumes "\<And>k. k < 10 \<Longrightarrow> \<exists>w :: ('c, 'b) cluster. reachable N w \<and> pass N 0 w (passes k)"
  shows "checkOneLeader passes = Inl NoLeader \<and>
      (\<forall>k < 10. Crashed \<notin> set (passes k) \<and> (\<forall>j t. \<not> sees (passes k) j t)) \<or>
    (\<exists>k < 10. (\<forall>i < k. Crashed \<notin> set (passes i) \<and> (\<forall>j t. \<not> sees (passes i) j t)) \<and>
      (Crashed \<in> set (passes k) \<and> checkOneLeader passes = Inl Panic \<or>
       Crashed \<notin> set (passes k) \<and> (\<exists>l t. checkOneLeader passes = Inr l \<and> sees (passes k) l t \<and>
         (\<forall>j u. sees (passes k) j u \<longrightarrow> u \<le> t \<and> (u = t \<longrightarrow> j = l)))))"
proof -
  let ?iters = "map passes [0..<10]"
  have "\<exists>w :: ('c, 'b) cluster. reachable N w \<and> pass N 0 w obs" if "obs \<in> set ?iters" for obs
    using assms that by auto
  then have "leader_verdict ?iters (checkOneLeader passes)"
    unfolding checkOneLeader_def by (rule check_leader_verdict)
  then show ?thesis unfolding leader_verdict_def
  proof (elim disjE conjE exE)
    assume "checkOneLeader passes = Inl NoLeader" "\<forall>obs \<in> set ?iters. quiet obs"
    then show ?thesis by (simp add: quiet_def)
  next
    fix k assume k: "k < length ?iters" "\<forall>i < k. quiet (?iters ! i)" "pass_verdict (?iters ! k) (checkOneLeader passes)"
    then have c: "k < 10" and q: "\<forall>i < k. quiet (passes i)" and v: "pass_verdict (passes k) (checkOneLeader passes)"
      by simp_all
    show ?thesis by (rule disjI2, rule exI [of _ k])
      (rule conjI [OF c conjI [OF q [unfolded quiet_def] v [unfolded pass_verdict_def]]])
  qed
qed

theorem checkOneLeader_sound_witness:
  "reachable 3 w6 \<and> pass 3 0 w6 [Seen 1 True, Detached, Detached] \<and>
   (\<exists>l. checkOneLeader (\<lambda>_. [Seen 1 True, Detached, Detached]) = Inr l \<and> sees [Seen 1 True, Detached, Detached] l 1)"
proof -
  let ?obs = "[Seen 1 True, Detached, Detached]"
  have "pass 3 3 w6 []" by (rule pass_end)
  then have "pass 3 2 w6 [Detached]" using pass_skip [of 3 w6 w6 2 "[]"] by simp
  then have "pass 3 1 w6 [Detached, Detached]" using pass_skip [of 3 w6 w6 1] by (simp add: numeral_2_eq_2)
  then have p: "pass 3 0 w6 ?obs" using pass_read [of 3 w6 w6 0] by (simp add: GetState_def w6_eval)
  have seen: "sees ?obs 0 1" by (simp add: sees_def)
  have only: "u = 1" if "sees ?obs k u" for k u
    using that by (cases k; cases "k - 1") (auto simp: sees_def)
  have "\<exists>w :: (nat, unit) cluster. reachable 3 w \<and> pass 3 0 w ?obs" using p reachable_w6 by blast
  from checkOneLeader_sound [where passes = "\<lambda>_. ?obs", OF this]
  have "\<exists>l t. checkOneLeader (\<lambda>_. ?obs) = Inr l \<and> sees ?obs l t"
  proof (elim disjE conjE exE)
    assume "\<forall>k < 10::nat. Crashed \<notin> set ?obs \<and> (\<forall>j t. \<not> sees ?obs j t)"
    then show ?thesis using seen zero_less_numeral by blast
  next
    assume "Crashed \<in> set ?obs"
    then show ?thesis by simp
  next
    fix l t assume "checkOneLeader (\<lambda>_. ?obs) = Inr l" "sees ?obs l t"
    then show ?thesis by blast
  qed
  then show ?thesis using p reachable_w6 only by blast
qed

text \<open>A crashed server that is connected again ends the check.\<close>

lemma checkOneLeader_crashed: "checkOneLeader (\<lambda>_. [Seen 1 True, Crashed, Detached]) = Inl Panic"
  by (simp add: checkOneLeader_def upt_rec)

subsection \<open>Agreement\<close>

definition have_it :: "int \<Rightarrow> int \<Rightarrow> committed_view \<Rightarrow> nat" where
  "have_it index cmd view = length (filter (\<lambda>p. snd p index = Some cmd) view)"

text \<open>A count that succeeds: no server reported an error and all that have the entry have the same one.\<close>

lemma count_committed_result:
  assumes "count_committed index view k c = Inr (nd, cmd)"
  shows "(\<forall>p \<in> set view. fst p = [] \<and> (snd p index = None \<or> snd p index = Some cmd)) \<and>
    nd = k + have_it index cmd view \<and> (0 < k \<longrightarrow> cmd = c)"
  using assms
proof (induction index view k c rule: count_committed.induct)
  case (2 index err l ls k c)
  show ?case
  proof (cases "l index")
    case None
    then show ?thesis using 2 by (auto simp: have_it_def split: if_splits)
  next
    case (Some v)
    then show ?thesis using 2 by (auto simp: have_it_def split: if_splits)
  qed
qed (simp add: have_it_def)

lemma poll_committed_result:
  "poll_committed cmd index m views = Inr True \<Longrightarrow>
     \<exists>view \<in> set views. 0 < have_it index cmd view \<and> m \<le> have_it index cmd view \<and>
       (\<forall>p \<in> set view. fst p = [] \<and> (snd p index = None \<or> snd p index = Some cmd))"
proof (induction cmd index m views rule: poll_committed.induct)
  case (2 cmd index m view views)
  obtain nd c where c: "count_committed index view 0 (-1) = Inr (nd, c)"
    using "2.prems" by (auto split: sum.splits)
  show ?case
  proof (cases "nd > 0 \<and> nd \<ge> m \<and> c = cmd")
    case True
    then show ?thesis using count_committed_result [OF c] by (intro bexI [of _ view]) auto
  next
    case False
    then have "poll_committed cmd index m views = Inr True" using "2.prems" c by (simp split: if_splits)
    then show ?thesis using "2.IH" [OF c refl False] by auto
  qed
qed simp

lemma try_start_result:
  "try_start n start k s = (index, s') \<Longrightarrow> index \<noteq> -1 \<Longrightarrow> 0 < n \<Longrightarrow> \<exists>v < n. start v = Some (index, True)"
  by (induction n start k s rule: try_start.induct)
    (auto simp: Let_def split: option.splits prod.splits bool.splits intro!: exI [of _ "(_ + 1) mod _"])

lemma one_rounds_result:
  "one_rounds n cmd m s rounds = Inr index \<Longrightarrow>
     \<exists>start views. (start, views) \<in> set rounds \<and> (\<exists>v < n. start v = Some (index, True)) \<and>
       poll_committed cmd index m views = Inr True"
proof (induction rounds arbitrary: s)
  case (Cons r rounds)
  obtain start views where r: "r = (start, views)" by fastforce
  obtain i s' where t: "try_start n start n s = (i, s')" by fastforce
  have pos: "0 < n" if "i \<noteq> -1" using t that by (cases n) auto
  consider (hit) "i \<noteq> -1" "poll_committed cmd i m views = Inr True" "i = index"
    | (miss) "one_rounds n cmd m s' rounds = Inr index"
    using Cons.prems t r by (auto split: if_splits sum.splits bool.splits)
  then show ?case
  proof cases
    case hit
    then show ?thesis using try_start_result [OF t hit(1) pos] r by auto
  next
    case miss
    from Cons.IH [OF this] show ?thesis by auto
  qed
qed simp

text \<open>
  Agreement. When \<^verbatim>\<open>one\<close> returns an index, some server claimed to lead and to have put the command
  there, and at one moment at least the expected number of servers, and at least one, had the command
  committed at that index, no server had committed another there and none had reported an error.
\<close>

lemma one_agreement:
  assumes "one_cmd n cmd expectedServers rounds = Inr index"
  shows "\<exists>start views view. (start, views) \<in> set rounds \<and> view \<in> set views \<and>
    (\<exists>s < n. start s = Some (index, True)) \<and>
    max 1 expectedServers \<le> length (filter (\<lambda>p. snd p index = Some cmd) view) \<and>
    (\<forall>p \<in> set view. fst p = [] \<and> (snd p index = None \<or> snd p index = Some cmd))"
proof -
  obtain start views where r: "(start, views) \<in> set rounds" "\<exists>v < n. start v = Some (index, True)"
    "poll_committed cmd index expectedServers views = Inr True"
    using one_rounds_result assms unfolding one_cmd_def by blast
  obtain view where v: "view \<in> set views" "0 < have_it index cmd view \<and> expectedServers \<le> have_it index cmd view"
    "\<forall>p \<in> set view. fst p = [] \<and> (snd p index = None \<or> snd p index = Some cmd)"
    using poll_committed_result [OF r(3)] by blast
  then have "max 1 expectedServers \<le> have_it index cmd view" by simp
  then have "max 1 expectedServers \<le> length (filter (\<lambda>p. snd p index = Some cmd) view)"
    unfolding have_it_def .
  then show ?thesis using r(1,2) v(1,3) by blast
qed

end
