(* ===== verification/Service_Tester.thy ===== *)
theory Service_Tester
  imports Raft_Node Lab_Rpc
begin

text \<open>
  What the harnesses of the key/value tests and of the shard master tests have in common
  (\<^verbatim>\<open>src/src/kvraft/config.go\<close> and \<^verbatim>\<open>src/src/shardmaster/config.go\<close>, which differ only in the kind of server):
  servers and clerks on the simulated network, partitions, shutting servers down and starting them
  again. \<open>None\<close> is a panic or a fatal error. Persisters and clerks are addresses. The \<^verbatim>\<open>connect\<close> and
  \<^verbatim>\<open>disconnect\<close> functions that take the lock and call the unlocked ones are not repeated.
\<close>

record ('s, 'o, 'b) harness =
  kvc_net :: "(string, nat) Network"
  kvc_n :: nat
  kvservers :: "'s option list"
  kvc_saved :: "nat option list"
  kvc_endnames :: "string list option list"
  clerks :: "nat \<rightharpoonup> string list"
  nextClientId :: int
  kvc_disk :: "nat \<Rightarrow> ('o, 'b) Persister"
  kvc_fresh :: nat

definition kill_servers :: "('s \<Rightarrow> 's) \<Rightarrow> ('s, 'o, 'b, 'm) harness_scheme \<Rightarrow> ('s, 'o, 'b, 'm) harness_scheme" where
  "kill_servers kill cfg = cfg\<lparr>kvservers := map (map_option kill) (kvservers cfg)\<rparr>"

text \<open>\<^verbatim>\<open>random_handles\<close>: \<open>r i\<close> is the random number behind \<^verbatim>\<open>rand.Intn(i + 1)\<close> for position \<open>i\<close>.\<close>

definition swap :: "nat \<Rightarrow> nat \<Rightarrow> 'a list \<Rightarrow> 'a list" where
  "swap i j sa = sa[i := sa ! j, j := sa ! i]"

definition random_handles :: "(nat \<Rightarrow> nat) \<Rightarrow> 'a list \<Rightarrow> 'a list" where
  "random_handles r kvh = foldl (\<lambda>sa i. swap i (r i mod (i + 1)) sa) kvh [0..<length kvh]"

text \<open>\<^verbatim>\<open>LogSize\<close>; \<open>bytes\<close> gives the length of an encoded state.\<close>

fun max_size :: "('o gob list \<Rightarrow> int) \<Rightarrow> (nat \<Rightarrow> ('o, 'b) Persister) \<Rightarrow> nat option list \<Rightarrow> int \<Rightarrow> int option" where
  "max_size bytes d [] logsize = Some logsize"
| "max_size bytes d (None # ps) logsize = None"
| "max_size bytes d (Some a # ps) logsize =
     (let n = RaftStateSize bytes (d a) in max_size bytes d ps (if n > logsize then n else logsize))"

definition LogSize :: "('o gob list \<Rightarrow> int) \<Rightarrow> ('s, 'o, 'b, 'm) harness_scheme \<Rightarrow> int option" where
  "LogSize bytes cfg = max_size bytes (kvc_disk cfg) (take (kvc_n cfg) (kvc_saved cfg)) 0"

subsection \<open>Connections\<close>

definition kvc_name :: "('s, 'o, 'b, 'm) harness_scheme \<Rightarrow> nat \<Rightarrow> nat \<Rightarrow> string option" where
  "kvc_name cfg i j =
     (case go_index (kvc_endnames cfg) (int i) of
        Some (Some es) \<Rightarrow> go_index es (int j)
      | _ \<Rightarrow> None)"

text \<open>A loop that enables or disables the ends that \<open>pick\<close> names.\<close>

fun enable_ends :: "bool \<Rightarrow> (nat \<Rightarrow> nat \<times> nat) \<Rightarrow> nat list \<Rightarrow> ('s, 'o, 'b, 'm) harness_scheme \<Rightarrow> ('s, 'o, 'b, 'm) harness_scheme option" where
  "enable_ends b pick [] cfg = Some cfg"
| "enable_ends b pick (t # ts) cfg =
     do { e \<leftarrow> kvc_name cfg (fst (pick t)) (snd (pick t));
          enable_ends b pick ts (cfg\<lparr>kvc_net := Enable e b (kvc_net cfg)\<rparr>) }"

definition connectUnlocked :: "nat \<Rightarrow> nat list \<Rightarrow> ('s, 'o, 'b, 'm) harness_scheme \<Rightarrow> ('s, 'o, 'b, 'm) harness_scheme option" where
  "connectUnlocked i to cfg =
     do { cfg1 \<leftarrow> enable_ends True (\<lambda>t. (i, t)) to cfg;
          enable_ends True (\<lambda>t. (t, i)) to cfg1 }"

text \<open>The second loop of \<^verbatim>\<open>disconnectUnlocked\<close> looks whether server \<open>j\<close>, not \<^verbatim>\<open>from[j]\<close>, has been started.\<close>

fun disable_incoming :: "nat \<Rightarrow> nat \<Rightarrow> nat list \<Rightarrow> ('s, 'o, 'b, 'm) harness_scheme \<Rightarrow> ('s, 'o, 'b, 'm) harness_scheme option" where
  "disable_incoming i j [] cfg = Some cfg"
| "disable_incoming i j (f # fs) cfg =
     do { started \<leftarrow> go_index (kvc_endnames cfg) (int j);
          if started \<noteq> None
          then do { e \<leftarrow> kvc_name cfg f i;
                    disable_incoming i (Suc j) fs (cfg\<lparr>kvc_net := Enable e False (kvc_net cfg)\<rparr>) }
          else disable_incoming i (Suc j) fs cfg }"

definition disconnectUnlocked :: "nat \<Rightarrow> nat list \<Rightarrow> ('s, 'o, 'b, 'm) harness_scheme \<Rightarrow> ('s, 'o, 'b, 'm) harness_scheme option" where
  "disconnectUnlocked i from cfg =
     do { cfg1 \<leftarrow> (if from = [] then Some cfg
                    else do { started \<leftarrow> go_index (kvc_endnames cfg) (int i);
                              if started \<noteq> None then enable_ends False (\<lambda>t. (i, t)) from cfg else Some cfg });
          disable_incoming i 0 from cfg1 }"

definition kvc_All :: "('s, 'o, 'b, 'm) harness_scheme \<Rightarrow> nat list" where
  "kvc_All cfg = [0..<kvc_n cfg]"

fun connect_each :: "nat list \<Rightarrow> ('s, 'o, 'b, 'm) harness_scheme \<Rightarrow> ('s, 'o, 'b, 'm) harness_scheme option" where
  "connect_each [] cfg = Some cfg"
| "connect_each (i # is) cfg = Option.bind (connectUnlocked i (kvc_All cfg) cfg) (connect_each is)"

definition ConnectAll :: "('s, 'o, 'b, 'm) harness_scheme \<Rightarrow> ('s, 'o, 'b, 'm) harness_scheme option" where
  "ConnectAll cfg = connect_each [0..<kvc_n cfg] cfg"

fun split_off :: "nat list \<Rightarrow> nat list \<Rightarrow> nat list \<Rightarrow> ('s, 'o, 'b, 'm) harness_scheme \<Rightarrow> ('s, 'o, 'b, 'm) harness_scheme option" where
  "split_off p other [] cfg = Some cfg"
| "split_off p other (i # is) cfg =
     do { cfg1 \<leftarrow> disconnectUnlocked i other cfg;
          cfg2 \<leftarrow> connectUnlocked i p cfg1;
          split_off p other is cfg2 }"

definition partition_servers :: "nat list \<Rightarrow> nat list \<Rightarrow> ('s, 'o, 'b, 'm) harness_scheme \<Rightarrow> ('s, 'o, 'b, 'm) harness_scheme option" where
  "partition_servers p1 p2 cfg =
     do { cfg1 \<leftarrow> split_off p1 p2 p1 cfg;
          split_off p2 p1 p2 cfg1 }"

subsection \<open>Clerks\<close>

fun kvc_make_ends :: "string list \<Rightarrow> nat \<Rightarrow> (string, nat) Network \<Rightarrow> (string, nat) Network option" where
  "kvc_make_ends [] j rn = Some rn"
| "kvc_make_ends (e # es) j rn =
     do { rn' \<leftarrow> MakeEnd e rn; kvc_make_ends es (Suc j) (Connect e j rn') }"

fun enable_clerk :: "bool \<Rightarrow> string list \<Rightarrow> nat list \<Rightarrow> (string, nat) Network \<Rightarrow> (string, nat) Network option" where
  "enable_clerk b es [] rn = Some rn"
| "enable_clerk b es (t # ts) rn = do { e \<leftarrow> go_index es (int t); enable_clerk b es ts (Enable e b rn) }"

definition clerk_names :: "nat \<Rightarrow> ('s, 'o, 'b, 'm) harness_scheme \<Rightarrow> string list" where
  "clerk_names ck cfg = (case clerks cfg ck of None \<Rightarrow> [] | Some es \<Rightarrow> es)"

definition ConnectClient :: "nat \<Rightarrow> nat list \<Rightarrow> ('s, 'o, 'b, 'm) harness_scheme \<Rightarrow> ('s, 'o, 'b, 'm) harness_scheme option" where
  "ConnectClient ck to cfg =
     map_option (\<lambda>rn. cfg\<lparr>kvc_net := rn\<rparr>) (enable_clerk True (clerk_names ck cfg) to (kvc_net cfg))"

definition DisconnectClient :: "nat \<Rightarrow> nat list \<Rightarrow> ('s, 'o, 'b, 'm) harness_scheme \<Rightarrow> ('s, 'o, 'b, 'm) harness_scheme option" where
  "DisconnectClient ck from cfg =
     map_option (\<lambda>rn. cfg\<lparr>kvc_net := rn\<rparr>) (enable_clerk False (clerk_names ck cfg) from (kvc_net cfg))"

text \<open>
  \<^verbatim>\<open>makeClient\<close>: \<open>names\<close> are the strings drawn, \<open>r\<close> the numbers for the shuffle, \<open>rand\<close> the clerk's random
  identifier, \<open>ck\<close> its address, \<open>mk\<close> the function \<^verbatim>\<open>MakeClerk\<close> of the package. The result has the clerk and the ends it was given.
\<close>

definition make_client :: "(nat \<Rightarrow> int \<Rightarrow> 'k) \<Rightarrow> string list \<Rightarrow> (nat \<Rightarrow> nat) \<Rightarrow> int \<Rightarrow> nat \<Rightarrow> nat list \<Rightarrow>
    ('s, 'o, 'b, 'm) harness_scheme \<Rightarrow> ('k \<times> string list \<times> ('s, 'o, 'b, 'm) harness_scheme) option" where
  "make_client mk names r rand ck to cfg =
     do { rn \<leftarrow> kvc_make_ends names 0 (kvc_net cfg);
          let handles = random_handles r names;
          let clerk = mk (length handles) rand;
          cfg' \<leftarrow> ConnectClient ck to (cfg\<lparr>kvc_net := rn, clerks := (clerks cfg)(ck \<mapsto> names),
                                          nextClientId := nextClientId cfg + 1\<rparr>);
          Some (clerk, handles, cfg') }"

text \<open>\<^verbatim>\<open>deleteClient\<close>; removing files named like the ends has no effect on the harness.\<close>

definition deleteClient :: "nat \<Rightarrow> ('s, 'o, 'b, 'm) harness_scheme \<Rightarrow> ('s, 'o, 'b, 'm) harness_scheme" where
  "deleteClient ck cfg = cfg\<lparr>clerks := (clerks cfg)(ck := None)\<rparr>"

subsection \<open>Servers\<close>

definition kvc_alloc :: "('o, 'b) Persister \<Rightarrow> ('s, 'o, 'b, 'm) harness_scheme \<Rightarrow> nat \<times> ('s, 'o, 'b, 'm) harness_scheme" where
  "kvc_alloc ps cfg = (kvc_fresh cfg, cfg\<lparr>kvc_disk := (kvc_disk cfg)(kvc_fresh cfg := ps), kvc_fresh := kvc_fresh cfg + 1\<rparr>)"

definition ShutdownServer :: "nat \<Rightarrow> ('s, 'o, 'b, 'm) harness_scheme \<Rightarrow> ('s, 'o, 'b, 'm) harness_scheme option" where
  "ShutdownServer i cfg =
     do { cfg1 \<leftarrow> disconnectUnlocked i (kvc_All cfg) cfg;
          let cfg2 = cfg1\<lparr>kvc_net := DeleteServer i (kvc_net cfg1)\<rparr>;
          let cfg3 = (case kvc_saved cfg2 ! i of
              None \<Rightarrow> cfg2
            | Some a \<Rightarrow> (case kvc_alloc (Persister_Copy (kvc_disk cfg2 a)) cfg2 of
                (a', c) \<Rightarrow> c\<lparr>kvc_saved := (kvc_saved c)[i := Some a']\<rparr>));
          Some (cfg3\<lparr>kvservers := (kvservers cfg3)[i := None]\<rparr>) }"

text \<open>
  \<open>start\<close> is the constructor of the service's server, \<open>nil\<close> the snapshot of a new persister, \<open>srv\<close> the address
  of the server object that is added to the network.
\<close>

definition start_server :: "(('s, 'o, 'b, 'm) harness_scheme \<Rightarrow> nat \<Rightarrow> ('o, 'b) Persister \<Rightarrow> 's \<times> 'msg) \<Rightarrow> 'b \<Rightarrow>
    string list \<Rightarrow> nat \<Rightarrow> nat \<Rightarrow> ('s, 'o, 'b, 'm) harness_scheme \<Rightarrow> (('s, 'o, 'b, 'm) harness_scheme \<times> 'msg) option" where
  "start_server start nil names srv i cfg =
     do { let cfg1 = cfg\<lparr>kvc_endnames := (kvc_endnames cfg)[i := Some names]\<rparr>;
          rn \<leftarrow> kvc_make_ends names 0 (kvc_net cfg1);
          let cfg2 = cfg1\<lparr>kvc_net := rn\<rparr>;
          let ps = (case kvc_saved cfg2 ! i of Some a \<Rightarrow> Persister_Copy (kvc_disk cfg2 a) | None \<Rightarrow> MakePersister nil);
          let (a', c) = kvc_alloc ps cfg2;
          let cfg3 = c\<lparr>kvc_saved := (kvc_saved c)[i := Some a']\<rparr>;
          let (kv, msg) = start cfg3 i (kvc_disk cfg3 a');
          Some (cfg3\<lparr>kvservers := (kvservers cfg3)[i := Some kv], kvc_net := AddServer i srv (kvc_net cfg3)\<rparr>, msg) }"

text \<open>\<^verbatim>\<open>Leader\<close>: the first server that leads; asking one that is shut down panics.\<close>

fun find_leader :: "('s \<Rightarrow> ('o, 'b) Raft) \<Rightarrow> nat \<Rightarrow> 's option list \<Rightarrow> (bool \<times> nat) option" where
  "find_leader rf i [] = Some (False, 0)"
| "find_leader rf i (None # kvs) = None"
| "find_leader rf i (Some kv # kvs) =
     (if snd (GetState (rf kv)) then Some (True, i) else find_leader rf (Suc i) kvs)"

definition leader_of :: "('s \<Rightarrow> ('o, 'b) Raft) \<Rightarrow> ('s, 'o, 'b, 'm) harness_scheme \<Rightarrow> (bool \<times> nat) option" where
  "leader_of rf cfg = find_leader rf 0 (take (kvc_n cfg) (kvservers cfg))"

text \<open>The loop of \<^verbatim>\<open>make_partition\<close>: \<open>j\<close> counts the servers placed so far.\<close>

fun place :: "nat \<Rightarrow> nat list \<Rightarrow> nat \<Rightarrow> nat list \<Rightarrow> nat list \<Rightarrow> (nat list \<times> nat list) option" where
  "place l [] j p1 p2 = Some (p1, p2)"
| "place l (i # is) j p1 p2 =
     (if i \<noteq> l
      then if j < length p1 then place l is (Suc j) (p1[j := i]) p2
           else do { p2' \<leftarrow> go_set p2 (int j - int (length p1)) i; place l is (Suc j) p1 p2' }
      else place l is j p1 p2)"

definition partition_around :: "('s \<Rightarrow> ('o, 'b) Raft) \<Rightarrow> ('s, 'o, 'b, 'm) harness_scheme \<Rightarrow> (nat list \<times> nat list) option" where
  "partition_around rf cfg =
     do { (_, l) \<leftarrow> leader_of rf cfg;
          let p1 = replicate (kvc_n cfg div 2 + 1) 0;
          let p2 = replicate (kvc_n cfg div 2) 0;
          (p1', p2') \<leftarrow> place l [0..<kvc_n cfg] 0 p1 p2;
          p2'' \<leftarrow> go_set p2' (int (length p2') - 1) l;
          Some (p1', p2'') }"

fun start_each :: "(('s, 'o, 'b, 'm) harness_scheme \<Rightarrow> nat \<Rightarrow> ('o, 'b) Persister \<Rightarrow> 's \<times> 'msg) \<Rightarrow> 'b \<Rightarrow>
    (string list \<times> nat) list \<Rightarrow> nat \<Rightarrow> ('s, 'o, 'b, 'm) harness_scheme \<Rightarrow> ('s, 'o, 'b, 'm) harness_scheme option" where
  "start_each start nil [] i cfg = Some cfg"
| "start_each start nil ((names, srv) # rest) i cfg =
     do { (cfg', _) \<leftarrow> start_server start nil names srv i cfg; start_each start nil rest (Suc i) cfg' }"

text \<open>The end of \<^verbatim>\<open>make_config\<close>, from the configuration with no server started.\<close>

definition launch :: "(('s, 'o, 'b, 'm) harness_scheme \<Rightarrow> nat \<Rightarrow> ('o, 'b) Persister \<Rightarrow> 's \<times> 'msg) \<Rightarrow> 'b \<Rightarrow>
    (string list \<times> nat) list \<Rightarrow> bool \<Rightarrow> ('s, 'o, 'b, 'm) harness_scheme \<Rightarrow> ('s, 'o, 'b, 'm) harness_scheme option" where
  "launch start nil drawn unreliable cfg =
     do { cfg1 \<leftarrow> start_each start nil (take (kvc_n cfg) drawn) 0 cfg;
          cfg2 \<leftarrow> ConnectAll cfg1;
          Some (cfg2\<lparr>kvc_net := Reliable (\<not> unreliable) (kvc_net cfg2)\<rparr>) }"

end
