(* ===== verification/KV_Tester.thy ===== *)
theory KV_Tester
  imports KV_Raft Service_Tester
begin

text \<open>
  The harness of the key/value tests (\<^verbatim>\<open>src/src/kvraft/config.go\<close>): the operations of \<open>Service_Tester\<close> with
  key/value servers and clerks.
\<close>

record kv_config = "(RaftKV, kv_Op, kv_gob list) harness" +
  kvc_maxraftstate :: int

definition kvc_cleanup :: "kv_config \<Rightarrow> kv_config" where
  "kvc_cleanup cfg = kill_servers kv_Kill cfg"

definition makeClient :: "string list \<Rightarrow> (nat \<Rightarrow> nat) \<Rightarrow> int \<Rightarrow> nat \<Rightarrow> nat list \<Rightarrow> kv_config \<Rightarrow>
    (kv_Clerk \<times> string list \<times> kv_config) option" where
  "makeClient = make_client kv_MakeClerk"

definition kvc_start :: "kv_config \<Rightarrow> nat \<Rightarrow> (kv_Op, kv_gob list) Persister \<Rightarrow> RaftKV \<times> (kv_Op, kv_gob list) ApplyMsg" where
  "kvc_start cfg i ps = StartKVServer (kvc_n cfg) (int i) ps (kvc_maxraftstate cfg)"

definition kvc_StartServer :: "string list \<Rightarrow> nat \<Rightarrow> nat \<Rightarrow> kv_config \<Rightarrow>
    (kv_config \<times> (kv_Op, kv_gob list) ApplyMsg) option" where
  "kvc_StartServer names srv i cfg = start_server kvc_start [] names srv i cfg"

definition Leader :: "kv_config \<Rightarrow> (bool \<times> nat) option" where
  "Leader cfg = leader_of kv_rf cfg"

definition make_partition :: "kv_config \<Rightarrow> (nat list \<times> nat list) option" where
  "make_partition cfg = partition_around kv_rf cfg"

definition kvc_make_config :: "(nat \<Rightarrow> (kv_Op, kv_gob list) Persister) \<Rightarrow> (string list \<times> nat) list \<Rightarrow> nat \<Rightarrow> bool \<Rightarrow>
    int \<Rightarrow> kv_config option" where
  "kvc_make_config d drawn n unreliable maxsize =
     launch kvc_start [] drawn unreliable
       \<lparr>kvc_net = MakeNetwork, kvc_n = n, kvservers = replicate n None, kvc_saved = replicate n None,
        kvc_endnames = replicate n None, clerks = Map.empty, nextClientId = int n + 1000,
        kvc_disk = d, kvc_fresh = 0, kvc_maxraftstate = maxsize\<rparr>"

end
