(* ===== verification/Raft_Tester_Net.thy ===== *)
theory Raft_Tester_Net
  imports Raft_Tester Lab_Rpc_Proofs
begin

text \<open>
  Who can reach whom. The harness may start, crash, connect and disconnect servers in any order; the
  invariant ties the tables of the simulated network to the harness's own.
\<close>

subsection \<open>The invariant\<close>

text \<open>
  \<open>e\<close> is the name of the end that the instance of server \<open>i\<close> that was started last sends to server \<open>j\<close> by.
  \<^verbatim>\<open>crash1\<close> leaves these names in place, so the instance may be running or not.
\<close>

definition named :: "'b config \<Rightarrow> nat \<Rightarrow> nat \<Rightarrow> string \<Rightarrow> bool" where
  "named cfg i j e \<longleftrightarrow> i < cfg_n cfg \<and> j < cfg_n cfg \<and> (\<exists>es. endnames cfg ! i = Some es \<and> es ! j = e)"

definition sized :: "'b config \<Rightarrow> bool" where
  "sized cfg \<longleftrightarrow> length (endnames cfg) = cfg_n cfg \<and> length (connected cfg) = cfg_n cfg \<and>
     length (rafts cfg) = cfg_n cfg \<and> length (saved cfg) = cfg_n cfg \<and> length (logs cfg) = cfg_n cfg \<and>
     (\<forall>i < cfg_n cfg. \<forall>es. endnames cfg ! i = Some es \<longrightarrow> length es = cfg_n cfg)"

definition names_ok :: "'b config \<Rightarrow> bool" where
  "names_ok cfg \<longleftrightarrow>
     (\<forall>i j i' j' e. named cfg i j e \<longrightarrow> named cfg i' j' e \<longrightarrow> i = i' \<and> j = j') \<and>
     (\<forall>i j e. named cfg i j e \<longrightarrow> e \<in> ends (cfg_net cfg) \<and> connections (cfg_net cfg) e = Some j)"

definition links_ok :: "'b config \<Rightarrow> bool" where
  "links_ok cfg \<longleftrightarrow>
     (\<forall>e. enabled (cfg_net cfg) e \<longleftrightarrow> (\<exists>i j. named cfg i j e \<and> connected cfg ! i \<and> connected cfg ! j)) \<and>
     (\<forall>i < cfg_n cfg. connected cfg ! i \<longrightarrow> endnames cfg ! i \<noteq> None)"

definition running_ok :: "'b config \<Rightarrow> bool" where
  "running_ok cfg \<longleftrightarrow> (\<forall>j < cfg_n cfg. servers (cfg_net cfg) j \<noteq> None \<longleftrightarrow> rafts cfg ! j \<noteq> None)"

definition tester_inv :: "'b config \<Rightarrow> bool" where
  "tester_inv cfg \<longleftrightarrow> sized cfg \<and> names_ok cfg \<and> links_ok cfg \<and> running_ok cfg"

subsection \<open>The loops over ends\<close>

lemma named_net [simp]:
  "named (cfg\<lparr>cfg_net := rn\<rparr>) = named cfg"
  "named (cfg\<lparr>connected := cs\<rparr>) = named cfg"
  "named (cfg\<lparr>rafts := rs\<rparr>) = named cfg"
  "named (cfg\<lparr>saved := ss\<rparr>) = named cfg"
  "named (cfg\<lparr>logs := ls\<rparr>) = named cfg"
  "named (cfg\<lparr>disk := d\<rparr>) = named cfg"
  "named (cfg\<lparr>fresh := k\<rparr>) = named cfg"
  by (simp_all add: named_def fun_eq_iff)

lemma endname_named:
  assumes "endname cfg i j = Inr e" and "i < cfg_n cfg" "j < cfg_n cfg"
  shows "named cfg i j e' \<longleftrightarrow> e' = e"
  using assms by (auto simp: endname_def named_def split: option.splits if_splits)

definition picked :: "'b config \<Rightarrow> (nat \<Rightarrow> nat \<times> nat) \<Rightarrow> nat set \<Rightarrow> string set" where
  "picked cfg pick J = {e. \<exists>j \<in> J. named cfg (fst (pick j)) (snd (pick j)) e}"

lemma picked_simps [simp]:
  "picked (cfg\<lparr>cfg_net := rn\<rparr>) = picked cfg" "picked (cfg\<lparr>connected := cs\<rparr>) = picked cfg"
  "picked cfg pick {} = {}"
  "picked cfg pick (insert j J) = Collect (named cfg (fst (pick j)) (snd (pick j))) \<union> picked cfg pick J"
  by (auto simp: picked_def fun_eq_iff)

definition in_range :: "'b config \<Rightarrow> (nat \<Rightarrow> nat \<times> nat) \<Rightarrow> nat list \<Rightarrow> bool" where
  "in_range cfg pick js \<longleftrightarrow> (\<forall>j \<in> set js. fst (pick j) < cfg_n cfg \<and> snd (pick j) < cfg_n cfg)"

lemma endname_set:
  "endname cfg i j = Inr e \<Longrightarrow> i < cfg_n cfg \<Longrightarrow> j < cfg_n cfg \<Longrightarrow> Collect (named cfg i j) = {e}"
  using endname_named by fastforce

lemma disconnect_ends_result:
  assumes "disconnect_ends pick js cfg = Inr cfg'" "in_range cfg pick js"
  shows "cfg' = cfg\<lparr>cfg_net := unlink (picked cfg pick (set js)) (cfg_net cfg)\<rparr>"
  using assms
proof (induction pick js cfg rule: disconnect_ends.induct)
  case (2 pick j js cfg)
  have r: "in_range cfg pick js" "fst (pick j) < cfg_n cfg" "snd (pick j) < cfg_n cfg"
    using "2.prems"(2) by (simp_all add: in_range_def)
  show ?case
  proof (cases "endnames cfg ! fst (pick j)")
    case None
    then have "picked cfg pick (set (j # js)) = picked cfg pick (set js)" by (auto simp: named_def)
    then show ?thesis using "2.IH"(2) "2.prems"(1) r(1) None by (metis disconnect_ends.simps(2))
  next
    case (Some es)
    then obtain e where e: "endname cfg (fst (pick j)) (snd (pick j)) = Inr e"
      "disconnect_ends pick js (cfg\<lparr>cfg_net := Enable e False (cfg_net cfg)\<rparr>) = Inr cfg'"
      using "2.prems"(1) by (auto split: sum.splits)
    then show ?thesis
      using "2.IH"(1) [OF _ e] Some r endname_set [OF e(1)]
      by (simp add: Enable_unlink unlink_unlink in_range_def)
  qed
qed simp

lemma connect_ends_result:
  assumes "connect_ends pick js cfg = Inr cfg'" "in_range cfg pick js"
  shows "cfg' = cfg\<lparr>cfg_net := link (picked cfg pick {j \<in> set js. connected cfg ! j}) (cfg_net cfg)\<rparr> \<and>
    (\<forall>j \<in> set js. connected cfg ! j \<longrightarrow> endnames cfg ! fst (pick j) \<noteq> None)"
  using assms
proof (induction pick js cfg rule: connect_ends.induct)
  case (2 pick j js cfg)
  have r: "in_range cfg pick js" "fst (pick j) < cfg_n cfg" "snd (pick j) < cfg_n cfg"
    using "2.prems"(2) by (simp_all add: in_range_def)
  have split: "{k \<in> set (j # js). connected cfg ! k} =
    (if connected cfg ! j then insert j else id) {k \<in> set js. connected cfg ! k}" by auto
  show ?case
  proof (cases "connected cfg ! j")
    case False
    then show ?thesis using "2.IH"(2) "2.prems"(1) r(1) unfolding split by simp
  next
    case True
    then obtain e where e: "endname cfg (fst (pick j)) (snd (pick j)) = Inr e"
      "connect_ends pick js (cfg\<lparr>cfg_net := Enable e True (cfg_net cfg)\<rparr>) = Inr cfg'"
      using "2.prems"(1) by (auto split: sum.splits)
    have "endnames cfg ! fst (pick j) \<noteq> None" using e(1) by (auto simp: endname_def split: option.splits)
    then show ?thesis
      using "2.IH"(1) [OF _ e] True r endname_set [OF e(1)] unfolding split
      by (simp add: Enable_link link_link in_range_def)
  qed
qed simp

subsection \<open>Connecting and disconnecting\<close>

lemma disconnect_result:
  assumes "disconnect i cfg = Inr cfg'" and "i < cfg_n cfg"
  shows "cfg' = cfg\<lparr>connected := (connected cfg)[i := False],
    cfg_net := unlink {e. \<exists>j. named cfg i j e \<or> named cfg j i e} (cfg_net cfg)\<rparr>"
proof -
  let ?c1 = "cfg\<lparr>connected := (connected cfg)[i := False]\<rparr>"
  obtain c2 where c: "disconnect_ends (\<lambda>j. (i, j)) [0..<cfg_n cfg] ?c1 = Inr c2"
    "disconnect_ends (\<lambda>j. (j, i)) [0..<cfg_n c2] c2 = Inr cfg'"
    using assms(1) by (auto simp: disconnect_def Let_def split: sum.splits)
  have c2: "c2 = ?c1\<lparr>cfg_net := unlink (picked cfg (\<lambda>j. (i, j)) {0..<cfg_n cfg}) (cfg_net cfg)\<rparr>"
    using disconnect_ends_result [OF c(1)] assms(2) by (simp add: in_range_def)
  have "cfg' = c2\<lparr>cfg_net := unlink (picked c2 (\<lambda>j. (j, i)) {0..<cfg_n cfg}) (cfg_net c2)\<rparr>"
    using disconnect_ends_result [OF c(2)] assms(2) c2 by (simp add: in_range_def)
  moreover have "picked cfg (\<lambda>j. (i, j)) {0..<cfg_n cfg} \<union> picked cfg (\<lambda>j. (j, i)) {0..<cfg_n cfg} =
      {e. \<exists>j. named cfg i j e \<or> named cfg j i e}"
    by (auto simp: picked_def named_def)
  ultimately show ?thesis using c2 by (simp add: unlink_unlink)
qed

lemma connect_result:
  assumes "connect i cfg = Inr cfg'" and "i < cfg_n cfg" and "length (connected cfg) = cfg_n cfg"
  shows "cfg' = cfg\<lparr>connected := (connected cfg)[i := True],
      cfg_net := link {e. \<exists>j. (j = i \<or> connected cfg ! j) \<and> (named cfg i j e \<or> named cfg j i e)} (cfg_net cfg)\<rparr>"
    and "endnames cfg ! i \<noteq> None"
proof -
  let ?c1 = "cfg\<lparr>connected := (connected cfg)[i := True]\<rparr>"
  let ?J = "{j \<in> {0..<cfg_n cfg}. (connected cfg)[i := True] ! j}"
  obtain c2 where c: "connect_ends (\<lambda>j. (i, j)) [0..<cfg_n cfg] ?c1 = Inr c2"
    "connect_ends (\<lambda>j. (j, i)) [0..<cfg_n c2] c2 = Inr cfg'"
    using assms(1) by (auto simp: connect_def Let_def split: sum.splits)
  have c2: "c2 = ?c1\<lparr>cfg_net := link (picked cfg (\<lambda>j. (i, j)) ?J) (cfg_net cfg)\<rparr>"
    using connect_ends_result [OF c(1)] assms(2) by (simp add: in_range_def)
  have "\<forall>j \<in> set [0..<cfg_n cfg]. connected ?c1 ! j \<longrightarrow> endnames ?c1 ! fst (i, j) \<noteq> None"
    using conjunct2 [OF connect_ends_result [OF c(1)]] assms(2) by (simp add: in_range_def)
  from bspec [OF this, of i] show "endnames cfg ! i \<noteq> None" using assms(2,3) by simp
  have "cfg' = c2\<lparr>cfg_net := link (picked c2 (\<lambda>j. (j, i)) ?J) (cfg_net c2)\<rparr>"
    using connect_ends_result [OF c(2)] assms(2) c2 by (simp add: in_range_def)
  moreover have "picked cfg (\<lambda>j. (i, j)) ?J \<union> picked cfg (\<lambda>j. (j, i)) ?J =
      {e. \<exists>j. (j = i \<or> connected cfg ! j) \<and> (named cfg i j e \<or> named cfg j i e)}"
    using assms(2,3) by (auto simp: picked_def named_def nth_list_update)
  ultimately show "cfg' = cfg\<lparr>connected := (connected cfg)[i := True],
      cfg_net := link {e. \<exists>j. (j = i \<or> connected cfg ! j) \<and> (named cfg i j e \<or> named cfg j i e)} (cfg_net cfg)\<rparr>"
    using c2 by (simp add: link_link)
qed

lemma named_range: "named cfg i j e \<Longrightarrow> i < cfg_n cfg \<and> j < cfg_n cfg"
  by (simp add: named_def)

lemma tester_inv_disconnect:
  assumes inv: "tester_inv cfg" and "disconnect i cfg = Inr cfg'" and "i < cfg_n cfg"
  shows "tester_inv cfg'"
proof -
  note r = disconnect_result [OF assms(2,3)]
  have len: "length (connected cfg) = cfg_n cfg" using inv by (simp add: tester_inv_def sized_def)
  have uniq: "named cfg a b e \<Longrightarrow> named cfg a' b' e \<Longrightarrow> a = a' \<and> b = b'" for a b a' b' e
    using inv by (simp add: tester_inv_def names_ok_def)
  have off: "enabled (cfg_net cfg) e \<longleftrightarrow> (\<exists>a b. named cfg a b e \<and> connected cfg ! a \<and> connected cfg ! b)" for e
    using inv by (simp add: tester_inv_def links_ok_def)
  have "(\<exists>a b. named cfg a b e \<and> connected cfg ! a \<and> connected cfg ! b) \<and> \<not> (\<exists>j. named cfg i j e \<or> named cfg j i e) \<longleftrightarrow>
      (\<exists>a b. named cfg a b e \<and> (connected cfg)[i := False] ! a \<and> (connected cfg)[i := False] ! b)" for e
  proof (cases "\<exists>a b. named cfg a b e")
    case True
    then obtain a b where ab: "named cfg a b e" by blast
    then have "named cfg c d e \<longleftrightarrow> c = a \<and> d = b" for c d using uniq by blast
    then show ?thesis using named_range [OF ab] assms(3) len by (auto simp: nth_list_update)
  qed simp
  then have "links_ok cfg'"
    using inv r assms(3) len off by (simp add: links_ok_def tester_inv_def nth_list_update)
  then show ?thesis using inv r by (simp add: tester_inv_def sized_def names_ok_def running_ok_def)
qed

lemma tester_inv_connect:
  assumes inv: "tester_inv cfg" and "connect i cfg = Inr cfg'" and "i < cfg_n cfg"
  shows "tester_inv cfg'"
proof -
  have len: "length (connected cfg) = cfg_n cfg" using inv by (simp add: tester_inv_def sized_def)
  note r = connect_result [OF assms(2,3) len]
  have off: "enabled (cfg_net cfg) e \<longleftrightarrow> (\<exists>a b. named cfg a b e \<and> connected cfg ! a \<and> connected cfg ! b)" for e
    using inv by (simp add: tester_inv_def links_ok_def)
  have nth: "(connected cfg)[i := True] ! a \<longleftrightarrow> a = i \<or> connected cfg ! a" for a
    using assms(3) len by (simp add: nth_list_update)
  have "(\<exists>a b. named cfg a b e \<and> connected cfg ! a \<and> connected cfg ! b) \<or>
      (\<exists>j. (j = i \<or> connected cfg ! j) \<and> (named cfg i j e \<or> named cfg j i e)) \<longleftrightarrow>
      (\<exists>a b. named cfg a b e \<and> (connected cfg)[i := True] ! a \<and> (connected cfg)[i := True] ! b)" for e
    unfolding nth by blast
  then have "links_ok cfg'"
    using inv r assms(3) len off by (auto simp: links_ok_def tester_inv_def nth_list_update)
  then show ?thesis using inv r by (simp add: tester_inv_def sized_def names_ok_def running_ok_def)
qed

subsection \<open>Crashing and starting\<close>

lemma crash1_result:
  assumes "crash1 nil i cfg = Inr cfg'"
  obtains (new) c1 where "disconnect i cfg = Inr c1" "saved c1 ! i = None"
      "cfg' = c1\<lparr>cfg_net := DeleteServer i (cfg_net c1), rafts := (rafts c1)[i := None]\<rparr>"
  | (old) c1 a where "disconnect i cfg = Inr c1" "saved c1 ! i = Some a"
      "i < length (saved c1) \<Longrightarrow> cfg' = c1\<lparr>cfg_net := DeleteServer i (cfg_net c1), rafts := (rafts c1)[i := None],
         saved := (saved c1)[i := Some (fresh c1 + 1)],
         disk := (disk c1)(fresh c1 := Persister_Copy (disk c1 a),
           fresh c1 + 1 := SaveRaftState (ReadRaftState (Persister_Copy (disk c1 a))) (MakePersister nil)),
         fresh := fresh c1 + 2\<rparr>"
proof -
  obtain c1 where c1: "disconnect i cfg = Inr c1"
    using assms by (auto simp: crash1_def split: sum.splits)
  show thesis
  proof (cases "saved c1 ! i")
    case None
    then show thesis using assms c1 by (intro new [OF c1]) (simp_all add: crash1_def Let_def)
  next
    case (Some a)
    show thesis
      using assms c1 Some by (intro old [OF c1 Some]) (auto simp: crash1_def Let_def alloc_def intro!: config.equality)
  qed
qed

lemma tester_inv_crash1:
  assumes inv: "tester_inv cfg" and "crash1 nil i cfg = Inr cfg'" and "i < cfg_n cfg"
  shows "tester_inv cfg' \<and> \<not> connected cfg' ! i \<and> cfg_n cfg' = cfg_n cfg"
proof -
  obtain c1 where d: "disconnect i cfg = Inr c1"
    using assms(2) by (auto simp: crash1_def split: sum.splits)
  have i1: "tester_inv c1" by (rule tester_inv_disconnect [OF inv d assms(3)])
  have c1: "cfg_n c1 = cfg_n cfg" "\<not> connected c1 ! i"
    using disconnect_result [OF d assms(3)] inv assms(3) by (simp_all add: tester_inv_def sized_def)
  have "i < length (saved c1)" using i1 c1(1) assms(3) by (simp add: tester_inv_def sized_def)
  with assms(2) d have f: "cfg_n cfg' = cfg_n c1" "endnames cfg' = endnames c1" "connected cfg' = connected c1"
    "logs cfg' = logs c1" "length (saved cfg') = length (saved c1)" "rafts cfg' = (rafts c1)[i := None]"
    "cfg_net cfg' = DeleteServer i (cfg_net c1)"
    by (elim crash1_result; simp)+
  then have "named cfg' = named c1" by (simp add: named_def fun_eq_iff)
  then show ?thesis using i1 c1 assms(3) f
    by (auto simp: tester_inv_def sized_def names_ok_def links_ok_def running_ok_def DeleteServer_def nth_list_update)
qed

lemma make_ends_result:
  assumes "make_ends es k rn = Some rn'"
  shows "distinct es \<and> set es \<inter> ends rn = {} \<and> ends rn' = ends rn \<union> set es \<and> servers rn' = servers rn \<and>
    (\<forall>e. enabled rn' e \<longleftrightarrow> enabled rn e \<and> e \<notin> set es) \<and>
    (\<forall>m < length es. connections rn' (es ! m) = Some (k + m)) \<and>
    (\<forall>e. e \<notin> set es \<longrightarrow> connections rn' e = connections rn e)"
  using assms
proof (induction es arbitrary: k rn)
  case (Cons e es)
  obtain r1 where r1: "MakeEnd e rn = Some r1" "make_ends es (Suc k) (Connect e k r1) = Some rn'"
    using Cons.prems by (auto split: bind_splits)
  have new: "e \<notin> ends rn" and r1_eq: "r1 = rn\<lparr>ends := insert e (ends rn), enabled := (enabled rn)(e := False),
      connections := (connections rn)(e := None)\<rparr>"
    using r1(1) by (auto simp: MakeEnd_def split: if_splits)
  note IH = Cons.IH [OF r1(2), unfolded r1_eq Connect_def, simplified]
  have "connections rn' ((e # es) ! m) = Some (k + m)" if "m < length (e # es)" for m
    using IH that by (cases m) auto
  then show ?case using IH new by auto
qed simp

lemma start1_result:
  assumes "start1 nil names srv i cfg = Inr (cfg', msg)"
  obtains c1 rn ps where "crash1 nil i cfg = Inr c1" "make_ends names 0 (cfg_net c1) = Some rn"
    "ps = (case saved c1 ! i of Some a \<Rightarrow> Persister_Copy (disk c1 a) | None \<Rightarrow> MakePersister nil)"
    "cfg' = c1\<lparr>endnames := (endnames c1)[i := Some names], cfg_net := AddServer i srv rn,
      saved := (saved c1)[i := Some (fresh c1)], disk := (disk c1)(fresh c1 := ps), fresh := fresh c1 + 1,
      rafts := (rafts c1)[i := Some (fst (Make (cfg_n c1) (int i) ps))]\<rparr>"
    "msg = snd (Make (cfg_n c1) (int i) ps)"
proof -
  obtain c1 where c1: "crash1 nil i cfg = Inr c1"
    using assms by (auto simp: start1_def split: sum.splits)
  obtain rn where rn: "make_ends names 0 (cfg_net c1) = Some rn"
    using assms c1 by (auto simp: start1_def Let_def split: option.splits)
  show thesis
    using assms c1 rn
    by (intro that [OF c1 rn refl]) (auto simp: start1_def Let_def alloc_def split: prod.splits
        cong: option.case_cong intro!: config.equality)
qed

lemma tester_inv_start1:
  assumes inv: "tester_inv cfg" and "start1 nil names srv i cfg = Inr (cfg', msg)" and "i < cfg_n cfg"
    and len: "length names = cfg_n cfg"
  shows "tester_inv cfg'"
  using assms(2)
proof (rule start1_result)
  fix c1 rn ps
  assume c1: "crash1 nil i cfg = Inr c1" and rn: "make_ends names 0 (cfg_net c1) = Some rn"
    and c: "cfg' = c1\<lparr>endnames := (endnames c1)[i := Some names], cfg_net := AddServer i srv rn,
      saved := (saved c1)[i := Some (fresh c1)], disk := (disk c1)(fresh c1 := ps), fresh := fresh c1 + 1,
      rafts := (rafts c1)[i := Some (fst (Make (cfg_n c1) (int i) ps))]\<rparr>"
  have i1: "tester_inv c1" and off: "\<not> connected c1 ! i" and n1: "cfg_n c1 = cfg_n cfg"
    using tester_inv_crash1 [OF inv c1 assms(3)] by simp_all
  have parts: "sized c1" "names_ok c1" "links_ok c1" "running_ok c1"
    using i1 by (simp_all add: tester_inv_def)
  note m = make_ends_result [OF rn]
  have named: "named cfg' a b e \<longleftrightarrow> (if a = i then b < cfg_n cfg \<and> names ! b = e else named c1 a b e)" for a b e
    using c n1 assms(3) parts(1) by (auto simp: named_def sized_def nth_list_update)
  have old: "e \<notin> set names" if "named c1 a b e" for a b e
    using that parts(2) m by (auto simp: names_ok_def)
  have new: "names ! b \<in> set names" if "b < cfg_n cfg" for b using that len by simp
  have inj: "b = b'" if "names ! b = names ! b'" "b < cfg_n cfg" "b' < cfg_n cfg" for b b'
    using that m len by (simp add: nth_eq_iff_index_eq)
  have "a = a' \<and> b = b'" if "named cfg' a b e" "named cfg' a' b' e" for a b a' b' e
    using that parts(2) old new inj unfolding named names_ok_def by (metis (full_types))
  moreover have "e \<in> ends (cfg_net cfg') \<and> connections (cfg_net cfg') e = Some b" if "named cfg' a b e" for a b e
    using that parts(2) old [of a b e] new [of b] m len c
    unfolding named names_ok_def by (auto simp: AddServer_def split: if_splits)
  ultimately have "names_ok cfg'" unfolding names_ok_def by blast
  moreover have "links_ok cfg'"
  proof -
    have "enabled (cfg_net cfg') e \<longleftrightarrow> (\<exists>a b. named cfg' a b e \<and> connected cfg' ! a \<and> connected cfg' ! b)" for e
    proof -
      have "enabled (cfg_net cfg') e \<longleftrightarrow> enabled (cfg_net c1) e \<and> e \<notin> set names"
        using m c by (simp add: AddServer_def)
      also have "\<dots> \<longleftrightarrow> (\<exists>a b. named c1 a b e \<and> connected c1 ! a \<and> connected c1 ! b)"
        using parts(3) old unfolding links_ok_def by blast
      also have "\<dots> \<longleftrightarrow> (\<exists>a b. named cfg' a b e \<and> connected cfg' ! a \<and> connected cfg' ! b)"
        using off c unfolding named by auto
      finally show ?thesis .
    qed
    then show ?thesis using parts(1,3) c n1 assms(3) by (auto simp: links_ok_def sized_def nth_list_update)
  qed
  moreover have "sized cfg'" "running_ok cfg'"
    using parts c n1 len assms(3) m
    by (auto simp: sized_def running_ok_def AddServer_def nth_list_update)
  ultimately show ?thesis by (simp add: tester_inv_def)
qed

subsection \<open>Nothing panics\<close>

lemma disconnect_ends_total:
  "sized cfg \<Longrightarrow> in_range cfg pick js \<Longrightarrow> \<exists>cfg'. disconnect_ends pick js cfg = Inr cfg'"
proof (induction pick js cfg rule: disconnect_ends.induct)
  case (2 pick j js cfg)
  have r: "in_range cfg pick js" "fst (pick j) < cfg_n cfg" "snd (pick j) < cfg_n cfg"
    using "2.prems"(2) by (simp_all add: in_range_def)
  show ?case
  proof (cases "endnames cfg ! fst (pick j)")
    case (Some es)
    then have "length es = cfg_n cfg" using "2.prems"(1) r(2) by (simp add: sized_def)
    then have e: "endname cfg (fst (pick j)) (snd (pick j)) = Inr (es ! snd (pick j))"
      using Some r(3) by (simp add: endname_def)
    have "\<exists>cfg'. disconnect_ends pick js (cfg\<lparr>cfg_net := Enable (es ! snd (pick j)) False (cfg_net cfg)\<rparr>) = Inr cfg'"
      using Some e "2.prems"(1) r(1) by (intro "2.IH"(1)) (simp_all add: sized_def in_range_def)
    then show ?thesis using Some e by simp
  qed (use "2.IH"(2) "2.prems"(1) r(1) in simp)
qed simp

lemma connect_ends_total:
  "sized cfg \<Longrightarrow> in_range cfg pick js \<Longrightarrow> \<forall>j \<in> set js. connected cfg ! j \<longrightarrow> endnames cfg ! fst (pick j) \<noteq> None \<Longrightarrow>
     \<exists>cfg'. connect_ends pick js cfg = Inr cfg'"
proof (induction pick js cfg rule: connect_ends.induct)
  case (2 pick j js cfg)
  have r: "in_range cfg pick js" "fst (pick j) < cfg_n cfg" "snd (pick j) < cfg_n cfg"
    using "2.prems"(2) by (simp_all add: in_range_def)
  show ?case
  proof (cases "connected cfg ! j")
    case True
    then obtain es where es: "endnames cfg ! fst (pick j) = Some es" using "2.prems"(3) by auto
    then have "length es = cfg_n cfg" using "2.prems"(1) r(2) by (simp add: sized_def)
    then have e: "endname cfg (fst (pick j)) (snd (pick j)) = Inr (es ! snd (pick j))"
      using es r(3) by (simp add: endname_def)
    have "\<exists>cfg'. connect_ends pick js (cfg\<lparr>cfg_net := Enable (es ! snd (pick j)) True (cfg_net cfg)\<rparr>) = Inr cfg'"
      using True e "2.prems"(1,3) r(1) by (intro "2.IH"(1)) (simp_all add: sized_def in_range_def)
    then show ?thesis using True e by simp
  qed (use "2.IH"(2) "2.prems"(1,3) r(1) in simp)
qed simp

lemma disconnect_total:
  assumes "sized cfg" and "i < cfg_n cfg"
  shows "\<exists>cfg'. disconnect i cfg = Inr cfg'"
proof -
  let ?c1 = "cfg\<lparr>connected := (connected cfg)[i := False]\<rparr>"
  have z: "sized ?c1" using assms(1) by (simp add: sized_def)
  obtain c2 where c2: "disconnect_ends (\<lambda>j. (i, j)) [0..<cfg_n cfg] ?c1 = Inr c2"
    using disconnect_ends_total [OF z, of "\<lambda>j. (i, j)" "[0..<cfg_n cfg]"] assms(2) by (auto simp: in_range_def)
  have "sized c2" "cfg_n c2 = cfg_n cfg"
    using disconnect_ends_result [OF c2] z assms(2) by (simp_all add: in_range_def sized_def)
  then obtain c3 where "disconnect_ends (\<lambda>j. (j, i)) [0..<cfg_n c2] c2 = Inr c3"
    using disconnect_ends_total [of c2 "\<lambda>j. (j, i)" "[0..<cfg_n c2]"] assms(2) by (auto simp: in_range_def)
  then show ?thesis using c2 by (simp add: disconnect_def)
qed

lemma connect_total:
  assumes "sized cfg" "links_ok cfg" and "i < cfg_n cfg" "endnames cfg ! i \<noteq> None"
  shows "\<exists>cfg'. connect i cfg = Inr cfg'"
proof -
  let ?c1 = "cfg\<lparr>connected := (connected cfg)[i := True]\<rparr>"
  have z: "sized ?c1" using assms(1) by (simp add: sized_def)
  have on: "\<forall>j \<in> set [0..<cfg_n cfg]. connected ?c1 ! j \<longrightarrow> endnames cfg ! j \<noteq> None"
    using assms by (auto simp: links_ok_def sized_def nth_list_update)
  obtain c2 where c2: "connect_ends (\<lambda>j. (i, j)) [0..<cfg_n cfg] ?c1 = Inr c2"
    using connect_ends_total [OF z, of "\<lambda>j. (i, j)" "[0..<cfg_n cfg]"] assms(3,4) by (auto simp: in_range_def)
  have f: "c2 = ?c1\<lparr>cfg_net := cfg_net c2\<rparr>"
    using connect_ends_result [OF c2] assms(3) by (auto simp: in_range_def)
  have n: "cfg_n c2 = cfg_n cfg" "endnames c2 = endnames cfg" "connected c2 = connected ?c1" "sized c2"
    using z by (subst f, simp add: sized_def)+
  then obtain c3 where "connect_ends (\<lambda>j. (j, i)) [0..<cfg_n c2] c2 = Inr c3"
    using connect_ends_total [of c2 "\<lambda>j. (j, i)" "[0..<cfg_n c2]"] on assms(3) by (auto simp: in_range_def)
  then show ?thesis using c2 by (simp add: connect_def)
qed

lemma make_ends_total:
  "distinct es \<Longrightarrow> set es \<inter> ends rn = {} \<Longrightarrow> \<exists>rn'. make_ends es k rn = Some rn'"
  by (induction es arbitrary: k rn) (auto simp: MakeEnd_def Connect_def)

lemma crash1_total: "sized cfg \<Longrightarrow> i < cfg_n cfg \<Longrightarrow> \<exists>cfg'. crash1 nil i cfg = Inr cfg'"
  using disconnect_total [of cfg i] by (auto simp: crash1_def Let_def)

lemma crash1_ends:
  assumes "crash1 nil i cfg = Inr cfg'" "i < cfg_n cfg" "sized cfg"
  shows "ends (cfg_net cfg') = ends (cfg_net cfg)"
proof -
  obtain c1 where d: "disconnect i cfg = Inr c1"
    using assms(1) by (auto simp: crash1_def split: sum.splits)
  have e: "ends (cfg_net c1) = ends (cfg_net cfg)" and "i < length (saved c1)"
    using disconnect_result [OF d assms(2)] assms(2,3) by (simp_all add: sized_def)
  then show ?thesis using assms(1) d by (elim crash1_result) (simp_all add: DeleteServer_def)
qed

subsection \<open>Making a configuration\<close>

lemma tester_inv_logs: "tester_inv cfg \<Longrightarrow> length ls = length (logs cfg) \<Longrightarrow> tester_inv (cfg\<lparr>logs := ls\<rparr>)"
  by (simp add: tester_inv_def sized_def names_ok_def links_ok_def running_ok_def)

lemma crash1_fields:
  assumes "tester_inv cfg" "crash1 nil i cfg = Inr cfg'" "i < cfg_n cfg"
  shows "endnames cfg' = endnames cfg \<and> rafts cfg' = (rafts cfg)[i := None]"
proof -
  obtain c1 where d: "disconnect i cfg = Inr c1"
    using assms(2) by (auto simp: crash1_def split: sum.splits)
  have e: "endnames c1 = endnames cfg" "rafts c1 = rafts cfg" and "i < length (saved c1)"
    using disconnect_result [OF d assms(3)] assms(1,3) by (simp_all add: tester_inv_def sized_def)
  then show ?thesis using assms(2) d by (elim crash1_result) simp_all
qed

lemma start1_fields:
  assumes "tester_inv cfg" "start1 nil names srv i cfg = Inr (cfg', msg)" "i < cfg_n cfg"
  shows "cfg_n cfg' = cfg_n cfg \<and> ends (cfg_net cfg') = ends (cfg_net cfg) \<union> set names \<and>
    endnames cfg' = (endnames cfg)[i := Some names] \<and> (\<exists>rf. rafts cfg' = (rafts cfg)[i := Some rf])"
  using assms(2)
proof (rule start1_result)
  fix c1 rn ps
  assume c1: "crash1 nil i cfg = Inr c1" and rn: "make_ends names 0 (cfg_net c1) = Some rn"
    and c: "cfg' = c1\<lparr>endnames := (endnames c1)[i := Some names], cfg_net := AddServer i srv rn,
      saved := (saved c1)[i := Some (fresh c1)], disk := (disk c1)(fresh c1 := ps), fresh := fresh c1 + 1,
      rafts := (rafts c1)[i := Some (fst (Make (cfg_n c1) (int i) ps))]\<rparr>"
  have "sized cfg" using assms(1) by (simp add: tester_inv_def)
  then show ?thesis
    using c crash1_fields [OF assms(1) c1 assms(3)] tester_inv_crash1 [OF assms(1) c1 assms(3)]
      crash1_ends [OF c1 assms(3)] make_ends_result [OF rn]
    by (auto simp: AddServer_def)
qed

lemma start1_total:
  assumes "tester_inv cfg" "i < cfg_n cfg" "distinct names" "set names \<inter> ends (cfg_net cfg) = {}"
  shows "\<exists>r. start1 nil names srv i cfg = Inr r"
proof -
  have z: "sized cfg" using assms(1) by (simp add: tester_inv_def)
  obtain c1 where c1: "crash1 nil i cfg = Inr c1" using crash1_total [OF z assms(2)] by blast
  then obtain rn where "make_ends names 0 (cfg_net c1) = Some rn"
    using make_ends_total [OF assms(3), of "cfg_net c1" 0] assms(4) crash1_ends [OF c1 assms(2) z] by auto
  then show ?thesis using c1 by (simp add: start1_def Let_def split: prod.split)
qed

definition drawn_ok :: "nat \<Rightarrow> (string list \<times> nat) list \<Rightarrow> bool" where
  "drawn_ok n drawn \<longleftrightarrow> (\<forall>p \<in> set drawn. length (fst p) = n)"

lemma start_all_inv:
  assumes "start_all nil drawn i cfg = Inr cfg'" "tester_inv cfg" "i + length drawn \<le> cfg_n cfg" "drawn_ok (cfg_n cfg) drawn"
  shows "tester_inv cfg' \<and> cfg_n cfg' = cfg_n cfg \<and>
    (\<forall>k < cfg_n cfg. rafts cfg ! k \<noteq> None \<and> endnames cfg ! k \<noteq> None \<or> i \<le> k \<and> k < i + length drawn \<longrightarrow>
       rafts cfg' ! k \<noteq> None \<and> endnames cfg' ! k \<noteq> None)"
  using assms
proof (induction nil drawn i cfg rule: start_all.induct)
  case (2 nil names srv rest i cfg)
  let ?c0 = "cfg\<lparr>logs := (logs cfg)[i := Map.empty]\<rparr>"
  have i0: "tester_inv ?c0" by (rule tester_inv_logs [OF "2.prems"(2)]) simp
  have i: "i < cfg_n ?c0" using "2.prems"(3) by simp
  obtain c1 msg where c1: "start1 nil names srv i ?c0 = Inr (c1, msg)" "start_all nil rest (Suc i) c1 = Inr cfg'"
    using "2.prems"(1) by (auto split: sum.splits)
  have i1: "tester_inv c1" and n: "cfg_n c1 = cfg_n cfg"
    using tester_inv_start1 [OF i0 c1(1) i] start1_fields [OF i0 c1(1) i] "2.prems"(4) by (simp_all add: drawn_ok_def)
  have IH: "tester_inv cfg' \<and> cfg_n cfg' = cfg_n c1 \<and>
    (\<forall>k < cfg_n c1. rafts c1 ! k \<noteq> None \<and> endnames c1 ! k \<noteq> None \<or> Suc i \<le> k \<and> k < Suc i + length rest \<longrightarrow>
       rafts cfg' ! k \<noteq> None \<and> endnames cfg' ! k \<noteq> None)"
    using "2.IH" [OF c1(1) refl c1(2) i1] "2.prems"(3,4) n by (simp add: drawn_ok_def)
  have "rafts c1 ! k \<noteq> None \<and> endnames c1 ! k \<noteq> None \<or> Suc i \<le> k \<and> k < Suc i + length rest"
    if "rafts cfg ! k \<noteq> None \<and> endnames cfg ! k \<noteq> None \<or> i \<le> k \<and> k < i + length ((names, srv) # rest)" "k < cfg_n cfg" for k
    using start1_fields [OF i0 c1(1) i] that i i0
    by (auto simp: nth_list_update tester_inv_def sized_def not_less_eq_eq)
  then show ?case using IH n by auto
qed auto

lemma start_all_total:
  assumes "tester_inv cfg" "i + length drawn \<le> cfg_n cfg" "drawn_ok (cfg_n cfg) drawn"
    "distinct (concat (map fst drawn))" "set (concat (map fst drawn)) \<inter> ends (cfg_net cfg) = {}"
  shows "\<exists>cfg'. start_all nil drawn i cfg = Inr cfg'"
  using assms
proof (induction nil drawn i cfg rule: start_all.induct)
  case (2 nil names srv rest i cfg)
  let ?c0 = "cfg\<lparr>logs := (logs cfg)[i := Map.empty]\<rparr>"
  have i0: "tester_inv ?c0" by (rule tester_inv_logs [OF "2.prems"(1)]) simp
  have i: "i < cfg_n ?c0" using "2.prems"(2) by simp
  obtain c1 msg where c1: "start1 nil names srv i ?c0 = Inr (c1, msg)"
    using start1_total [OF i0 i, of names nil srv] "2.prems"(4,5) by auto
  have i1: "tester_inv c1"
    using tester_inv_start1 [OF i0 c1 i] "2.prems"(3) by (simp add: drawn_ok_def)
  have "\<exists>cfg'. start_all nil rest (Suc i) c1 = Inr cfg'"
    using start1_fields [OF i0 c1 i] "2.prems" i1
    by (intro "2.IH" [OF c1 refl]) (auto simp: drawn_ok_def)
  then show ?case using c1 by simp
qed simp

lemma connect_all_inv:
  assumes "connect_all is cfg = Inr cfg'" "tester_inv cfg" "\<forall>i \<in> set is. i < cfg_n cfg"
  shows "tester_inv cfg' \<and> cfg_n cfg' = cfg_n cfg \<and> rafts cfg' = rafts cfg \<and> endnames cfg' = endnames cfg \<and>
    (\<forall>k < cfg_n cfg. connected cfg ! k \<or> k \<in> set is \<longrightarrow> connected cfg' ! k)"
  using assms
proof (induction "is" cfg rule: connect_all.induct)
  case (2 i "is" cfg)
  obtain c1 where c1: "connect i cfg = Inr c1" "connect_all is c1 = Inr cfg'"
    using "2.prems"(1) by (auto split: sum.splits)
  have len: "length (connected cfg) = cfg_n cfg" and i: "i < cfg_n cfg"
    using "2.prems"(2,3) by (simp_all add: tester_inv_def sized_def)
  note r = connect_result(1) [OF c1(1) i len]
  have "tester_inv c1" by (rule tester_inv_connect [OF "2.prems"(2) c1(1) i])
  from "2.IH" [OF c1 this] "2.prems"(3) r i len show ?case by (auto simp: nth_list_update)
qed simp

lemma connect_all_total:
  assumes "tester_inv cfg" "\<forall>i \<in> set is. i < cfg_n cfg \<and> endnames cfg ! i \<noteq> None"
  shows "\<exists>cfg'. connect_all is cfg = Inr cfg'"
  using assms
proof (induction "is" cfg rule: connect_all.induct)
  case (2 i "is" cfg)
  have i: "i < cfg_n cfg" "endnames cfg ! i \<noteq> None" "sized cfg" "links_ok cfg"
    using "2.prems" by (simp_all add: tester_inv_def)
  obtain c1 where c1: "connect i cfg = Inr c1" using connect_total [OF i(3,4,1,2)] by blast
  have "length (connected cfg) = cfg_n cfg" using i(3) by (simp add: sized_def)
  note r = connect_result(1) [OF c1 i(1) this]
  have "\<exists>cfg'. connect_all is c1 = Inr cfg'"
    using tester_inv_connect [OF "2.prems"(1) c1 i(1)] "2.prems"(2) r by (intro "2.IH" [OF c1]) simp_all
  then show ?case using c1 by simp
qed simp

lemma tester_inv_net:
  "tester_inv cfg \<Longrightarrow> ends rn = ends (cfg_net cfg) \<Longrightarrow> enabled rn = enabled (cfg_net cfg) \<Longrightarrow>
     connections rn = connections (cfg_net cfg) \<Longrightarrow> servers rn = servers (cfg_net cfg) \<Longrightarrow>
     tester_inv (cfg\<lparr>cfg_net := rn\<rparr>)"
  by (simp add: tester_inv_def sized_def names_ok_def links_ok_def running_ok_def)

definition bare_config :: "nat \<Rightarrow> (nat \<Rightarrow> (int, 'b) Persister) \<Rightarrow> bool \<Rightarrow> 'b config" where
  "bare_config n d unreliable = (let cfg = setunreliable unreliable (empty_config n d)
     in cfg\<lparr>cfg_net := LongDelays True (cfg_net cfg)\<rparr>)"

lemma bare_config_inv:
  "tester_inv (bare_config n d unreliable)" "cfg_n (bare_config n d unreliable) = n"
  "ends (cfg_net (bare_config n d unreliable)) = {}"
  by (auto simp: bare_config_def setunreliable_def LongDelays_def Reliable_def Let_def empty_config_def MakeNetwork_def
      tester_inv_def sized_def names_ok_def links_ok_def running_ok_def named_def)

lemma make_config_inv:
  assumes "make_config nil d drawn n unreliable = Inr cfg" "length drawn = n" "drawn_ok n drawn"
  shows "tester_inv cfg \<and> cfg_n cfg = n \<and> (\<forall>k < n. connected cfg ! k \<and> rafts cfg ! k \<noteq> None \<and> endnames cfg ! k \<noteq> None)"
proof -
  note b = bare_config_inv [of n d unreliable]
  obtain c1 where c: "start_all nil drawn 0 (bare_config n d unreliable) = Inr c1" "connect_all [0..<n] c1 = Inr cfg"
    using assms(1,2) by (auto simp: make_config_def bare_config_def Let_def split: sum.splits)
  have s: "tester_inv c1 \<and> cfg_n c1 = n \<and> (\<forall>k < n. rafts c1 ! k \<noteq> None \<and> endnames c1 ! k \<noteq> None)"
    using start_all_inv [OF c(1) b(1)] b assms(2,3) by auto
  then show ?thesis using connect_all_inv [OF c(2)] by auto
qed

lemma make_config_total:
  assumes "length drawn = n" "drawn_ok n drawn" "distinct (concat (map fst drawn))"
  shows "\<exists>cfg. make_config nil d drawn n unreliable = Inr cfg"
proof -
  note b = bare_config_inv [of n d unreliable]
  obtain c1 where c1: "start_all nil drawn 0 (bare_config n d unreliable) = Inr c1"
    using start_all_total [OF b(1), of 0 drawn nil] b assms by auto
  have "tester_inv c1" "cfg_n c1 = n" "\<forall>k < n. endnames c1 ! k \<noteq> None"
    using start_all_inv [OF c1 b(1)] b assms(1,2) by auto
  then obtain cfg where "connect_all [0..<n] c1 = Inr cfg" using connect_all_total [of c1 "[0..<n]"] by auto
  then show ?thesis using c1 assms(1) by (auto simp: make_config_def bare_config_def Let_def)
qed

subsection \<open>Runs of the harness\<close>

text \<open>
  Everything that changes a configuration once it is made: the tester's calls, messages on the apply
  channels, what the running servers do and write, and what replaced instances write to persisters they
  still hold.
\<close>

inductive tester_step :: "nat \<Rightarrow> 'b config \<Rightarrow> 'b config \<Rightarrow> bool" for n where
  starts: "i < n \<Longrightarrow> length names = n \<Longrightarrow> start1 nil names srv i cfg = Inr (cfg', msg) \<Longrightarrow> tester_step n cfg cfg'"
| crashes: "i < n \<Longrightarrow> crash1 nil i cfg = Inr cfg' \<Longrightarrow> tester_step n cfg cfg'"
| connects: "i < n \<Longrightarrow> connect i cfg = Inr cfg' \<Longrightarrow> tester_step n cfg cfg'"
| disconnects: "i < n \<Longrightarrow> disconnect i cfg = Inr cfg' \<Longrightarrow> tester_step n cfg cfg'"
| unreliable: "tester_step n cfg (setunreliable b cfg)"
| reorders: "tester_step n cfg (setlongreordering b cfg)"
| reads: "apply_reader Some i (m :: (int, 'b) ApplyMsg) (logs cfg) = Inr ls \<Longrightarrow> tester_step n cfg (cfg\<lparr>logs := ls\<rparr>)"
| serves: "i < n \<Longrightarrow> rafts cfg ! i = Some rf \<Longrightarrow> saved cfg ! i = Some a \<Longrightarrow>
     tester_step n cfg (persists_to a (persister rf') (cfg\<lparr>rafts := (rafts cfg)[i := Some rf']\<rparr>))"
| ghosts: "a < fresh cfg \<Longrightarrow> Some a \<notin> set (saved cfg) \<Longrightarrow> tester_step n cfg (persists_to a ps cfg)"

inductive tester_run :: "nat \<Rightarrow> 'b config \<Rightarrow> bool" for n where
  made: "make_config nil d drawn n unreliable = Inr cfg \<Longrightarrow> length drawn = n \<Longrightarrow> drawn_ok n drawn \<Longrightarrow> tester_run n cfg"
| run_step: "tester_run n cfg \<Longrightarrow> tester_step n cfg cfg' \<Longrightarrow> tester_run n cfg'"

lemma tester_run_steps: "(tester_step n)\<^sup>*\<^sup>* cfg cfg' \<Longrightarrow> tester_run n cfg \<Longrightarrow> tester_run n cfg'"
  by (induction rule: rtranclp_induct) (auto intro: run_step)

text \<open>What holds of every configuration in use: the invariant, and every server has been started.\<close>

definition in_use :: "nat \<Rightarrow> 'b config \<Rightarrow> bool" where
  "in_use n cfg \<longleftrightarrow> tester_inv cfg \<and> cfg_n cfg = n \<and> (\<forall>k < n. endnames cfg ! k \<noteq> None)"

lemma in_use_step:
  assumes "tester_step n cfg cfg'" and u: "in_use n cfg"
  shows "in_use n cfg'"
  using assms(1)
proof cases
  case (starts i names nil srv msg)
  then have inv: "tester_inv cfg" and i: "i < cfg_n cfg" and len: "length names = cfg_n cfg"
    "length (endnames cfg) = n" using u by (simp_all add: in_use_def tester_inv_def sized_def)
  have f: "cfg_n cfg' = cfg_n cfg" "endnames cfg' = (endnames cfg)[i := Some names]"
    using start1_fields [OF inv starts(3) i] by simp_all
  have "endnames cfg' ! k \<noteq> None" if "k < n" for k
    using that u starts(1) len(2) f(2) by (cases "k = i") (simp_all add: in_use_def)
  then show ?thesis using tester_inv_start1 [OF inv starts(3) i len(1)] f(1) u by (simp add: in_use_def)
next
  case (crashes i nil)
  then show ?thesis
    using u tester_inv_crash1 [of cfg nil i cfg'] crash1_fields [of cfg nil i cfg'] by (simp add: in_use_def)
next
  case (connects i)
  moreover have "length (connected cfg) = cfg_n cfg" using u by (simp add: in_use_def tester_inv_def sized_def)
  ultimately show ?thesis
    using u tester_inv_connect [of cfg i cfg'] connect_result(1) [of i cfg cfg'] by (simp add: in_use_def)
next
  case (disconnects i)
  then show ?thesis
    using u tester_inv_disconnect [of cfg i cfg'] disconnect_result [of i cfg cfg'] by (simp add: in_use_def)
next
  case (unreliable b)
  then show ?thesis using u by (auto simp: in_use_def setunreliable_def Reliable_def intro!: tester_inv_net)
next
  case (reorders b)
  then show ?thesis using u by (auto simp: in_use_def setlongreordering_def LongReordering_def intro!: tester_inv_net)
next
  case (reads i m ls)
  have "length ls = length (logs cfg)"
    using reads(2) by (auto simp: apply_reader_def Let_def split: if_splits option.splits)
  then show ?thesis using u reads(1) by (simp add: in_use_def tester_inv_logs)
next
  case (serves i rf a rf')
  then show ?thesis using u
    by (auto simp: in_use_def persists_to_def tester_inv_def sized_def names_ok_def links_ok_def running_ok_def
        nth_list_update)
next
  case (ghosts a ps)
  then show ?thesis using u
    by (auto simp: in_use_def persists_to_def tester_inv_def sized_def names_ok_def links_ok_def running_ok_def)
qed

lemma tester_run_in_use: "tester_run n cfg \<Longrightarrow> in_use n cfg"
proof (induction rule: tester_run.induct)
  case (made nil d drawn unreliable cfg)
  show ?case using make_config_inv [OF made.hyps] by (simp add: in_use_def)
qed (rule in_use_step)

lemma tester_run_inv: "tester_run n cfg \<Longrightarrow> tester_inv cfg \<and> cfg_n cfg = n \<and> (\<forall>k < n. endnames cfg ! k \<noteq> None)"
  using tester_run_in_use by (simp add: in_use_def)

lemma request_fate:
  assumes "tester_inv cfg"
  defines "up e j \<equiv> \<exists>i. named cfg i j e \<and> connected cfg ! i \<and> connected cfg ! j \<and> rafts cfg ! j \<noteq> None"
  shows "case ProcessReq_start r e (cfg_net cfg) of
      NoReply _ \<Rightarrow> \<forall>j. \<not> up e j
    | Dropped _ \<Rightarrow> \<not> reliable (cfg_net cfg) \<and> (\<exists>j. up e j)
    | Dispatch _ j srv _ _ \<Rightarrow> up e j \<and> servers (cfg_net cfg) j = Some srv"
proof -
  have en: "enabled (cfg_net cfg) e \<longleftrightarrow> (\<exists>i j. named cfg i j e \<and> connected cfg ! i \<and> connected cfg ! j)"
    and to: "named cfg i j e \<Longrightarrow> connections (cfg_net cfg) e = Some j"
    and run: "named cfg i j e \<Longrightarrow> servers (cfg_net cfg) j = None \<longleftrightarrow> rafts cfg ! j = None" for i j
    using assms(1) named_range [of cfg i j e]
    by (auto simp: tester_inv_def links_ok_def names_ok_def running_ok_def)
  show ?thesis
  proof (cases "enabled (cfg_net cfg) e")
    case False
    then have "\<forall>j. \<not> up e j" using en by (auto simp: up_def)
    then show ?thesis using False by (simp add: ProcessReq_start_def ReadEndnameInfo_def)
  next
    case True
    then obtain i j where ij: "named cfg i j e" "connected cfg ! i" "connected cfg ! j" using en by blast
    have up: "up e k \<longleftrightarrow> k = j \<and> rafts cfg ! j \<noteq> None" for k
      using ij to unfolding up_def by (metis option.inject)
    show ?thesis
      using True to [OF ij(1)] run [OF ij(1)]
      by (cases "servers (cfg_net cfg) j") (auto simp: ProcessReq_start_def ReadEndnameInfo_def Let_def up)
  qed
qed

text \<open>
  C30. Who can reach whom. Whatever the tests do to a configuration, a request sent through end \<open>e\<close> is
  handed over only if \<open>e\<close> belongs to the instance last started of a server that is connected, and then to
  the server that \<open>e\<close> was made for, provided that one is connected and running. A reliable network hands over
  every such request, an unreliable one may drop it, and no other request is handed over or dropped. No
  call of \<^verbatim>\<open>connect\<close>, \<^verbatim>\<open>disconnect\<close> or \<^verbatim>\<open>crash1\<close> panics. (The sending instance need not be running: see
  \<open>dead_instance_sends\<close> below.)
\<close>

theorem tester_links:
  assumes "tester_run n cfg"
  shows "(case ProcessReq_start r e (cfg_net cfg) of
        NoReply _ \<Rightarrow> \<nexists>i j. named cfg i j e \<and> connected cfg ! i \<and> connected cfg ! j \<and> rafts cfg ! j \<noteq> None
      | Dropped _ \<Rightarrow> \<not> reliable (cfg_net cfg) \<and>
          (\<exists>i j. named cfg i j e \<and> connected cfg ! i \<and> connected cfg ! j \<and> rafts cfg ! j \<noteq> None)
      | Dispatch _ j srv _ _ \<Rightarrow> servers (cfg_net cfg) j = Some srv \<and> rafts cfg ! j \<noteq> None \<and>
          (\<exists>i. named cfg i j e \<and> connected cfg ! i \<and> connected cfg ! j)) \<and>
    (i < n \<longrightarrow> (\<exists>c. connect i cfg = Inr c) \<and> (\<exists>c. disconnect i cfg = Inr c) \<and> (\<exists>c. crash1 nil i cfg = Inr c))"
proof -
  have inv: "tester_inv cfg" "cfg_n cfg = n" "\<forall>k < n. endnames cfg ! k \<noteq> None"
    using tester_run_inv [OF assms] by simp_all
  then have "sized cfg" "links_ok cfg" by (simp_all add: tester_inv_def)
  then have "i < n \<longrightarrow> (\<exists>c. connect i cfg = Inr c) \<and> (\<exists>c. disconnect i cfg = Inr c) \<and> (\<exists>c. crash1 nil i cfg = Inr c)"
    using inv connect_total [of cfg i] disconnect_total [of cfg i] crash1_total [of cfg i nil] by blast
  then show ?thesis
    using request_fate [OF inv(1), where r = r and e = e] by (cases "ProcessReq_start r e (cfg_net cfg)") auto
qed

text \<open>
  \<^verbatim>\<open>connect\<close> does not look whether the server runs. After a crash it enables the ends of the instance that was
  crashed, whose goroutines may still be there, and its requests go through.
\<close>

lemma dead_instance_sends:
  assumes "tester_run n cfg" and "named cfg i j e" and "i \<noteq> j" and "connected cfg ! j" and "rafts cfg ! j \<noteq> None"
  shows "\<exists>c1 c2. crash1 nil i cfg = Inr c1 \<and> connect i c1 = Inr c2 \<and> tester_run n c2 \<and> rafts c2 ! i = None \<and>
    connected c2 ! i \<and> (case ProcessReq_start r e (cfg_net c2) of NoReply _ \<Rightarrow> False | _ \<Rightarrow> True)"
proof -
  have inv: "tester_inv cfg" "cfg_n cfg = n" using tester_run_inv [OF assms(1)] by simp_all
  have ij: "i < n" "j < n" using named_range [OF assms(2)] inv(2) by simp_all
  have z: "sized cfg" using inv(1) by (simp add: tester_inv_def)
  obtain c1 where c1: "crash1 nil i cfg = Inr c1" using crash1_total [OF z, of i nil] ij(1) inv(2) by auto
  have r1: "tester_run n c1" by (rule run_step [OF assms(1) crashes [OF ij(1) c1]])
  have f1: "endnames c1 = endnames cfg" "rafts c1 = (rafts cfg)[i := None]" "cfg_n c1 = n"
    using crash1_fields [OF inv(1) c1] tester_inv_crash1 [OF inv(1) c1] ij(1) inv(2) by simp_all
  have con1: "connected c1 = (connected cfg)[i := False]"
  proof -
    obtain d where d: "disconnect i cfg = Inr d" using c1 by (auto simp: crash1_def split: sum.splits)
    have "connected d = (connected cfg)[i := False]" "i < length (saved d)"
      using disconnect_result [OF d] ij(1) inv(2) z by (simp_all add: sized_def)
    then show ?thesis using c1 d by (elim crash1_result) simp_all
  qed
  have inv1: "tester_inv c1" "endnames c1 ! i \<noteq> None" using tester_run_inv [OF r1] ij(1) by simp_all
  then have z1: "sized c1" "links_ok c1" by (simp_all add: tester_inv_def)
  obtain c2 where c2: "connect i c1 = Inr c2" using connect_total [OF z1 _ inv1(2)] f1(3) ij(1) by auto
  have r2: "tester_run n c2" by (rule run_step [OF r1 connects [OF ij(1) c2]])
  have "length (connected c1) = cfg_n c1" using z1(1) by (simp add: sized_def)
  note f2 = connect_result(1) [OF c2 _ this]
  have c2f: "connected c2 ! i" "connected c2 ! j" "rafts c2 ! i = None" "rafts c2 ! j \<noteq> None" "named c2 i j e"
    using f2 f1 con1 ij z inv(2) assms(2-5) by (simp_all add: sized_def named_def)
  have "tester_inv c2" using tester_run_inv [OF r2] by simp
  from request_fate [OF this, where r = r and e = e] c2f
  have "case ProcessReq_start r e (cfg_net c2) of NoReply _ \<Rightarrow> False | _ \<Rightarrow> True"
    by (cases "ProcessReq_start r e (cfg_net c2)") auto
  then show ?thesis using c1 c2 r2 c2f(1,3) by blast
qed

definition sample_drawn :: "(string list \<times> nat) list" where
  "sample_drawn = [([''a'', ''b''], 0), ([''c'', ''d''], 1)]"

definition sample_config :: "unit config" where
  "sample_config = (case make_config () (\<lambda>_. MakePersister ()) sample_drawn 2 False of Inr cfg \<Rightarrow> cfg)"

lemma sample_config_made: "make_config () (\<lambda>_. MakePersister ()) sample_drawn 2 False = Inr sample_config"
proof -
  have "\<exists>cfg. make_config () (\<lambda>_. MakePersister ()) sample_drawn 2 False = Inr cfg"
    by (rule make_config_total) (simp_all add: sample_drawn_def drawn_ok_def)
  then show ?thesis by (auto simp: sample_config_def)
qed

lemma sample_config_run: "tester_run 2 sample_config"
  by (rule made [OF sample_config_made]) (simp_all add: sample_drawn_def drawn_ok_def)

lemma sample_config_names: "endnames sample_config = [Some [''a'', ''b''], Some [''c'', ''d'']] \<and> reliable (cfg_net sample_config) \<and>
   ends (cfg_net sample_config) = {''a'', ''b'', ''c'', ''d''}"
  unfolding sample_config_def
  by (simp add: make_config_def sample_drawn_def empty_config_def setunreliable_def start1_def crash1_def disconnect_def connect_def
     Let_def alloc_def MakeEnd_def Connect_def Enable_def AddServer_def DeleteServer_def MakeNetwork_def endname_def
     Reliable_def LongDelays_def numeral_2_eq_2 insert_commute split: prod.split)

lemma sample_config_up: "named sample_config 0 1 ''b''" "connected sample_config ! 0" "connected sample_config ! 1"
  "rafts sample_config ! 1 \<noteq> None"
proof -
  have "cfg_n sample_config = 2 \<and> (\<forall>k < 2. connected sample_config ! k \<and> rafts sample_config ! k \<noteq> None)"
    using make_config_inv [OF sample_config_made] by (simp add: sample_drawn_def drawn_ok_def)
  then show "named sample_config 0 1 ''b''" "connected sample_config ! 0" "connected sample_config ! 1"
    "rafts sample_config ! 1 \<noteq> None"
    using sample_config_names by (simp_all add: named_def)
qed

theorem tester_links_witness:
  "tester_run 2 sample_config \<and> named sample_config 0 1 ''b'' \<and>
   (case ProcessReq_start no_luck ''b'' (cfg_net sample_config) of Dispatch _ _ _ _ _ \<Rightarrow> True | _ \<Rightarrow> False)"
  using tester_links [OF sample_config_run, where r = no_luck and e = "''b''"] sample_config_run sample_config_names
    sample_config_up
  by (cases "ProcessReq_start no_luck ''b'' (cfg_net sample_config)") auto

subsection \<open>Restarting\<close>

lemma crash1_saved:
  assumes "tester_inv cfg" "crash1 nil i cfg = Inr c1" "i < cfg_n cfg"
  shows "fresh cfg \<le> fresh c1 \<and> (\<forall>j. j \<noteq> i \<longrightarrow> saved c1 ! j = saved cfg ! j) \<and>
    (\<forall>b < fresh cfg. disk c1 b = disk cfg b) \<and>
    (case saved cfg ! i of
       None \<Rightarrow> saved c1 ! i = None
     | Some b \<Rightarrow> \<exists>a. saved c1 ! i = Some a \<and> ReadRaftState (disk c1 a) = ReadRaftState (disk cfg b) \<and>
         ReadSnapshot (disk c1 a) = nil)"
proof -
  obtain c where d: "disconnect i cfg = Inr c"
    using assms(2) by (auto simp: crash1_def split: sum.splits)
  have e: "saved c = saved cfg" "disk c = disk cfg" "fresh c = fresh cfg" "i < length (saved c)"
    using disconnect_result [OF d assms(3)] assms(1,3) by (simp_all add: tester_inv_def sized_def)
  from assms(2) show ?thesis
  proof (cases rule: crash1_result)
    case (new c')
    then show ?thesis using d e by simp
  next
    case (old c' a)
    then show ?thesis using d e
      by (simp add: SaveRaftState_def ReadRaftState_def Persister_Copy_def MakePersister_def ReadSnapshot_def)
  qed
qed

text \<open>
  Addresses of persisters are handed out once: a step gives at most one server a new one, and takes it from
  those that were never used.
\<close>

definition moves :: "nat \<Rightarrow> 'b config \<Rightarrow> 'b config \<Rightarrow> bool" where
  "moves i cfg cfg' \<longleftrightarrow> fresh cfg \<le> fresh cfg' \<and> (\<forall>k. k \<noteq> i \<longrightarrow> saved cfg' ! k = saved cfg ! k) \<and>
     (saved cfg' ! i = saved cfg ! i \<or> (\<exists>a. saved cfg' ! i = Some a \<and> fresh cfg \<le> a \<and> a < fresh cfg'))"

lemma crash1_moves:
  assumes "tester_inv cfg" "crash1 nil i cfg = Inr cfg'" "i < cfg_n cfg"
  shows "moves i cfg cfg'"
proof -
  obtain c where d: "disconnect i cfg = Inr c"
    using assms(2) by (auto simp: crash1_def split: sum.splits)
  have e: "saved c = saved cfg" "fresh c = fresh cfg" "i < length (saved c)"
    using disconnect_result [OF d assms(3)] assms(1,3) by (simp_all add: tester_inv_def sized_def)
  then show ?thesis using assms(2) d by (elim crash1_result) (simp_all add: moves_def)
qed

lemma start1_moves:
  assumes inv: "tester_inv cfg" and "start1 nil names srv i cfg = Inr (cfg', msg)" and i: "i < cfg_n cfg"
  shows "moves i cfg cfg' \<and> (\<exists>a \<ge> fresh cfg. saved cfg' ! i = Some a)"
  using assms(2)
proof (rule start1_result)
  fix c1 rn ps
  assume c1: "crash1 nil i cfg = Inr c1"
    and c: "cfg' = c1\<lparr>endnames := (endnames c1)[i := Some names], cfg_net := AddServer i srv rn,
      saved := (saved c1)[i := Some (fresh c1)], disk := (disk c1)(fresh c1 := ps), fresh := fresh c1 + 1,
      rafts := (rafts c1)[i := Some (fst (Make (cfg_n c1) (int i) ps))]\<rparr>"
  have "i < length (saved c1)" using tester_inv_crash1 [OF inv c1 i] i by (simp add: tester_inv_def sized_def)
  then show ?thesis using crash1_moves [OF inv c1 i] c by (auto simp: moves_def)
qed

lemma step_moves:
  assumes "tester_step n cfg cfg'" and u: "in_use n cfg" and "0 < n"
  shows "\<exists>i < n. moves i cfg cfg'"
proof -
  have same: ?thesis if "saved cfg' = saved cfg \<and> fresh cfg' = fresh cfg"
    using that assms(3) by (auto simp: moves_def)
  have inv: "tester_inv cfg" "cfg_n cfg = n" "length (connected cfg) = n"
    using u by (simp_all add: in_use_def tester_inv_def sized_def)
  show ?thesis using assms(1)
  proof cases
    case (starts i names nil srv msg)
    then show ?thesis using start1_moves [OF inv(1) starts(3)] inv(2) by auto
  next
    case (crashes i nil)
    then show ?thesis using crash1_moves [OF inv(1) crashes(2)] inv(2) by auto
  next
    case (connects i)
    then show ?thesis using connect_result(1) [OF connects(2)] inv by (intro same) simp_all
  next
    case (disconnects i)
    then show ?thesis using disconnect_result [OF disconnects(2)] inv by (intro same) simp_all
  qed (rule same, simp add: setunreliable_def setlongreordering_def persists_to_def)+
qed

text \<open>Nobody but server \<open>i\<close> has, or will have, the persister at address \<open>a\<close>.\<close>

definition owned :: "nat \<Rightarrow> nat \<Rightarrow> 'b config \<Rightarrow> bool" where
  "owned i a cfg \<longleftrightarrow> a < fresh cfg \<and> (\<forall>k < cfg_n cfg. saved cfg ! k = Some a \<longrightarrow> k = i)"

definition saved_ok :: "'b config \<Rightarrow> bool" where
  "saved_ok cfg \<longleftrightarrow> (\<forall>k < cfg_n cfg. \<forall>a. saved cfg ! k = Some a \<longrightarrow> owned k a cfg)"

lemma owned_moves: "owned i a cfg \<Longrightarrow> moves k cfg cfg' \<Longrightarrow> cfg_n cfg' = cfg_n cfg \<Longrightarrow> owned i a cfg'"
  unfolding owned_def moves_def by (metis leD less_le_trans option.inject)

lemma saved_ok_moves:
  assumes "saved_ok cfg" and m: "moves i cfg cfg'" and n: "cfg_n cfg' = cfg_n cfg"
  shows "saved_ok cfg'"
proof -
  have "owned k a cfg'" if k: "k < cfg_n cfg'" "saved cfg' ! k = Some a" for k a
  proof (cases "saved cfg ! k = Some a")
    case True
    then show ?thesis using owned_moves [OF _ m n] assms(1) k(1) n by (simp add: saved_ok_def)
  next
    case False
    then have ki: "k = i" using m k(2) unfolding moves_def by metis
    then have "fresh cfg \<le> a" "a < fresh cfg'" using m k(2) False by (auto simp: moves_def)
    moreover have "l = i" if "l < cfg_n cfg'" "saved cfg' ! l = Some a" for l
    proof (rule ccontr)
      assume "l \<noteq> i"
      then have "saved cfg ! l = Some a" using m that(2) by (simp add: moves_def)
      then have "a < fresh cfg" using assms(1) that(1) n by (simp add: saved_ok_def owned_def)
      then show False using \<open>fresh cfg \<le> a\<close> by simp
    qed
    ultimately show ?thesis using ki by (simp add: owned_def)
  qed
  then show ?thesis by (simp add: saved_ok_def)
qed

lemma saved_ok_logs: "saved_ok (cfg\<lparr>logs := ls\<rparr>) = saved_ok cfg"
  by (simp add: saved_ok_def owned_def)

lemma start_all_saved:
  assumes "start_all nil drawn i cfg = Inr cfg'" "tester_inv cfg" "i + length drawn \<le> cfg_n cfg"
    "drawn_ok (cfg_n cfg) drawn" "saved_ok cfg"
  shows "saved_ok cfg'"
  using assms
proof (induction nil drawn i cfg rule: start_all.induct)
  case (2 nil names srv rest i cfg)
  let ?c0 = "cfg\<lparr>logs := (logs cfg)[i := Map.empty]\<rparr>"
  have i0: "tester_inv ?c0" by (rule tester_inv_logs [OF "2.prems"(2)]) simp
  have i: "i < cfg_n ?c0" using "2.prems"(3) by simp
  obtain c1 msg where c1: "start1 nil names srv i ?c0 = Inr (c1, msg)" "start_all nil rest (Suc i) c1 = Inr cfg'"
    using "2.prems"(1) by (auto split: sum.splits)
  have i1: "tester_inv c1" and n: "cfg_n c1 = cfg_n cfg"
    using tester_inv_start1 [OF i0 c1(1) i] start1_fields [OF i0 c1(1) i] "2.prems"(4) by (simp_all add: drawn_ok_def)
  have "saved_ok ?c0" unfolding saved_ok_logs by (rule "2.prems"(5))
  then have "saved_ok c1"
    by (rule saved_ok_moves [OF _ conjunct1 [OF start1_moves [OF i0 c1(1) i]]]) (simp add: n)
  then show ?case using "2.IH" [OF c1(1) refl c1(2) i1] "2.prems"(3,4) n by (simp add: drawn_ok_def)
qed simp

lemma connect_all_saved:
  assumes "connect_all is cfg = Inr cfg'" "tester_inv cfg" "\<forall>i \<in> set is. i < cfg_n cfg"
  shows "saved cfg' = saved cfg \<and> fresh cfg' = fresh cfg"
  using assms
proof (induction "is" cfg rule: connect_all.induct)
  case (2 i "is" cfg)
  obtain c1 where c1: "connect i cfg = Inr c1" "connect_all is c1 = Inr cfg'"
    using "2.prems"(1) by (auto split: sum.splits)
  have len: "length (connected cfg) = cfg_n cfg" and i: "i < cfg_n cfg"
    using "2.prems"(2,3) by (simp_all add: tester_inv_def sized_def)
  have "tester_inv c1" by (rule tester_inv_connect [OF "2.prems"(2) c1(1) i])
  from "2.IH" [OF c1 this] "2.prems"(3) connect_result(1) [OF c1(1) i len] show ?case by auto
qed simp

lemma tester_run_saved: "tester_run n cfg \<Longrightarrow> saved_ok cfg"
proof (induction rule: tester_run.induct)
  case (made nil d drawn unreliable cfg)
  note b = bare_config_inv [of n d unreliable]
  obtain c1 where c: "start_all nil drawn 0 (bare_config n d unreliable) = Inr c1" "connect_all [0..<n] c1 = Inr cfg"
    using made(1,2) by (auto simp: make_config_def bare_config_def Let_def split: sum.splits)
  have "saved_ok (bare_config n d unreliable)"
    by (simp add: saved_ok_def bare_config_def setunreliable_def Let_def empty_config_def)
  then have "saved_ok c1" using start_all_saved [OF c(1) b(1)] b(2) made(2,3) by simp
  moreover have inv: "tester_inv c1 \<and> cfg_n c1 = n" using start_all_inv [OF c(1) b(1)] b(2) made(2,3) by simp
  then have "\<forall>i \<in> set [0..<n]. i < cfg_n c1" by simp
  then have "saved cfg = saved c1" "fresh cfg = fresh c1" "cfg_n cfg = cfg_n c1"
    using connect_all_saved [OF c(2)] connect_all_inv [OF c(2)] inv by blast+
  ultimately show ?case by (simp only: saved_ok_def owned_def)
next
  case (run_step cfg cfg')
  have u: "in_use n cfg" "in_use n cfg'"
    using tester_run_in_use [OF run_step.hyps(1)] in_use_step [OF run_step.hyps(2)] by simp_all
  show ?case
  proof (cases "0 < n")
    case True
    then obtain i where "moves i cfg cfg'" using step_moves [OF run_step.hyps(2) u(1)] by blast
    then show ?thesis using saved_ok_moves [OF run_step.IH] u by (simp add: in_use_def)
  qed (use u(2) in \<open>simp add: in_use_def saved_ok_def\<close>)
qed

lemma owned_steps:
  assumes "(tester_step n)\<^sup>*\<^sup>* cfg cfg'" and "tester_run n cfg" and "owned i a cfg" and "0 < n"
  shows "owned i a cfg'"
  using assms
proof (induction rule: rtranclp_induct)
  case (step c d)
  have u: "in_use n c" "in_use n d"
    using tester_run_in_use [OF tester_run_steps [OF step.hyps(1) step.prems(1)]] in_use_step [OF step.hyps(2)] by simp_all
  obtain k where "moves k c d" using step_moves [OF step.hyps(2) u(1) step.prems(3)] by blast
  then show ?case using owned_moves step.IH step.prems u by (metis in_use_def)
qed

text \<open>
  The name of an end is retired when it has been used and no server's last instance has it. Names are drawn
  once, so a retired one stays so.
\<close>

definition retired :: "string \<Rightarrow> 'b config \<Rightarrow> bool" where
  "retired e cfg \<longleftrightarrow> e \<in> ends (cfg_net cfg) \<and> (\<forall>i j. \<not> named cfg i j e)"

text \<open>Only \<^verbatim>\<open>start1\<close> names ends.\<close>

lemma step_names:
  assumes "tester_step n cfg cfg'" and u: "in_use n cfg"
  obtains (new) i names nil srv msg where "i < n" "length names = n" "start1 nil names srv i cfg = Inr (cfg', msg)"
  | (same) "endnames cfg' = endnames cfg" "cfg_n cfg' = cfg_n cfg" "ends (cfg_net cfg') = ends (cfg_net cfg)"
proof -
  have inv: "tester_inv cfg" "cfg_n cfg = n" "length (connected cfg) = n" "sized cfg"
    using u by (simp_all add: in_use_def tester_inv_def sized_def)
  show thesis using assms(1)
  proof cases
    case (starts i names nil srv msg)
    then show thesis by (rule new)
  next
    case (crashes i nil)
    then show thesis
      using crash1_fields [OF inv(1) crashes(2)] tester_inv_crash1 [OF inv(1) crashes(2)]
        crash1_ends [OF crashes(2) _ inv(4)] inv(2) by (intro same) simp_all
  next
    case (connects i)
    then show thesis using connect_result(1) [OF connects(2)] inv by (intro same) simp_all
  next
    case (disconnects i)
    then show thesis using disconnect_result [OF disconnects(2)] inv by (intro same) simp_all
  qed (auto intro!: same simp: setunreliable_def setlongreordering_def persists_to_def Reliable_def LongReordering_def)
qed

lemma start1_names:
  assumes inv: "tester_inv cfg" and "start1 nil names srv i cfg = Inr (cfg', msg)" and i: "i < cfg_n cfg"
    and len: "length names = cfg_n cfg"
  shows "ends (cfg_net cfg) \<subseteq> ends (cfg_net cfg')"
    and "e \<in> ends (cfg_net cfg) \<Longrightarrow> named cfg' a b e \<Longrightarrow> a \<noteq> i \<and> named cfg a b e"
proof -
  show "ends (cfg_net cfg) \<subseteq> ends (cfg_net cfg')" using start1_fields [OF inv assms(2) i] by simp
  assume e: "e \<in> ends (cfg_net cfg)" "named cfg' a b e"
  have "set names \<inter> ends (cfg_net cfg) = {}"
    using assms(2)
  proof (rule start1_result)
    fix c1 rn assume c1: "crash1 nil i cfg = Inr c1" and rn: "make_ends names 0 (cfg_net c1) = Some rn"
    have "sized cfg" using inv by (simp add: tester_inv_def)
    then show ?thesis using make_ends_result [OF rn] crash1_ends [OF c1 i] by simp
  qed
  then have "e \<notin> set names" using e(1) by blast
  moreover have "length (endnames cfg) = cfg_n cfg" using inv by (simp add: tester_inv_def sized_def)
  ultimately show "a \<noteq> i \<and> named cfg a b e"
    using e(2) start1_fields [OF inv assms(2) i] len i by (auto simp: named_def nth_list_update split: if_splits)
qed

lemma retired_step:
  assumes "tester_step n cfg cfg'" and u: "in_use n cfg" and "retired e cfg"
  shows "retired e cfg'"
  using assms(1) u
proof (cases rule: step_names)
  case (new i names nil srv msg)
  have inv: "tester_inv cfg" "i < cfg_n cfg" "length names = cfg_n cfg" using u new by (simp_all add: in_use_def)
  show ?thesis using start1_names [OF inv(1) new(3) inv(2,3)] assms(3) unfolding retired_def by blast
next
  case same
  then show ?thesis using assms(3) by (simp add: retired_def named_def)
qed

text \<open>An end of the last instance of a server stays with it until the server is started again.\<close>

definition held :: "nat \<Rightarrow> string \<Rightarrow> 'b config \<Rightarrow> bool" where
  "held i e cfg \<longleftrightarrow> e \<in> ends (cfg_net cfg) \<and> (\<forall>a b. named cfg a b e \<longrightarrow> a = i)"

lemma held_step:
  assumes "tester_step n cfg cfg'" and u: "in_use n cfg" and "held i e cfg"
  shows "held i e cfg'"
  using assms(1) u
proof (cases rule: step_names)
  case (new k names nil srv msg)
  have inv: "tester_inv cfg" "k < cfg_n cfg" "length names = cfg_n cfg" using u new by (simp_all add: in_use_def)
  show ?thesis using start1_names [OF inv(1) new(3) inv(2,3)] assms(3) unfolding held_def by blast
next
  case same
  then show ?thesis using assms(3) by (simp add: held_def named_def)
qed

lemma retired_steps:
  assumes "(tester_step n)\<^sup>*\<^sup>* cfg cfg'" and "in_use n cfg" and "retired e cfg"
  shows "in_use n cfg' \<and> retired e cfg'"
  using assms by (induction rule: rtranclp_induct) (auto intro: retired_step in_use_step)

lemma held_steps:
  assumes "(tester_step n)\<^sup>*\<^sup>* cfg cfg'" and "in_use n cfg" and "held i e cfg"
  shows "in_use n cfg' \<and> held i e cfg'"
  using assms by (induction rule: rtranclp_induct) (auto intro: held_step in_use_step)

lemma retired_silent:
  assumes "tester_run n cfg" and "retired e cfg"
  shows "\<exists>ms. ProcessReq_start r e (cfg_net cfg) = NoReply ms"
proof -
  have "tester_inv cfg" using tester_run_inv [OF assms(1)] by simp
  from request_fate [OF this, where r = r and e = e] assms(2) show ?thesis
    by (cases "ProcessReq_start r e (cfg_net cfg)") (auto simp: retired_def)
qed

text \<open>What \<^verbatim>\<open>start1\<close> does to the persisters.\<close>

lemma start1_persister:
  assumes "tester_run n cfg" and "i < n" and "start1 nil names srv i cfg = Inr (cfg', msg)"
  shows "(\<exists>a \<ge> fresh cfg. saved cfg' ! i = Some a \<and>
      rafts cfg' ! i = Some (fst (Make n (int i) (disk cfg' a))) \<and> ReadSnapshot (disk cfg' a) = nil \<and>
      ReadRaftState (disk cfg' a) = (case saved cfg ! i of Some b \<Rightarrow> ReadRaftState (disk cfg b) | None \<Rightarrow> [])) \<and>
    (\<forall>j. j \<noteq> i \<longrightarrow> saved cfg' ! j = saved cfg ! j) \<and> (\<forall>b < fresh cfg. disk cfg' b = disk cfg b)"
  using assms(3)
proof (rule start1_result)
  fix c1 rn ps
  assume c1: "crash1 nil i cfg = Inr c1" and rn: "make_ends names 0 (cfg_net c1) = Some rn"
    and ps: "ps = (case saved c1 ! i of Some a \<Rightarrow> Persister_Copy (disk c1 a) | None \<Rightarrow> MakePersister nil)"
    and c: "cfg' = c1\<lparr>endnames := (endnames c1)[i := Some names], cfg_net := AddServer i srv rn,
      saved := (saved c1)[i := Some (fresh c1)], disk := (disk c1)(fresh c1 := ps), fresh := fresh c1 + 1,
      rafts := (rafts c1)[i := Some (fst (Make (cfg_n c1) (int i) ps))]\<rparr>"
  have inv: "tester_inv cfg" and i: "i < cfg_n cfg" and n: "cfg_n cfg = n"
    using tester_run_inv [OF assms(1)] assms(2) by simp_all
  have i1: "tester_inv c1" and n1: "cfg_n c1 = n" using tester_inv_crash1 [OF inv c1 i] n by simp_all
  then have at: "i < length (saved c1)" "i < length (rafts c1)"
    using assms(2) by (simp_all add: tester_inv_def sized_def)
  note s = crash1_saved [OF inv c1 i]
  have "ReadSnapshot ps = nil \<and>
      ReadRaftState ps = (case saved cfg ! i of Some b \<Rightarrow> ReadRaftState (disk cfg b) | None \<Rightarrow> [])"
    using s ps by (auto simp: ReadRaftState_def Persister_Copy_def MakePersister_def ReadSnapshot_def split: option.splits)
  then have "\<exists>a \<ge> fresh cfg. saved cfg' ! i = Some a \<and>
      rafts cfg' ! i = Some (fst (Make n (int i) (disk cfg' a))) \<and> ReadSnapshot (disk cfg' a) = nil \<and>
      ReadRaftState (disk cfg' a) = (case saved cfg ! i of Some b \<Rightarrow> ReadRaftState (disk cfg b) | None \<Rightarrow> [])"
    using c at n1 s by (intro exI [of _ "fresh c1"]) simp
  moreover have "saved cfg' ! j = saved cfg ! j" if "j \<noteq> i" for j using s c that by simp
  moreover have "disk cfg' b = disk cfg b" if "b < fresh cfg" for b using s c that by simp
  ultimately show ?thesis by blast
qed

text \<open>
  C31. A restarted server is cut off from all its predecessors, for good. \<^verbatim>\<open>start1\<close> gives the new instance a
  persister at a fresh address that holds the last persisted Raft state and no snapshot, makes the new Raft
  from it, and leaves the persisters of the others alone. From then on, whatever the tests do, connecting
  the server again included: a request through any end an earlier instance of the server ever had gets no reply, and
  no server uses a persister that an earlier instance had. (\<open>cfg0\<close> is any earlier configuration, \<open>cfg''\<close> any later one.)
\<close>

theorem start1_isolates:
  assumes "tester_run n cfg0" and "(tester_step n)\<^sup>*\<^sup>* cfg0 cfg" and "i < n" and "length names = n"
    and "start1 nil names srv i cfg = Inr (cfg', msg)" and "(tester_step n)\<^sup>*\<^sup>* cfg' cfg''"
  shows "(\<exists>a \<ge> fresh cfg. saved cfg' ! i = Some a \<and>
      rafts cfg' ! i = Some (fst (Make n (int i) (disk cfg' a))) \<and> ReadSnapshot (disk cfg' a) = nil \<and>
      ReadRaftState (disk cfg' a) = (case saved cfg ! i of Some b \<Rightarrow> ReadRaftState (disk cfg b) | None \<Rightarrow> [])) \<and>
    (\<forall>j. j \<noteq> i \<longrightarrow> saved cfg' ! j = saved cfg ! j) \<and> (\<forall>b < fresh cfg. disk cfg' b = disk cfg b) \<and>
    (\<forall>j e r. named cfg0 i j e \<longrightarrow> (\<exists>ms. ProcessReq_start r e (cfg_net cfg'') = NoReply ms)) \<and>
    (\<forall>b. saved cfg0 ! i = Some b \<longrightarrow> Some b \<notin> set (saved cfg''))"
proof (intro conjI allI impI)
  have r: "tester_run n cfg" by (rule tester_run_steps [OF assms(2,1)])
  have r': "tester_run n cfg'" by (rule run_step [OF r starts [OF assms(3-5)]])
  have r'': "tester_run n cfg''" by (rule tester_run_steps [OF assms(6) r'])
  note p = start1_persister [OF r assms(3,5)]
  show "\<exists>a \<ge> fresh cfg. saved cfg' ! i = Some a \<and>
      rafts cfg' ! i = Some (fst (Make n (int i) (disk cfg' a))) \<and> ReadSnapshot (disk cfg' a) = nil \<and>
      ReadRaftState (disk cfg' a) = (case saved cfg ! i of Some b \<Rightarrow> ReadRaftState (disk cfg b) | None \<Rightarrow> [])"
    using p by blast
  show "saved cfg' ! j = saved cfg ! j" if "j \<noteq> i" for j using p that by blast
  show "disk cfg' b = disk cfg b" if "b < fresh cfg" for b using p that by blast
  have u: "in_use n cfg0" "in_use n cfg" "in_use n cfg'" "in_use n cfg''"
    using tester_run_in_use assms(1) r r' r'' by blast+
  then have inv: "tester_inv cfg" "i < cfg_n cfg" "length names = cfg_n cfg" using assms(3,4) by (simp_all add: in_use_def)
  show "\<exists>ms. ProcessReq_start ro e (cfg_net cfg'') = NoReply ms" if e: "named cfg0 i j e" for j e ro
  proof -
    have "names_ok cfg0" using u(1) by (simp add: in_use_def tester_inv_def)
    then have "held i e cfg0" using e unfolding held_def names_ok_def by blast
    then have "held i e cfg" using held_steps [OF assms(2) u(1)] by blast
    then have "retired e cfg'"
      using start1_names [OF inv(1) assms(5) inv(2,3)] unfolding held_def retired_def by blast
    then show ?thesis using retired_silent [OF r''] retired_steps [OF assms(6) u(3)] by blast
  qed
  show "Some b \<notin> set (saved cfg'')" if b: "saved cfg0 ! i = Some b" for b
  proof -
    have n: "0 < n" using assms(3) by simp
    have "saved_ok cfg0" by (rule tester_run_saved [OF assms(1)])
    then have "owned i b cfg0" using b u(1) assms(3) by (simp add: saved_ok_def in_use_def)
    then have o: "owned i b cfg" by (rule owned_steps [OF assms(2,1) _ n])
    obtain a where a: "fresh cfg \<le> a" "saved cfg' ! i = Some a" "\<forall>k. k \<noteq> i \<longrightarrow> saved cfg' ! k = saved cfg ! k"
      "fresh cfg \<le> fresh cfg'"
      using start1_moves [OF inv(1) assms(5) inv(2)] unfolding moves_def by blast
    have "owned (n + k) b cfg'" for k
    proof -
      have "saved cfg' ! l \<noteq> Some b" if "l < n" for l
        using o a that u(2) unfolding owned_def in_use_def by (cases "l = i") auto
      then show ?thesis using o a(4) u(3) by (simp add: owned_def in_use_def)
    qed
    then have o'': "owned n b cfg''" using owned_steps [OF assms(6) r' _ n, of n b] by (metis add_0_right)
    show ?thesis
    proof
      assume "Some b \<in> set (saved cfg'')"
      then obtain k where "k < n" "saved cfg'' ! k = Some b"
        using u(4) by (auto simp: in_set_conv_nth in_use_def tester_inv_def sized_def)
      then show False using o'' u(4) unfolding owned_def in_use_def by fastforce
    qed
  qed
qed

text \<open>Server 0 is crashed, started again with new names and connected; its first instance's end to server 1 stays silent.\<close>

theorem start1_isolates_witness:
  "\<exists>cfg' msg cfg'' ms. start1 () [''e'', ''f''] 2 0 sample_config = Inr (cfg', msg) \<and> connect 0 cfg' = Inr cfg'' \<and>
     ProcessReq_start no_luck ''b'' (cfg_net cfg'') = NoReply ms"
proof -
  have inv: "tester_inv sample_config" "0 < cfg_n sample_config"
    using tester_run_inv [OF sample_config_run] by simp_all
  obtain cfg' msg where s: "start1 () [''e'', ''f''] 2 0 sample_config = Inr (cfg', msg)"
    using start1_total [OF inv, of "[''e'', ''f'']" "()" 2] sample_config_names by auto
  have r': "tester_run 2 cfg'" by (rule run_step [OF sample_config_run starts [OF _ _ s]]) simp_all
  then have "tester_inv cfg'" "cfg_n cfg' = 2" "endnames cfg' ! 0 \<noteq> None" using tester_run_inv [OF r'] by simp_all
  then obtain cfg'' where c: "connect 0 cfg' = Inr cfg''"
    using connect_total [of cfg' 0] by (auto simp: tester_inv_def)
  have "(tester_step 2)\<^sup>*\<^sup>* cfg' cfg''" using connects [OF _ c] by (intro r_into_rtranclp) simp
  then show ?thesis
    using start1_isolates [OF sample_config_run rtranclp.rtrancl_refl _ _ s] sample_config_up(1) s c by auto
qed

end
