(* ===== verification/Service_Tester_Proofs.thy ===== *)
theory Service_Tester_Proofs
  imports Service_Tester Raft_Tester_Net "HOL-Library.Multiset"
begin

text \<open>
  What the partitions of the harnesses do: how \<^verbatim>\<open>make_partition\<close> splits the servers, and who can
  send to whom after \<^verbatim>\<open>partition\<close>.
\<close>

subsection \<open>Shuffling\<close>

text \<open>Whatever numbers are drawn, a clerk gets every server's end exactly once.\<close>

lemma swap_mset: "i < length xs \<Longrightarrow> j < length xs \<Longrightarrow> mset (swap i j xs) = mset xs"
  unfolding swap_def by (rule mset_swap)

lemma random_handles_mset: "mset (random_handles r kvh) = mset kvh"
proof -
  have "m \<le> length kvh \<Longrightarrow> mset (foldl (\<lambda>sa i. swap i (r i mod (i + 1)) sa) kvh [0..<m]) = mset kvh \<and>
      length (foldl (\<lambda>sa i. swap i (r i mod (i + 1)) sa) kvh [0..<m]) = length kvh" for m
  proof (induction m)
    case (Suc m)
    have "r m mod (m + 1) < m + 1" by simp
    then have "r m mod (m + 1) < length kvh" using Suc.prems by linarith
    then show ?case using Suc by (simp add: swap_mset) (simp add: swap_def)
  qed simp
  then show ?thesis unfolding random_handles_def by blast
qed

subsection \<open>Configurations with all servers started\<close>

definition kvc_ok :: "('s, 'o, 'b, 'm) harness_scheme \<Rightarrow> bool" where
  "kvc_ok cfg \<longleftrightarrow> length (kvc_endnames cfg) = kvc_n cfg \<and>
     (\<forall>i < kvc_n cfg. \<exists>es. kvc_endnames cfg ! i = Some es \<and> length es = kvc_n cfg) \<and>
     (\<forall>i j i' j' e. kvc_name cfg i j = Some e \<longrightarrow> kvc_name cfg i' j' = Some e \<longrightarrow> i = i' \<and> j = j')"

definition nm :: "('s, 'o, 'b, 'm) harness_scheme \<Rightarrow> nat \<Rightarrow> nat \<Rightarrow> string" where
  "nm cfg i j = the (kvc_name cfg i j)"

lemma kvc_name_ok: "kvc_ok cfg \<Longrightarrow> i < kvc_n cfg \<Longrightarrow> j < kvc_n cfg \<Longrightarrow> kvc_name cfg i j = Some (nm cfg i j)"
  by (fastforce simp: kvc_ok_def kvc_name_def nm_def)

lemma nm_inj:
  assumes "kvc_ok cfg" "i < kvc_n cfg" "j < kvc_n cfg" "i' < kvc_n cfg" "j' < kvc_n cfg"
  shows "nm cfg i j = nm cfg i' j' \<longleftrightarrow> i = i' \<and> j = j'"
  using kvc_name_ok [OF assms(1-3)] kvc_name_ok [OF assms(1,4,5)] assms(1) unfolding kvc_ok_def by metis

lemma kvc_net_simps [simp]:
  "kvc_name (cfg\<lparr>kvc_net := rn\<rparr>) = kvc_name cfg" "nm (cfg\<lparr>kvc_net := rn\<rparr>) = nm cfg"
  "kvc_ok (cfg\<lparr>kvc_net := rn\<rparr>) = kvc_ok cfg"
  by (simp_all add: kvc_name_def nm_def kvc_ok_def fun_eq_iff)

definition wired :: "('s, 'o, 'b, 'm) harness_scheme \<Rightarrow> nat \<Rightarrow> nat \<Rightarrow> bool" where
  "wired cfg i j \<longleftrightarrow> enabled (kvc_net cfg) (nm cfg i j)"

text \<open>\<open>cfg'\<close> differs from \<open>cfg\<close> only in the ends that are enabled.\<close>

definition rewired :: "('s, 'o, 'b, 'm) harness_scheme \<Rightarrow> ('s, 'o, 'b, 'm) harness_scheme \<Rightarrow> bool" where
  "rewired cfg cfg' \<longleftrightarrow> (\<exists>rn. cfg' = cfg\<lparr>kvc_net := rn\<rparr>)"

lemma rewired_refl [simp]: "rewired cfg cfg"
  and rewired_trans: "rewired c1 c2 \<Longrightarrow> rewired c2 c3 \<Longrightarrow> rewired c1 c3"
  and rewired_keeps: "rewired cfg cfg' \<Longrightarrow> kvc_ok cfg' = kvc_ok cfg \<and> kvc_n cfg' = kvc_n cfg \<and> kvc_name cfg' = kvc_name cfg \<and>
    kvc_endnames cfg' = kvc_endnames cfg"
proof -
  show "rewired cfg cfg" unfolding rewired_def by (intro exI [of _ "kvc_net cfg"]) simp
qed (auto simp: rewired_def)

lemma enable_ends_result:
  assumes "kvc_ok cfg" "\<forall>t \<in> set ts. fst (pick t) < kvc_n cfg \<and> snd (pick t) < kvc_n cfg"
  shows "\<exists>cfg'. enable_ends b pick ts cfg = Some cfg' \<and> rewired cfg cfg' \<and>
    (\<forall>x < kvc_n cfg. \<forall>y < kvc_n cfg. wired cfg' x y \<longleftrightarrow> (if (x, y) \<in> pick ` set ts then b else wired cfg x y))"
  using assms
proof (induction ts arbitrary: cfg)
  case (Cons t ts)
  obtain x0 y0 where p: "pick t = (x0, y0)" by fastforce
  have r: "x0 < kvc_n cfg" "y0 < kvc_n cfg" using Cons.prems(2) p by auto
  let ?c = "cfg\<lparr>kvc_net := Enable (nm cfg x0 y0) b (kvc_net cfg)\<rparr>"
  obtain cfg' where c: "enable_ends b pick ts ?c = Some cfg'" "rewired ?c cfg'"
    "\<forall>x < kvc_n cfg. \<forall>y < kvc_n cfg. wired cfg' x y \<longleftrightarrow> (if (x, y) \<in> pick ` set ts then b else wired ?c x y)"
    using Cons.IH [of ?c] Cons.prems by auto
  have "wired ?c x y \<longleftrightarrow> (if (x, y) = (x0, y0) then b else wired cfg x y)" if "x < kvc_n cfg" "y < kvc_n cfg" for x y
    using nm_inj [OF Cons.prems(1) that r] by (simp add: wired_def Enable_def)
  then have "\<forall>x < kvc_n cfg. \<forall>y < kvc_n cfg.
      wired cfg' x y \<longleftrightarrow> (if (x, y) \<in> pick ` set (t # ts) then b else wired cfg x y)"
    using c(3) p by auto
  moreover have "rewired cfg cfg'" using c(2) by (auto simp: rewired_def)
  ultimately show ?case using c(1) p kvc_name_ok [OF Cons.prems(1) r] by auto
qed simp

lemma disable_incoming_eq:
  assumes "kvc_ok cfg" "j + length fs \<le> kvc_n cfg"
  shows "disable_incoming i j fs cfg = enable_ends False (\<lambda>t. (t, i)) fs cfg"
  using assms
proof (induction fs arbitrary: j cfg)
  case (Cons f fs)
  have "j < kvc_n cfg" using Cons.prems(2) by simp
  then obtain es where "go_index (kvc_endnames cfg) (int j) = Some (Some es)"
    using Cons.prems(1) by (fastforce simp: kvc_ok_def)
  then show ?case using Cons by (auto split: bind_split)
qed simp

definition touches :: "nat \<Rightarrow> nat set \<Rightarrow> nat \<Rightarrow> nat \<Rightarrow> bool" where
  "touches i T x y \<longleftrightarrow> x = i \<and> y \<in> T \<or> y = i \<and> x \<in> T"

lemma two_loops:
  assumes "kvc_ok cfg" "i < kvc_n cfg" "\<forall>t \<in> set ts. t < kvc_n cfg"
  shows "\<exists>cfg'. Option.bind (enable_ends b (\<lambda>t. (i, t)) ts cfg) (enable_ends b (\<lambda>t. (t, i)) ts) = Some cfg' \<and>
    rewired cfg cfg' \<and>
    (\<forall>x < kvc_n cfg. \<forall>y < kvc_n cfg. wired cfg' x y \<longleftrightarrow> (if touches i (set ts) x y then b else wired cfg x y))"
proof -
  obtain c1 where c1: "enable_ends b (\<lambda>t. (i, t)) ts cfg = Some c1" "rewired cfg c1"
    "\<forall>x < kvc_n cfg. \<forall>y < kvc_n cfg. wired c1 x y \<longleftrightarrow> (if (x, y) \<in> (\<lambda>t. (i, t)) ` set ts then b else wired cfg x y)"
    using enable_ends_result [OF assms(1), of ts "\<lambda>t. (i, t)" b] assms(2,3) by auto
  have k: "kvc_ok c1" "kvc_n c1 = kvc_n cfg" using rewired_keeps [OF c1(2)] assms(1) by simp_all
  obtain c2 where c2: "enable_ends b (\<lambda>t. (t, i)) ts c1 = Some c2" "rewired c1 c2"
    "\<forall>x < kvc_n cfg. \<forall>y < kvc_n cfg. wired c2 x y \<longleftrightarrow> (if (x, y) \<in> (\<lambda>t. (t, i)) ` set ts then b else wired c1 x y)"
    using enable_ends_result [OF k(1), of ts "\<lambda>t. (t, i)" b] assms(2,3) k(2) by auto
  have "\<forall>x < kvc_n cfg. \<forall>y < kvc_n cfg. wired c2 x y \<longleftrightarrow> (if touches i (set ts) x y then b else wired cfg x y)"
    using c1(3) c2(3) by (auto simp: touches_def)
  then show ?thesis using c1(1) c2(1) rewired_trans [OF c1(2) c2(2)] by auto
qed

lemma connectUnlocked_result:
  assumes "kvc_ok cfg" "i < kvc_n cfg" "\<forall>t \<in> set to. t < kvc_n cfg"
  shows "\<exists>cfg'. connectUnlocked i to cfg = Some cfg' \<and> rewired cfg cfg' \<and>
    (\<forall>x < kvc_n cfg. \<forall>y < kvc_n cfg. wired cfg' x y \<longleftrightarrow> touches i (set to) x y \<or> wired cfg x y)"
  using two_loops [OF assms, of True] by (auto simp: connectUnlocked_def)

lemma disconnectUnlocked_result:
  assumes "kvc_ok cfg" "i < kvc_n cfg" "\<forall>t \<in> set from. t < kvc_n cfg" "length from \<le> kvc_n cfg"
  shows "\<exists>cfg'. disconnectUnlocked i from cfg = Some cfg' \<and> rewired cfg cfg' \<and>
    (\<forall>x < kvc_n cfg. \<forall>y < kvc_n cfg. wired cfg' x y \<longleftrightarrow> \<not> touches i (set from) x y \<and> wired cfg x y)"
proof -
  obtain es where es: "go_index (kvc_endnames cfg) (int i) = Some (Some es)"
    using assms(1,2) by (fastforce simp: kvc_ok_def)
  obtain c1 where c1: "enable_ends False (\<lambda>t. (i, t)) from cfg = Some c1" "rewired cfg c1"
    using enable_ends_result [OF assms(1), of "from" "\<lambda>t. (i, t)" False] assms(2,3) by auto
  have k: "kvc_ok c1" "kvc_n c1 = kvc_n cfg" using rewired_keeps [OF c1(2)] assms(1) by simp_all
  have "disconnectUnlocked i from cfg =
      Option.bind (enable_ends False (\<lambda>t. (i, t)) from cfg) (enable_ends False (\<lambda>t. (t, i)) from)"
    using c1(1) es disable_incoming_eq [OF k(1), of 0 "from" i] k(2) assms(4)
    by (auto simp: disconnectUnlocked_def)
  then show ?thesis using two_loops [OF assms(1-3), of False] by auto
qed

subsection \<open>Partitions\<close>

lemma split_off_result:
  assumes "kvc_ok cfg" "\<forall>t \<in> set p \<union> set q. t < kvc_n cfg" "length q \<le> kvc_n cfg" "set p \<inter> set q = {}" "set is \<subseteq> set p"
  shows "\<exists>cfg'. split_off p q is cfg = Some cfg' \<and> rewired cfg cfg' \<and>
    (\<forall>x < kvc_n cfg. \<forall>y < kvc_n cfg. wired cfg' x y \<longleftrightarrow>
       (\<exists>i \<in> set is. touches i (set p) x y) \<or> (\<forall>i \<in> set is. \<not> touches i (set q) x y) \<and> wired cfg x y)"
  using assms(1-3,5)
proof (induction "is" arbitrary: cfg)
  case (Cons i "is")
  have i: "i < kvc_n cfg" "i \<in> set p" using Cons.prems by auto
  obtain c1 where c1: "disconnectUnlocked i q cfg = Some c1" "rewired cfg c1"
    "\<forall>x < kvc_n cfg. \<forall>y < kvc_n cfg. wired c1 x y \<longleftrightarrow> \<not> touches i (set q) x y \<and> wired cfg x y"
    using disconnectUnlocked_result [OF Cons.prems(1) i(1), of q] Cons.prems(2,3) by auto
  have k1: "kvc_ok c1" "kvc_n c1 = kvc_n cfg" using rewired_keeps [OF c1(2)] Cons.prems(1) by simp_all
  obtain c2 where c2: "connectUnlocked i p c1 = Some c2" "rewired c1 c2"
    "\<forall>x < kvc_n cfg. \<forall>y < kvc_n cfg. wired c2 x y \<longleftrightarrow> touches i (set p) x y \<or> wired c1 x y"
    using connectUnlocked_result [OF k1(1), of i p] k1(2) i(1) Cons.prems(2) by auto
  have k2: "kvc_ok c2" "kvc_n c2 = kvc_n cfg" using rewired_keeps [OF c2(2)] k1 by simp_all
  obtain c3 where c3: "split_off p q is c2 = Some c3" "rewired c2 c3"
    "\<forall>x < kvc_n cfg. \<forall>y < kvc_n cfg. wired c3 x y \<longleftrightarrow>
       (\<exists>i \<in> set is. touches i (set p) x y) \<or> (\<forall>i \<in> set is. \<not> touches i (set q) x y) \<and> wired c2 x y"
    using Cons.IH [OF k2(1)] k2(2) Cons.prems(2-4) by auto
  have apart: "\<not> touches k (set q) x y" if "touches i (set p) x y" "k \<in> set is" for k x y
    using that i(2) Cons.prems(4) assms(4) by (auto simp: touches_def)
  have "\<forall>x < kvc_n cfg. \<forall>y < kvc_n cfg. wired c3 x y \<longleftrightarrow>
       (\<exists>k \<in> set (i # is). touches k (set p) x y) \<or> (\<forall>k \<in> set (i # is). \<not> touches k (set q) x y) \<and> wired cfg x y"
    using c1(3) c2(3) c3(3) apart by auto
  then show ?case
    using c1(1) c2(1) c3(1) rewired_trans [OF rewired_trans [OF c1(2) c2(2)] c3(2)] by auto
qed simp

lemma partition_servers_result:
  assumes "kvc_ok cfg" "\<forall>t \<in> set p1 \<union> set p2. t < kvc_n cfg" "length p1 \<le> kvc_n cfg" "length p2 \<le> kvc_n cfg"
    "set p1 \<inter> set p2 = {}"
  shows "\<exists>cfg'. partition_servers p1 p2 cfg = Some cfg' \<and> rewired cfg cfg' \<and>
    (\<forall>x \<in> set p1 \<union> set p2. \<forall>y \<in> set p1 \<union> set p2. wired cfg' x y \<longleftrightarrow> (x \<in> set p1 \<longleftrightarrow> y \<in> set p1))"
proof -
  obtain c1 where c1: "split_off p1 p2 p1 cfg = Some c1" "rewired cfg c1"
    "\<forall>x < kvc_n cfg. \<forall>y < kvc_n cfg. wired c1 x y \<longleftrightarrow>
       (\<exists>i \<in> set p1. touches i (set p1) x y) \<or> (\<forall>i \<in> set p1. \<not> touches i (set p2) x y) \<and> wired cfg x y"
    using split_off_result [OF assms(1,2,4,5) order_refl] by blast
  have k: "kvc_ok c1" "kvc_n c1 = kvc_n cfg" using rewired_keeps [OF c1(2)] assms(1) by simp_all
  obtain c2 where c2: "split_off p2 p1 p2 c1 = Some c2" "rewired c1 c2"
    "\<forall>x < kvc_n cfg. \<forall>y < kvc_n cfg. wired c2 x y \<longleftrightarrow>
       (\<exists>i \<in> set p2. touches i (set p2) x y) \<or> (\<forall>i \<in> set p2. \<not> touches i (set p1) x y) \<and> wired c1 x y"
    using split_off_result [OF k(1), of p2 p1 p2] k(2) assms(2,3,5) by (auto simp: Un_commute Int_commute)
  have "wired c2 x y \<longleftrightarrow> (x \<in> set p1 \<longleftrightarrow> y \<in> set p1)"
    if xy: "x \<in> set p1 \<union> set p2" "y \<in> set p1 \<union> set p2" for x y
  proof -
    have "x < kvc_n cfg" "y < kvc_n cfg" using xy assms(2) by auto
    then show ?thesis using c1(3) c2(3) xy assms(5) by (auto simp: touches_def)
  qed
  then show ?thesis
    using c1(1) c2(1) rewired_trans [OF c1(2) c2(2)] by (auto simp: partition_servers_def)
qed

lemma place_result:
  assumes "p1 @ p2 = done @ replicate k 0" "length (filter (\<lambda>i. i \<noteq> l) is) \<le> k"
  shows "\<exists>q1 q2. place l is (length done) p1 p2 = Some (q1, q2) \<and> length q1 = length p1 \<and>
    q1 @ q2 = done @ filter (\<lambda>i. i \<noteq> l) is @ replicate (k - length (filter (\<lambda>i. i \<noteq> l) is)) 0"
  using assms
proof (induction "is" arbitrary: p1 p2 "done" k)
  case (Cons i "is")
  show ?case
  proof (cases "i = l")
    case True
    then show ?thesis using Cons.IH [of p1 p2 "done" k] Cons.prems by simp
  next
    case False
    then obtain k' where k: "k = Suc k'" using Cons.prems(2) by (cases k) auto
    let ?j = "length done"
    have len: "length p1 + length p2 = ?j + k" using arg_cong [OF Cons.prems(1), of length] by simp
    have up: "(p1 @ p2)[?j := i] = (done @ [i]) @ replicate k' 0"
      unfolding Cons.prems(1) k by (simp add: list_update_append)
    show ?thesis
    proof (cases "?j < length p1")
      case True
      then have "p1[?j := i] @ p2 = (done @ [i]) @ replicate k' 0" using up by (simp add: list_update_append)
      from Cons.IH [OF this] show ?thesis using True False k Cons.prems(2) by auto
    next
      case wide: False
      then have "p1 @ p2[?j - length p1 := i] = (done @ [i]) @ replicate k' 0" using up by (simp add: list_update_append)
      moreover have "go_set p2 (int ?j - int (length p1)) i = Some (p2[?j - length p1 := i])"
        using wide len k by (auto simp: go_set_eq_Some nat_diff_distrib)
      ultimately show ?thesis using Cons.IH [of p1 "p2[?j - length p1 := i]" "done @ [i]" k'] wide False k Cons.prems(2)
        by auto
    qed
  qed
qed simp

text \<open>
  What \<^verbatim>\<open>make_partition\<close> computes for any number of servers from two on: the servers other than the leader in
  order, the leader last, and for an even number one stray server 0 between them.
\<close>

lemma find_leader_total:
  "None \<notin> set kvs \<Longrightarrow> \<exists>b l. find_leader rf i kvs = Some (b, l) \<and> (l < i + length kvs \<or> l = 0)"
proof (induction rf i kvs rule: find_leader.induct)
  case (3 rf i kv kvs)
  then show ?case by auto
qed auto

lemma partition_around_result:
  assumes "1 < kvc_n cfg" "length (kvservers cfg) = kvc_n cfg" "None \<notin> set (kvservers cfg)"
  shows "\<exists>b l p1 p2. leader_of rf cfg = Some (b, l) \<and> l < kvc_n cfg \<and> partition_around rf cfg = Some (p1, p2) \<and>
    length p1 = kvc_n cfg div 2 + 1 \<and> length p2 = kvc_n cfg div 2 \<and>
    p1 @ p2 = filter (\<lambda>i. i \<noteq> l) [0..<kvc_n cfg] @ (if even (kvc_n cfg) then [0] else []) @ [l]"
proof -
  let ?n = "kvc_n cfg" and ?h = "kvc_n cfg div 2"
  obtain b l where l: "leader_of rf cfg = Some (b, l)" "l < ?n"
    using find_leader_total [OF assms(3), of rf 0] assms(1,2) by (auto simp: leader_of_def)
  let ?others = "filter (\<lambda>i. i \<noteq> l) [0..<?n]"
  have "{i \<in> {0..<?n}. i \<noteq> l} = {0..<?n} - {l}" by auto
  then have len: "length ?others = ?n - 1"
    using l(2) by (simp add: distinct_card [symmetric] del: distinct_card) 
  have room: "?n - Suc 0 \<le> Suc (?h + ?h)" by presburger
  obtain q1 q2 where q: "place l [0..<?n] 0 (replicate (?h + 1) 0) (replicate ?h 0) = Some (q1, q2)" "length q1 = ?h + 1"
    "q1 @ q2 = ?others @ replicate (2 * ?h + 1 - (?n - 1)) 0"
    using place_result [of "replicate (?h + 1) 0" "replicate ?h 0" "[]" "2 * ?h + 1" l "[0..<?n]"] len room
    by (auto simp: replicate_add [symmetric] mult_2)
  have q2: "length q2 = ?h" using arg_cong [OF q(3), of length] q(2) len by simp
  have pos: "0 < ?h" using assms(1) by simp
  let ?z = "if even ?n then [0] else []"
  have z: "replicate (2 * ?h + 1 - (?n - 1)) (0 :: nat) = ?z @ [0]"
  proof (cases "even ?n")
    case True
    then have "2 * ?h + 1 - (?n - 1) = 2" using assms(1) by presburger
    then show ?thesis using True by (simp add: numeral_2_eq_2)
  next
    case False
    then have "2 * ?h + 1 - (?n - 1) = 1" using assms(1) by presburger
    then show ?thesis using False by simp
  qed
  have "\<not> length q1 + ?h - Suc 0 < length q1" using pos by simp
  then have "q1 @ q2[?h - 1 := l] = (q1 @ q2)[length (q1 @ q2) - 1 := l]"
    using q2 pos by (simp add: list_update_append)
  also have "\<dots> = ?others @ ?z @ [l]"
    unfolding q(3) z by (simp add: list_update_append)
  finally have whole: "q1 @ q2[?h - 1 := l] = ?others @ ?z @ [l]" .
  have "go_set q2 (int (length q2) - 1) l = Some (q2[?h - 1 := l])"
    using q2 pos by (auto simp: go_set_eq_Some nat_diff_distrib)
  then have "partition_around rf cfg = Some (q1, q2[?h - 1 := l])"
    using l(1) q(1) by (simp add: partition_around_def)
  then show ?thesis using l q(2) q2 whole by auto
qed

subsection \<open>Starting all servers\<close>

lemma kvc_make_ends_eq: "kvc_make_ends es j rn = make_ends es j rn"
  by (induction es arbitrary: j rn) (auto split: bind_split)

text \<open>The first \<open>i\<close> servers are started; their ends have different names, all known to the network.\<close>

definition started_to :: "nat \<Rightarrow> ('s, 'o, 'b, 'm) harness_scheme \<Rightarrow> bool" where
  "started_to i cfg \<longleftrightarrow> length (kvc_endnames cfg) = kvc_n cfg \<and> length (kvservers cfg) = kvc_n cfg \<and>
     (\<forall>k < kvc_n cfg. if k < i then kvservers cfg ! k \<noteq> None \<and> (\<exists>es. kvc_endnames cfg ! k = Some es \<and> length es = kvc_n cfg)
        else kvc_endnames cfg ! k = None) \<and>
     (\<forall>a b a' b' e. kvc_name cfg a b = Some e \<longrightarrow> kvc_name cfg a' b' = Some e \<longrightarrow> a = a' \<and> b = b') \<and>
     (\<forall>a b e. kvc_name cfg a b = Some e \<longrightarrow> e \<in> ends (kvc_net cfg))"

lemma started_none:
  assumes "kvc_endnames cfg = replicate (kvc_n cfg) None" "length (kvservers cfg) = kvc_n cfg"
  shows "started_to 0 cfg"
proof -
  have "kvc_name cfg a b = None" for a b using assms(1) by (simp add: kvc_name_def go_index_def)
  then show ?thesis using assms by (simp add: started_to_def)
qed

lemma StartServer_started:
  assumes s: "started_to i cfg" and "i < kvc_n cfg" and len: "length names = kvc_n cfg"
    and "start_server start nil names srv i cfg = Some (cfg', msg)"
  shows "started_to (Suc i) cfg' \<and> kvc_n cfg' = kvc_n cfg"
proof -
  obtain rn where rn: "make_ends names 0 (kvc_net cfg) = Some rn"
    using assms(4) by (auto simp: start_server_def kvc_make_ends_eq Let_def split: bind_splits)
  note m = make_ends_result [OF rn]
  obtain kv where f: "kvc_endnames cfg' = (kvc_endnames cfg)[i := Some names]" "kvservers cfg' = (kvservers cfg)[i := Some kv]"
    "kvc_n cfg' = kvc_n cfg" "ends (kvc_net cfg') = ends rn"
    using assms(4) rn
    by (auto simp: start_server_def kvc_make_ends_eq Let_def kvc_alloc_def AddServer_def split: prod.splits)
  have z: "length (kvc_endnames cfg) = kvc_n cfg" "length (kvservers cfg) = kvc_n cfg"
    using s by (simp_all add: started_to_def)
  have name: "kvc_name cfg' a b = (if a = i then go_index names (int b) else kvc_name cfg a b)" for a b
    using f(1) z(1) assms(2) by (auto simp: kvc_name_def go_index_def nth_list_update)
  have known: "kvc_name cfg a b = Some e \<Longrightarrow> e \<in> ends (kvc_net cfg)" for a b e using s by (simp add: started_to_def)
  have own: "go_index names (int b) = Some e \<Longrightarrow> e \<in> set names \<and> b < length names \<and> e = names ! b" for b e
    by (auto simp: go_index_def split: if_splits)
  have "a = a' \<and> b = b'" if "kvc_name cfg' a b = Some e" "kvc_name cfg' a' b' = Some e" for a b a' b' e
  proof -
    have old: "kvc_name cfg a b = Some e \<Longrightarrow> kvc_name cfg a' b' = Some e \<Longrightarrow> a = a' \<and> b = b'"
      using s by (auto simp: started_to_def)
    have new: "b = b'" if "go_index names (int b) = Some e" "go_index names (int b') = Some e"
      using own [OF that(1)] own [OF that(2)] m nth_eq_iff_index_eq [of names b b'] by auto
    have cross: "kvc_name cfg y z \<noteq> Some e" if "go_index names (int x) = Some e" for x y z
      using own [OF that] known [of y z e] m by auto
    show ?thesis
    proof (cases "a = i"; cases "a' = i")
      assume "a \<noteq> i" "a' \<noteq> i"
      then show ?thesis using that old by (simp add: name)
    qed (use that new cross in \<open>simp_all add: name\<close>)
  qed
  moreover have "e \<in> ends (kvc_net cfg')" if "kvc_name cfg' a b = Some e" for a b e
  proof (cases "a = i")
    case True
    then have "e \<in> set names" using that own [of b e] by (simp add: name)
    then show ?thesis using m f(4) by simp
  next
    case False
    then have "e \<in> ends (kvc_net cfg)" using that known [of a b e] by (simp add: name)
    then show ?thesis using m f(4) by simp
  qed
  moreover have "if k < Suc i then kvservers cfg' ! k \<noteq> None \<and> (\<exists>es. kvc_endnames cfg' ! k = Some es \<and> length es = kvc_n cfg')
        else kvc_endnames cfg' ! k = None" if k: "k < kvc_n cfg'" for k
  proof (cases "k = i")
    case True
    then show ?thesis using f z assms(2) len by simp
  next
    case False
    have "if k < i then kvservers cfg ! k \<noteq> None \<and> (\<exists>es. kvc_endnames cfg ! k = Some es \<and> length es = kvc_n cfg)
        else kvc_endnames cfg ! k = None" using s k f(3) by (simp add: started_to_def)
    then show ?thesis using False f by (cases "k < i") (simp_all add: less_Suc_eq)
  qed
  moreover have "length (kvc_endnames cfg') = kvc_n cfg'" "length (kvservers cfg') = kvc_n cfg'" using f z by simp_all
  ultimately have "started_to (Suc i) cfg'" unfolding started_to_def by blast
  then show ?thesis using f(3) ..
qed

lemma start_each_started:
  assumes "started_to i cfg" "i + length drawn \<le> kvc_n cfg" "drawn_ok (kvc_n cfg) drawn" "start_each start nil drawn i cfg = Some cfg'"
  shows "started_to (i + length drawn) cfg' \<and> kvc_n cfg' = kvc_n cfg"
  using assms
proof (induction start nil drawn i cfg rule: start_each.induct)
  case (2 start nil names srv rest i cfg)
  obtain c1 msg where c1: "start_server start nil names srv i cfg = Some (c1, msg)" "start_each start nil rest (Suc i) c1 = Some cfg'"
    using "2.prems"(4) by (auto split: bind_splits)
  have s: "started_to (Suc i) c1" "kvc_n c1 = kvc_n cfg"
    using StartServer_started [OF "2.prems"(1) _ _ c1(1)] "2.prems"(2,3) by (simp_all add: drawn_ok_def)
  have d: "drawn_ok (kvc_n c1) rest" "Suc i + length rest \<le> kvc_n c1"
    using "2.prems"(2,3) s(2) by (simp_all add: drawn_ok_def)
  show ?case
    using "2.IH" [OF c1(1) refl s(1) d(2,1) c1(2)] s(2) by simp
qed simp

lemma StartServer_total:
  assumes "distinct names" "set names \<inter> ends (kvc_net cfg) = {}"
  shows "\<exists>cfg' msg. start_server start nil names srv i cfg = Some (cfg', msg) \<and>
    ends (kvc_net cfg') = ends (kvc_net cfg) \<union> set names"
proof -
  obtain rn where rn: "make_ends names 0 (kvc_net cfg) = Some rn" using make_ends_total [OF assms] by blast
  then show ?thesis
    using make_ends_result [OF rn]
    by (simp add: start_server_def kvc_make_ends_eq Let_def kvc_alloc_def AddServer_def split: prod.split)
qed

lemma start_each_total:
  assumes "distinct (concat (map fst drawn))" "set (concat (map fst drawn)) \<inter> ends (kvc_net cfg) = {}"
  shows "\<exists>cfg'. start_each start nil drawn i cfg = Some cfg'"
  using assms
proof (induction start nil drawn i cfg rule: start_each.induct)
  case (2 start nil names srv rest i cfg)
  obtain c1 msg where c1: "start_server start nil names srv i cfg = Some (c1, msg)"
    "ends (kvc_net c1) = ends (kvc_net cfg) \<union> set names"
    using StartServer_total [of names cfg start nil srv i] "2.prems" by auto
  have "\<exists>cfg'. start_each start nil rest (Suc i) c1 = Some cfg'"
    using "2.prems" c1(2) by (intro "2.IH" [OF c1(1) refl]) auto
  then show ?case using c1(1) by simp
qed simp

definition kvc_ready :: "('s, 'o, 'b, 'm) harness_scheme \<Rightarrow> bool" where
  "kvc_ready cfg \<longleftrightarrow> kvc_ok cfg \<and> length (kvservers cfg) = kvc_n cfg \<and> None \<notin> set (kvservers cfg)"

lemma started_ready: "started_to (kvc_n cfg) cfg \<Longrightarrow> kvc_ready cfg"
  by (auto simp: started_to_def kvc_ready_def kvc_ok_def in_set_conv_nth)

lemma connect_each_result:
  assumes "kvc_ok cfg" "\<forall>i \<in> set is. i < kvc_n cfg"
  shows "\<exists>cfg'. connect_each is cfg = Some cfg' \<and> rewired cfg cfg' \<and>
    (\<forall>x < kvc_n cfg. \<forall>y < kvc_n cfg. wired cfg' x y \<longleftrightarrow> x \<in> set is \<or> y \<in> set is \<or> wired cfg x y)"
  using assms
proof (induction "is" arbitrary: cfg)
  case (Cons i "is")
  obtain c1 where c1: "connectUnlocked i (kvc_All cfg) cfg = Some c1" "rewired cfg c1"
    "\<forall>x < kvc_n cfg. \<forall>y < kvc_n cfg. wired c1 x y \<longleftrightarrow> touches i (set (kvc_All cfg)) x y \<or> wired cfg x y"
    using connectUnlocked_result [OF Cons.prems(1), of i "kvc_All cfg"] Cons.prems(2) by (auto simp: kvc_All_def)
  have k: "kvc_ok c1" "kvc_n c1 = kvc_n cfg" using rewired_keeps [OF c1(2)] Cons.prems(1) by simp_all
  obtain c2 where c2: "connect_each is c1 = Some c2" "rewired c1 c2"
    "\<forall>x < kvc_n cfg. \<forall>y < kvc_n cfg. wired c2 x y \<longleftrightarrow> x \<in> set is \<or> y \<in> set is \<or> wired c1 x y"
    using Cons.IH [OF k(1)] k(2) Cons.prems(2) by auto
  have "\<forall>x < kvc_n cfg. \<forall>y < kvc_n cfg. wired c2 x y \<longleftrightarrow> x \<in> set (i # is) \<or> y \<in> set (i # is) \<or> wired cfg x y"
    using c1(3) c2(3) by (auto simp: touches_def kvc_All_def)
  then show ?case using c1(1) c2(1) rewired_trans [OF c1(2) c2(2)] by auto
qed simp

lemma rewired_ready: "rewired cfg cfg' \<Longrightarrow> kvc_ready cfg' = kvc_ready cfg"
  by (auto simp: rewired_def kvc_ready_def)

lemma launch_ready:
  assumes "launch start nil drawn unreliable cfg0 = Some cfg" "length drawn = kvc_n cfg0" "drawn_ok (kvc_n cfg0) drawn"
    and "kvc_endnames cfg0 = replicate (kvc_n cfg0) None" "length (kvservers cfg0) = kvc_n cfg0"
  shows "kvc_ready cfg \<and> kvc_n cfg = kvc_n cfg0 \<and> (\<forall>x < kvc_n cfg0. \<forall>y < kvc_n cfg0. wired cfg x y)"
proof -
  let ?n = "kvc_n cfg0"
  obtain c1 c2 where c: "start_each start nil drawn 0 cfg0 = Some c1" "ConnectAll c1 = Some c2"
    "cfg = c2\<lparr>kvc_net := Reliable (\<not> unreliable) (kvc_net c2)\<rparr>"
    using assms(1,2) by (auto simp: launch_def Let_def split: bind_splits)
  have "started_to 0 cfg0" using started_none assms(4,5) by blast
  from start_each_started [OF this _ _ c(1)] have s: "started_to ?n c1" "kvc_n c1 = ?n"
    using assms(2,3) by simp_all
  then have r1: "kvc_ready c1" using started_ready by metis
  then have "kvc_ok c1" by (simp add: kvc_ready_def)
  then have r2: "rewired c1 c2" "\<forall>x < ?n. \<forall>y < ?n. wired c2 x y"
    using connect_each_result [of c1 "[0..<?n]"] c(2) s(2) by (auto simp: ConnectAll_def)
  have "rewired c1 cfg" using r2(1) c(3) by (auto simp: rewired_def)
  then have "kvc_ready cfg" "kvc_n cfg = ?n" using rewired_ready [of c1 cfg] r1 rewired_keeps [of c1 cfg] s(2) by auto
  then show ?thesis using r2(2) c(3) by (simp add: wired_def Reliable_def)
qed

lemma launch_total:
  assumes "length drawn = kvc_n cfg0" "drawn_ok (kvc_n cfg0) drawn" "distinct (concat (map fst drawn))"
    and "kvc_endnames cfg0 = replicate (kvc_n cfg0) None" "length (kvservers cfg0) = kvc_n cfg0" "kvc_net cfg0 = MakeNetwork"
  shows "\<exists>cfg. launch start nil drawn unreliable cfg0 = Some cfg"
proof -
  have "\<exists>c1. start_each start nil drawn 0 cfg0 = Some c1"
    by (rule start_each_total [OF assms(3)]) (simp add: assms(6) MakeNetwork_def)
  then obtain c1 where c1: "start_each start nil drawn 0 cfg0 = Some c1" ..
  have "started_to 0 cfg0" using started_none assms(4,5) by blast
  from start_each_started [OF this _ _ c1] have "started_to (kvc_n cfg0) c1" "kvc_n c1 = kvc_n cfg0" using assms(1,2) by simp_all
  then have "kvc_ok c1" using started_ready [of c1] by (simp add: kvc_ready_def)
  then obtain c2 where "ConnectAll c1 = Some c2"
    using connect_each_result [of c1 "[0..<kvc_n c1]"] by (auto simp: ConnectAll_def)
  then show ?thesis using c1 assms(1) by (simp add: launch_def)
qed

text \<open>The split of \<^verbatim>\<open>make_partition\<close> and what \<^verbatim>\<open>partition\<close> makes of it, for any kind of server.\<close>

lemma partition_around_splits:
  assumes "kvc_ready cfg" and "odd (kvc_n cfg)" and "1 < kvc_n cfg"
  shows "\<exists>b l p1 p2 cfg'. leader_of rf cfg = Some (b, l) \<and> partition_around rf cfg = Some (p1, p2) \<and>
    partition_servers p1 p2 cfg = Some cfg' \<and>
    mset (p1 @ p2) = mset [0..<kvc_n cfg] \<and> length p2 < length p1 \<and> l \<in> set p2 \<and>
    (\<forall>x < kvc_n cfg. \<forall>y < kvc_n cfg. \<exists>e. kvc_name cfg' x y = Some e \<and>
       (enabled (kvc_net cfg') e \<longleftrightarrow> (x \<in> set p1 \<longleftrightarrow> y \<in> set p1)))"
proof -
  let ?n = "kvc_n cfg"
  have ok: "kvc_ok cfg" using assms(1) by (simp add: kvc_ready_def)
  obtain b l p1 p2 where p: "leader_of rf cfg = Some (b, l)" "l < ?n" "partition_around rf cfg = Some (p1, p2)"
    "length p1 = ?n div 2 + 1" "length p2 = ?n div 2" "p1 @ p2 = filter (\<lambda>i. i \<noteq> l) [0..<?n] @ [l]"
    using partition_around_result [OF assms(3), of rf] assms(1,2) by (auto simp: kvc_ready_def)
  have d: "distinct (p1 @ p2)" "set (p1 @ p2) = {0..<?n}" unfolding p(6) using p(2) by auto
  then have "mset (p1 @ p2) = mset [0..<?n]" by (metis distinct_upt set_eq_iff_mset_eq_distinct set_upt)
  moreover have "l \<in> set p2"
  proof -
    have "p2 \<noteq> []" using p(5) assms(3) by auto
    then have "last p2 = last (p1 @ p2)" by simp
    also have "\<dots> = l" unfolding p(6) by simp
    finally show ?thesis using \<open>p2 \<noteq> []\<close> last_in_set by metis
  qed
  moreover have half: "Suc (?n div 2) \<le> ?n" using assms(3) by presburger
  moreover obtain cfg' where c: "partition_servers p1 p2 cfg = Some cfg'" "rewired cfg cfg'"
    "\<forall>x \<in> set p1 \<union> set p2. \<forall>y \<in> set p1 \<union> set p2. wired cfg' x y \<longleftrightarrow> (x \<in> set p1 \<longleftrightarrow> y \<in> set p1)"
    using partition_servers_result [OF ok, of p1 p2] d p(4,5) half by auto
  moreover have "\<exists>e. kvc_name cfg' x y = Some e \<and> (enabled (kvc_net cfg') e \<longleftrightarrow> (x \<in> set p1 \<longleftrightarrow> y \<in> set p1))"
    if "x < ?n" "y < ?n" for x y
  proof -
    have k: "kvc_ok cfg'" "kvc_n cfg' = ?n" using rewired_keeps [OF c(2)] ok by simp_all
    have "x \<in> set p1 \<union> set p2" "y \<in> set p1 \<union> set p2" using that d(2) by auto
    then have "wired cfg' x y \<longleftrightarrow> (x \<in> set p1 \<longleftrightarrow> y \<in> set p1)" using c(3) by blast
    then show ?thesis using kvc_name_ok [OF k(1)] that k(2) by (simp add: wired_def)
  qed
  moreover have "length p2 < length p1" using p(4,5) by simp
  ultimately show ?thesis using p(1,3) by blast
qed

definition three_drawn :: "(string list \<times> nat) list" where
  "three_drawn = [([''a'', ''b'', ''c''], 0), ([''d'', ''e'', ''f''], 1), ([''g'', ''h'', ''i''], 2)]"

lemma three_drawn_ok: "length three_drawn = 3" "drawn_ok 3 three_drawn" "distinct (concat (map fst three_drawn))"
  by (simp_all add: three_drawn_def drawn_ok_def)

end
