(* ===== verification/KV_Tester_Proofs.thy ===== *)
theory KV_Tester_Proofs
  imports KV_Tester Service_Tester_Proofs
begin

text \<open>The partitions of the key/value harness.\<close>

text \<open>
  C32. Partitions. With an odd number of at least three servers, all running, \<^verbatim>\<open>make_partition\<close> returns a
  majority and a minority that together are all the servers, each once, with the leader it found in the
  minority; after \<^verbatim>\<open>partition\<close> of the two, a server can send to another exactly when both are on the
  same side.
\<close>

theorem partition_splits:
  assumes "kvc_ready cfg" and "odd (kvc_n cfg)" and "1 < kvc_n cfg"
  shows "\<exists>b l p1 p2 cfg'. Leader cfg = Some (b, l) \<and> make_partition cfg = Some (p1, p2) \<and>
    partition_servers p1 p2 cfg = Some cfg' \<and>
    mset (p1 @ p2) = mset [0..<kvc_n cfg] \<and> length p2 < length p1 \<and> l \<in> set p2 \<and>
    (\<forall>x < kvc_n cfg. \<forall>y < kvc_n cfg. \<exists>e. kvc_name cfg' x y = Some e \<and>
       (enabled (kvc_net cfg') e \<longleftrightarrow> (x \<in> set p1 \<longleftrightarrow> y \<in> set p1)))"
  unfolding Leader_def make_partition_def by (rule partition_around_splits [OF assms])

theorem partition_splits_witness:
  "\<exists>cfg p1 p2. kvc_make_config (\<lambda>_. MakePersister []) three_drawn 3 False (-1) = Some cfg \<and>
     kvc_ready cfg \<and> make_partition cfg = Some (p1, p2) \<and> mset (p1 @ p2) = {#0, 1, 2#} \<and> length p2 < length p1"
proof -
  obtain cfg where c: "kvc_make_config (\<lambda>_. MakePersister []) three_drawn 3 False (-1) = Some cfg"
    using launch_total [OF _ _ three_drawn_ok(3)] three_drawn_ok unfolding kvc_make_config_def by (metis (no_types, lifting) harness.select_convs(1,2,3,5) length_replicate)
  have r: "kvc_ready cfg" "kvc_n cfg = 3"
    using launch_ready [OF c [unfolded kvc_make_config_def]] three_drawn_ok by simp_all
  have "mset [0..<3] = {#0, 1, 2 :: nat#}" by (simp add: upt_rec)
  then show ?thesis
    using partition_splits [OF r(1)] r c by auto
qed

end
