(* ===== verification/SM_Tester.thy ===== *)
theory SM_Tester
  imports Shard_Master Service_Tester_Proofs
begin

text \<open>
  The harness of the shard master tests (\<^verbatim>\<open>src/src/shardmaster/config.go\<close>): the operations of
  \<open>Service_Tester\<close>, which the file repeats for its own configuration, with shard masters and their clerks.
\<close>

type_synonym sm_config = "(unit ShardMaster, sm_Op, unit) harness"

definition smc_cleanup :: "sm_config \<Rightarrow> sm_config" where
  "smc_cleanup cfg = kill_servers sm_Kill cfg"

definition smc_random_handles :: "(nat \<Rightarrow> nat) \<Rightarrow> string list \<Rightarrow> string list" where
  "smc_random_handles = random_handles"

definition smc_LogSize :: "(sm_Op gob list \<Rightarrow> int) \<Rightarrow> sm_config \<Rightarrow> int option" where
  "smc_LogSize = LogSize"

definition smc_connectUnlocked :: "nat \<Rightarrow> nat list \<Rightarrow> sm_config \<Rightarrow> sm_config option" where
  "smc_connectUnlocked = connectUnlocked"

definition smc_disconnectUnlocked :: "nat \<Rightarrow> nat list \<Rightarrow> sm_config \<Rightarrow> sm_config option" where
  "smc_disconnectUnlocked = disconnectUnlocked"

definition smc_All :: "sm_config \<Rightarrow> nat list" where
  "smc_All = kvc_All"

definition smc_ConnectAll :: "sm_config \<Rightarrow> sm_config option" where
  "smc_ConnectAll = ConnectAll"

definition smc_partition :: "nat list \<Rightarrow> nat list \<Rightarrow> sm_config \<Rightarrow> sm_config option" where
  "smc_partition = partition_servers"

definition smc_makeClient :: "string list \<Rightarrow> (nat \<Rightarrow> nat) \<Rightarrow> int \<Rightarrow> nat \<Rightarrow> nat list \<Rightarrow> sm_config \<Rightarrow>
    (sm_Clerk \<times> string list \<times> sm_config) option" where
  "smc_makeClient = make_client sm_MakeClerk"

definition smc_deleteClient :: "nat \<Rightarrow> sm_config \<Rightarrow> sm_config" where
  "smc_deleteClient = deleteClient"

definition smc_ConnectClient :: "nat \<Rightarrow> nat list \<Rightarrow> sm_config \<Rightarrow> sm_config option" where
  "smc_ConnectClient = ConnectClient"

definition smc_DisconnectClient :: "nat \<Rightarrow> nat list \<Rightarrow> sm_config \<Rightarrow> sm_config option" where
  "smc_DisconnectClient = DisconnectClient"

definition smc_ShutdownServer :: "nat \<Rightarrow> sm_config \<Rightarrow> sm_config option" where
  "smc_ShutdownServer = ShutdownServer"

definition smc_start :: "sm_config \<Rightarrow> nat \<Rightarrow> (sm_Op, unit) Persister \<Rightarrow> unit ShardMaster \<times> (sm_Op, unit) ApplyMsg" where
  "smc_start cfg i ps = sm_StartServer (kvc_n cfg) (int i) ps"

definition smc_StartServer :: "string list \<Rightarrow> nat \<Rightarrow> nat \<Rightarrow> sm_config \<Rightarrow> (sm_config \<times> (sm_Op, unit) ApplyMsg) option" where
  "smc_StartServer names srv i cfg = start_server smc_start () names srv i cfg"

definition smc_Leader :: "sm_config \<Rightarrow> (bool \<times> nat) option" where
  "smc_Leader cfg = leader_of sm_rf cfg"

definition smc_make_partition :: "sm_config \<Rightarrow> (nat list \<times> nat list) option" where
  "smc_make_partition cfg = partition_around sm_rf cfg"

definition smc_make_config :: "(nat \<Rightarrow> (sm_Op, unit) Persister) \<Rightarrow> (string list \<times> nat) list \<Rightarrow> nat \<Rightarrow> bool \<Rightarrow> sm_config option" where
  "smc_make_config d drawn n unreliable =
     launch smc_start () drawn unreliable
       \<lparr>kvc_net = MakeNetwork, kvc_n = n, kvservers = replicate n None, kvc_saved = replicate n None,
        kvc_endnames = replicate n None, clerks = Map.empty, nextClientId = int n + 1000, kvc_disk = d, kvc_fresh = 0\<rparr>"

text \<open>
  A new configuration of the shard master tests: every server runs, every server can send to every server,
  and its partitions split as those of the key/value harness do.
\<close>

lemma smc_make_config_ready:
  assumes "length drawn = n" "drawn_ok n drawn" "distinct (concat (map fst drawn))"
  obtains cfg where "smc_make_config d drawn n unreliable = Some cfg" "kvc_ready cfg" "kvc_n cfg = n"
    "\<forall>x < n. \<forall>y < n. wired cfg x y"
proof -
  let ?c0 = "\<lparr>kvc_net = MakeNetwork, kvc_n = n, kvservers = replicate n None, kvc_saved = replicate n None,
        kvc_endnames = replicate n None, clerks = Map.empty, nextClientId = int n + 1000, kvc_disk = d, kvc_fresh = 0\<rparr>"
  obtain cfg where c: "launch smc_start () drawn unreliable ?c0 = Some cfg"
    using launch_total [of drawn ?c0 smc_start "()" unreliable] assms by auto
  moreover have "kvc_ready cfg \<and> kvc_n cfg = n \<and> (\<forall>x < n. \<forall>y < n. wired cfg x y)"
    using launch_ready [OF c] assms(1,2) by simp
  ultimately show ?thesis using that by (simp add: smc_make_config_def)
qed

lemma smc_partition_splits:
  assumes "kvc_ready cfg" and "odd (kvc_n cfg)" and "1 < kvc_n cfg"
  shows "\<exists>b l p1 p2 cfg'. smc_Leader cfg = Some (b, l) \<and> smc_make_partition cfg = Some (p1, p2) \<and>
    smc_partition p1 p2 cfg = Some cfg' \<and>
    mset (p1 @ p2) = mset [0..<kvc_n cfg] \<and> length p2 < length p1 \<and> l \<in> set p2 \<and>
    (\<forall>x < kvc_n cfg. \<forall>y < kvc_n cfg. \<exists>e. kvc_name cfg' x y = Some e \<and>
       (enabled (kvc_net cfg') e \<longleftrightarrow> (x \<in> set p1 \<longleftrightarrow> y \<in> set p1)))"
  unfolding smc_Leader_def smc_make_partition_def smc_partition_def by (rule partition_around_splits [OF assms])

end
