(* ===== verification/Shard_Tester.thy ===== *)
theory Shard_Tester
  imports Shard_KV Lab_Rpc Map_Reduce
begin

text \<open>
  The harness of the sharded key/value tests (\<^verbatim>\<open>src/src/shardkv/config.go\<close>): three shard masters, groups of
  servers, clerks that look up a server's end by name. \<open>None\<close> is a panic or a fatal error.

  \<open>draw k\<close> is the \<open>k\<close>-th string \<^verbatim>\<open>randstring\<close> returns; the configuration counts the strings drawn. Persisters
  and server objects are addresses, taken from one counter.
\<close>

subsection \<open>Data\<close>

record 'b group =
  g_gid :: int
  g_servers :: "'b ShardKV option list"
  g_saved :: "nat option list"
  g_endnames :: "string list option list"
  g_mendnames :: "string list option list"

record 'b sk_config =
  skc_net :: "(string, string) Network"
  nmasters :: nat
  masterservers :: "unit ShardMaster option list"
  mck :: "sm_Clerk option"
  ngroups :: nat
  skc_n :: nat
  groups :: "'b group list"
  skc_clerks :: "nat \<rightharpoonup> string list"
  skc_nextClientId :: int
  skc_maxraftstate :: int
  skc_disk :: "nat \<Rightarrow> (unit, 'b) Persister"
  skc_fresh :: nat
  skc_drawn :: nat

subsection \<open>Names\<close>

definition Itoa_int :: "int \<Rightarrow> string" where
  "Itoa_int n = (if n < 0 then ''-'' @ Itoa (nat (- n)) else Itoa (nat n))"

definition mastername :: "nat \<Rightarrow> string" where
  "mastername i = ''master'' @ Itoa i"

definition servername :: "int \<Rightarrow> nat \<Rightarrow> string" where
  "servername gid i = ''server-'' @ Itoa_int gid @ ''-'' @ Itoa i"

definition randstring :: "(nat \<Rightarrow> string) \<Rightarrow> 'b sk_config \<Rightarrow> string \<times> 'b sk_config" where
  "randstring draw cfg = (draw (skc_drawn cfg), cfg\<lparr>skc_drawn := skc_drawn cfg + 1\<rparr>)"

text \<open>
  An end with a fresh name, connected and enabled: the body of every loop that makes ends, and the
  function that clerks and servers are given to reach a server by name.
\<close>

definition make_end :: "(nat \<Rightarrow> string) \<Rightarrow> string \<Rightarrow> 'b sk_config \<Rightarrow> (string \<times> 'b sk_config) option" where
  "make_end draw sn cfg =
     do { let (name, cfg1) = randstring draw cfg;
          rn \<leftarrow> MakeEnd name (skc_net cfg1);
          Some (name, cfg1\<lparr>skc_net := Enable name True (Connect name sn rn)\<rparr>) }"

fun link_all :: "(nat \<Rightarrow> string) \<Rightarrow> string list \<Rightarrow> 'b sk_config \<Rightarrow> (string list \<times> 'b sk_config) option" where
  "link_all draw [] cfg = Some ([], cfg)"
| "link_all draw (sn # sns) cfg =
     do { (name, cfg1) \<leftarrow> make_end draw sn cfg;
          (names, cfg2) \<leftarrow> link_all draw sns cfg1;
          Some (name # names, cfg2) }"

definition master_names :: "'b sk_config \<Rightarrow> string list" where
  "master_names cfg = map mastername [0..<nmasters cfg]"

subsection \<open>Clerks\<close>

text \<open>The loop of \<^verbatim>\<open>makeClient\<close>: its array of names has a place per server of a group, not per master.\<close>

fun clerk_ends :: "(nat \<Rightarrow> string) \<Rightarrow> nat list \<Rightarrow> string list \<Rightarrow> 'b sk_config \<Rightarrow> (string list \<times> 'b sk_config) option" where
  "clerk_ends draw [] endnames cfg = Some (endnames, cfg)"
| "clerk_ends draw (j # js) endnames cfg =
     do { (name, cfg1) \<leftarrow> make_end draw (mastername j) cfg;
          endnames' \<leftarrow> go_set endnames (int j) name;
          clerk_ends draw js endnames' cfg1 }"

definition sk_makeClient :: "(nat \<Rightarrow> string) \<Rightarrow> int \<Rightarrow> nat \<Rightarrow> 'b sk_config \<Rightarrow> (sk_Clerk \<times> 'b sk_config) option" where
  "sk_makeClient draw rand ck cfg =
     do { (endnames, cfg1) \<leftarrow> clerk_ends draw [0..<nmasters cfg] (replicate (skc_n cfg) []) cfg;
          Some (sk_MakeClerk (nmasters cfg) rand,
            cfg1\<lparr>skc_clerks := (skc_clerks cfg1)(ck \<mapsto> endnames), skc_nextClientId := skc_nextClientId cfg1 + 1\<rparr>) }"

definition sk_deleteClient :: "nat \<Rightarrow> 'b sk_config \<Rightarrow> 'b sk_config" where
  "sk_deleteClient ck cfg = cfg\<lparr>skc_clerks := (skc_clerks cfg)(ck := None)\<rparr>"

subsection \<open>Servers\<close>

definition skc_alloc :: "(unit, 'b) Persister \<Rightarrow> 'b sk_config \<Rightarrow> nat \<times> 'b sk_config" where
  "skc_alloc ps cfg = (skc_fresh cfg, cfg\<lparr>skc_disk := (skc_disk cfg)(skc_fresh cfg := ps), skc_fresh := skc_fresh cfg + 1\<rparr>)"

definition add_server :: "string \<Rightarrow> 'b sk_config \<Rightarrow> 'b sk_config" where
  "add_server sn cfg = cfg\<lparr>skc_net := AddServer sn (skc_fresh cfg) (skc_net cfg), skc_fresh := skc_fresh cfg + 1\<rparr>"

definition set_group :: "nat \<Rightarrow> 'b group \<Rightarrow> 'b sk_config \<Rightarrow> 'b sk_config" where
  "set_group gi gg cfg = cfg\<lparr>groups := (groups cfg)[gi := gg]\<rparr>"

text \<open>A loop that disables the ends of a list.\<close>

definition disable_all :: "string list \<Rightarrow> (string, string) Network \<Rightarrow> (string, string) Network" where
  "disable_all names rn = foldl (\<lambda>r name. Enable name False r) rn names"

definition skc_ShutdownServer :: "nat \<Rightarrow> nat \<Rightarrow> 'b sk_config \<Rightarrow> 'b sk_config option" where
  "skc_ShutdownServer gi i cfg =
     do { gg \<leftarrow> go_index (groups cfg) (int gi);
          es \<leftarrow> go_index (g_endnames gg) (int i);
          let out = (case es of None \<Rightarrow> [] | Some names \<Rightarrow> names);
          names \<leftarrow> (if length (g_servers gg) \<le> length out then Some (take (length (g_servers gg)) out) else None);
          ms \<leftarrow> go_index (g_mendnames gg) (int i);
          let mnames = (case ms of None \<Rightarrow> [] | Some l \<Rightarrow> l);
          let cfg1 = cfg\<lparr>skc_net := DeleteServer (servername (g_gid gg) i) (disable_all (names @ mnames) (skc_net cfg))\<rparr>;
          old \<leftarrow> go_index (g_saved gg) (int i);
          let (saved', cfg2) = (case old of
              None \<Rightarrow> (g_saved gg, cfg1)
            | Some a \<Rightarrow> (case skc_alloc (Persister_Copy (skc_disk cfg1 a)) cfg1 of (a', c) \<Rightarrow> ((g_saved gg)[i := Some a'], c)));
          kv \<leftarrow> go_index (g_servers gg) (int i);
          Some (set_group gi (gg\<lparr>g_saved := saved', g_servers := (g_servers gg)[i := None]\<rparr>) cfg2) }"

fun shutdown_each :: "nat \<Rightarrow> nat list \<Rightarrow> 'b sk_config \<Rightarrow> 'b sk_config option" where
  "shutdown_each gi [] cfg = Some cfg"
| "shutdown_each gi (i # is) cfg = Option.bind (skc_ShutdownServer gi i cfg) (shutdown_each gi is)"

definition ShutdownGroup :: "nat \<Rightarrow> 'b sk_config \<Rightarrow> 'b sk_config option" where
  "ShutdownGroup gi cfg = shutdown_each gi [0..<skc_n cfg] cfg"

fun cleanup_groups :: "nat list \<Rightarrow> 'b sk_config \<Rightarrow> 'b sk_config option" where
  "cleanup_groups [] cfg = Some cfg"
| "cleanup_groups (gi # gis) cfg = Option.bind (ShutdownGroup gi cfg) (cleanup_groups gis)"

definition skc_cleanup :: "'b sk_config \<Rightarrow> 'b sk_config option" where
  "skc_cleanup cfg = cleanup_groups [0..<ngroups cfg] cfg"

text \<open>
  \<^verbatim>\<open>StartServer\<close>. The names of the ends to the group are drawn before the first of them is made; that and the
  order of the two arrays' updates make no difference to the result.
\<close>

definition skc_StartServer :: "(nat \<Rightarrow> string) \<Rightarrow> 'b \<Rightarrow> nat \<Rightarrow> nat \<Rightarrow> 'b sk_config \<Rightarrow> 'b sk_config option" where
  "skc_StartServer draw nil gi i cfg =
     do { gg \<leftarrow> go_index (groups cfg) (int gi);
          (names, cfg1) \<leftarrow> link_all draw (map (servername (g_gid gg)) [0..<skc_n cfg]) cfg;
          endnames' \<leftarrow> go_set (g_endnames gg) (int i) (Some names);
          (mnames, cfg2) \<leftarrow> link_all draw (master_names cfg) cfg1;
          mendnames' \<leftarrow> go_set (g_mendnames gg) (int i) (Some mnames);
          old \<leftarrow> go_index (g_saved gg) (int i);
          let (a, cfg3) = skc_alloc (case old of None \<Rightarrow> MakePersister nil | Some a \<Rightarrow> Persister_Copy (skc_disk cfg2 a)) cfg2;
          let (kv, _) = sk_StartServer (skc_n cfg) (int i) (skc_disk cfg3 a) (skc_maxraftstate cfg) (g_gid gg) (nmasters cfg);
          servers' \<leftarrow> go_set (g_servers gg) (int i) (Some kv);
          Some (add_server (servername (g_gid gg) i) (set_group gi
            (gg\<lparr>g_endnames := endnames', g_mendnames := mendnames', g_saved := (g_saved gg)[i := Some a], g_servers := servers'\<rparr>)
            cfg3)) }"

fun skc_start_each :: "(nat \<Rightarrow> string) \<Rightarrow> 'b \<Rightarrow> nat \<Rightarrow> nat list \<Rightarrow> 'b sk_config \<Rightarrow> 'b sk_config option" where
  "skc_start_each draw nil gi [] cfg = Some cfg"
| "skc_start_each draw nil gi (i # is) cfg = Option.bind (skc_StartServer draw nil gi i cfg) (skc_start_each draw nil gi is)"

definition StartGroup :: "(nat \<Rightarrow> string) \<Rightarrow> 'b \<Rightarrow> nat \<Rightarrow> 'b sk_config \<Rightarrow> 'b sk_config option" where
  "StartGroup draw nil gi cfg = skc_start_each draw nil gi [0..<skc_n cfg] cfg"

definition StartMasterServer :: "(nat \<Rightarrow> string) \<Rightarrow> nat \<Rightarrow> 'b sk_config \<Rightarrow> 'b sk_config option" where
  "StartMasterServer draw i cfg =
     do { (names, cfg1) \<leftarrow> link_all draw (master_names cfg) cfg;
          let (sm, _) = sm_StartServer (nmasters cfg) (int i) (MakePersister ());
          ms \<leftarrow> go_set (masterservers cfg1) (int i) (Some sm);
          Some (add_server (mastername i) (cfg1\<lparr>masterservers := ms\<rparr>)) }"

fun start_masters :: "(nat \<Rightarrow> string) \<Rightarrow> nat list \<Rightarrow> 'b sk_config \<Rightarrow> 'b sk_config option" where
  "start_masters draw [] cfg = Some cfg"
| "start_masters draw (i # is) cfg = Option.bind (StartMasterServer draw i cfg) (start_masters draw is)"

definition shardclerk :: "(nat \<Rightarrow> string) \<Rightarrow> int \<Rightarrow> 'b sk_config \<Rightarrow> (sm_Clerk \<times> 'b sk_config) option" where
  "shardclerk draw rand cfg =
     do { (_, cfg1) \<leftarrow> link_all draw (master_names cfg) cfg;
          Some (sm_MakeClerk (nmasters cfg) rand, cfg1) }"

subsection \<open>Joining and leaving\<close>

text \<open>The map of \<^verbatim>\<open>joinm\<close>: each group's identifier with the names of its servers.\<close>

fun join_map :: "nat list \<Rightarrow> 'b sk_config \<Rightarrow> (int \<times> string list) list \<Rightarrow> (int \<times> string list) list option" where
  "join_map [] cfg m = Some m"
| "join_map (g # gis) cfg m =
     do { gg \<leftarrow> go_index (groups cfg) (int g);
          join_map gis cfg (AList.update (g_gid gg) (map (servername (g_gid gg)) [0..<skc_n cfg]) m) }"

text \<open>
  \<^verbatim>\<open>joinm\<close> and \<^verbatim>\<open>leavem\<close> through the clerk: the arguments sent, and whether the call returned with the given
  outcomes of its attempts. Without a clerk the call is one on a nil pointer.
\<close>

definition joinm :: "nat list \<Rightarrow> sm_Reply option list \<Rightarrow> 'b sk_config \<Rightarrow> (JoinArgs \<times> unit option \<times> 'b sk_config) option" where
  "joinm gis outs cfg =
     do { m \<leftarrow> join_map gis cfg [];
          ck \<leftarrow> mck cfg;
          case Clerk_Join m ck outs of (args, ck', res) \<Rightarrow> Some (args, res, cfg\<lparr>mck := Some ck'\<rparr>) }"

definition join :: "nat \<Rightarrow> sm_Reply option list \<Rightarrow> 'b sk_config \<Rightarrow> (JoinArgs \<times> unit option \<times> 'b sk_config) option" where
  "join gi = joinm [gi]"

fun leave_gids :: "nat list \<Rightarrow> 'b sk_config \<Rightarrow> int list option" where
  "leave_gids [] cfg = Some []"
| "leave_gids (g # gis) cfg =
     do { gg \<leftarrow> go_index (groups cfg) (int g);
          gids \<leftarrow> leave_gids gis cfg;
          Some (g_gid gg # gids) }"

definition leavem :: "nat list \<Rightarrow> sm_Reply option list \<Rightarrow> 'b sk_config \<Rightarrow> (LeaveArgs \<times> unit option \<times> 'b sk_config) option" where
  "leavem gis outs cfg =
     do { gids \<leftarrow> leave_gids gis cfg;
          ck \<leftarrow> mck cfg;
          case Clerk_Leave gids ck outs of (args, ck', res) \<Rightarrow> Some (args, res, cfg\<lparr>mck := Some ck'\<rparr>) }"

definition leave :: "nat \<Rightarrow> sm_Reply option list \<Rightarrow> 'b sk_config \<Rightarrow> (LeaveArgs \<times> unit option \<times> 'b sk_config) option" where
  "leave gi = leavem [gi]"

subsection \<open>The whole configuration\<close>

text \<open>\<^verbatim>\<open>checklogs\<close>: \<open>bytes\<close> and \<open>slen\<close> are the lengths of an encoded state and of a snapshot.\<close>

datatype log_check = LogsOk | RaftStateTooBig int | SnapshotNotEmpty

fun check_saved :: "((unit gob) list \<Rightarrow> int) \<Rightarrow> ('b \<Rightarrow> nat) \<Rightarrow> int \<Rightarrow> (nat \<Rightarrow> (unit, 'b) Persister) \<Rightarrow> nat option list \<Rightarrow>
    log_check option" where
  "check_saved bytes slen maxsize d [] = Some LogsOk"
| "check_saved bytes slen maxsize d (None # ps) = None"
| "check_saved bytes slen maxsize d (Some a # ps) =
     (let raft = RaftStateSize bytes (d a); snap = slen (ReadSnapshot (d a)) in
      if maxsize \<ge> 0 \<and> raft > 2 * maxsize then Some (RaftStateTooBig raft)
      else if maxsize < 0 \<and> snap > 0 then Some SnapshotNotEmpty
      else check_saved bytes slen maxsize d ps)"

definition checklogs :: "((unit gob) list \<Rightarrow> int) \<Rightarrow> ('b \<Rightarrow> nat) \<Rightarrow> 'b sk_config \<Rightarrow> log_check option" where
  "checklogs bytes slen cfg = check_saved bytes slen (skc_maxraftstate cfg) (skc_disk cfg)
     (concat (map (\<lambda>gg. take (skc_n cfg) (g_saved gg)) (take (ngroups cfg) (groups cfg))))"

definition new_group :: "nat \<Rightarrow> nat \<Rightarrow> nat \<Rightarrow> 'b group" where
  "new_group n masters gi = \<lparr>g_gid = 100 + int gi, g_servers = replicate n None, g_saved = replicate n None,
     g_endnames = replicate n None, g_mendnames = replicate masters None\<rparr>"

fun start_groups :: "(nat \<Rightarrow> string) \<Rightarrow> 'b \<Rightarrow> nat list \<Rightarrow> 'b sk_config \<Rightarrow> 'b sk_config option" where
  "start_groups draw nil [] cfg = Some cfg"
| "start_groups draw nil (gi # gis) cfg =
     do { cfg1 \<leftarrow> StartGroup draw nil gi (cfg\<lparr>groups := groups cfg @ [new_group (skc_n cfg) (nmasters cfg) gi]\<rparr>);
          start_groups draw nil gis cfg1 }"

text \<open>
  \<^verbatim>\<open>make_config\<close>. The groups are appended as the loop makes them, where the code fills an array of three nil
  pointers.
\<close>

definition sk_make_config :: "(nat \<Rightarrow> string) \<Rightarrow> 'b \<Rightarrow> int \<Rightarrow> nat \<Rightarrow> bool \<Rightarrow> int \<Rightarrow> 'b sk_config option" where
  "sk_make_config draw nil rand n unreliable maxsize =
     do { cfg1 \<leftarrow> start_masters draw [0..<3]
            \<lparr>skc_net = MakeNetwork, nmasters = 3, masterservers = replicate 3 None, mck = None, ngroups = 0, skc_n = 0,
             groups = [], skc_clerks = Map.empty, skc_nextClientId = 0, skc_maxraftstate = maxsize,
             skc_disk = (\<lambda>_. MakePersister nil), skc_fresh = 0, skc_drawn = 0\<rparr>;
          (ck, cfg2) \<leftarrow> shardclerk draw rand cfg1;
          cfg3 \<leftarrow> start_groups draw nil [0..<3] (cfg2\<lparr>mck := Some ck, ngroups := 3, skc_n := n\<rparr>);
          Some (cfg3\<lparr>skc_nextClientId := int n + 1000, skc_net := Reliable (\<not> unreliable) (skc_net cfg3)\<rparr>) }"

end
