(* ===== verification/Shard_Tester_Proofs.thy ===== *)
theory Shard_Tester_Proofs
  imports Shard_Tester Map_Reduce_Proofs
begin

text \<open>
  What the sharded harness builds: for which sizes of a group it can be built and used at all, and that the
  names it tells the shard master lead to the servers of the group.
\<close>

subsection \<open>Names\<close>

lemma servername_inject [simp]:
  assumes "0 \<le> g" "0 \<le> g'"
  shows "servername g i = servername g' i' \<longleftrightarrow> g = g' \<and> i = i'"
proof -
  have "Itoa (nat g) @ CHR ''-'' # Itoa i = Itoa (nat g') @ CHR ''-'' # Itoa i' \<longleftrightarrow> Itoa (nat g) = Itoa (nat g') \<and> Itoa i = Itoa i'"
    using split_at_dash [OF dash_not_digit dash_not_digit, of "nat g" "Itoa i" "nat g'" "Itoa i'"] by auto
  then show ?thesis using assms by (auto simp: servername_def Itoa_int_def)
qed

lemma servername_not_master [simp]: "servername g i \<noteq> mastername j"
  by (simp add: servername_def mastername_def)

subsection \<open>Making ends\<close>

definition skc_ok :: "(nat \<Rightarrow> string) \<Rightarrow> 'b sk_config \<Rightarrow> bool" where
  "skc_ok draw cfg \<longleftrightarrow> ends (skc_net cfg) \<subseteq> draw ` {..<skc_drawn cfg} \<and>
     (\<forall>sn a. servers (skc_net cfg) sn = Some a \<longrightarrow> a < skc_fresh cfg) \<and>
     (\<forall>sn sn' a. servers (skc_net cfg) sn = Some a \<longrightarrow> servers (skc_net cfg) sn' = Some a \<longrightarrow> sn = sn')"

text \<open>\<open>cfg'\<close> differs from \<open>cfg\<close> only by ends made since.\<close>

definition more_ends :: "'b sk_config \<Rightarrow> 'b sk_config \<Rightarrow> bool" where
  "more_ends cfg cfg' \<longleftrightarrow> (\<exists>rn k. cfg' = cfg\<lparr>skc_drawn := k, skc_net := rn\<rparr> \<and> servers rn = servers (skc_net cfg) \<and>
     reliable rn = reliable (skc_net cfg))"

lemma more_ends_refl [simp]: "more_ends cfg cfg"
  unfolding more_ends_def by (intro exI [of _ "skc_net cfg"] exI [of _ "skc_drawn cfg"]) simp

lemma more_ends_trans: "more_ends c1 c2 \<Longrightarrow> more_ends c2 c3 \<Longrightarrow> more_ends c1 c3"
  by (fastforce simp: more_ends_def)

lemma more_ends_keeps:
  assumes "more_ends cfg cfg'"
  shows "nmasters cfg' = nmasters cfg" "masterservers cfg' = masterservers cfg" "mck cfg' = mck cfg" "ngroups cfg' = ngroups cfg"
    "skc_n cfg' = skc_n cfg" "groups cfg' = groups cfg" "skc_clerks cfg' = skc_clerks cfg"
    "skc_maxraftstate cfg' = skc_maxraftstate cfg" "skc_disk cfg' = skc_disk cfg" "skc_fresh cfg' = skc_fresh cfg"
    "servers (skc_net cfg') = servers (skc_net cfg)"
  using assms by (auto simp: more_ends_def)

lemma make_end_result:
  assumes "inj draw" "skc_ok draw cfg"
  shows "\<exists>cfg'. make_end draw sn cfg = Some (draw (skc_drawn cfg), cfg') \<and> skc_ok draw cfg' \<and> more_ends cfg cfg' \<and>
    enabled (skc_net cfg') (draw (skc_drawn cfg)) \<and> connections (skc_net cfg') (draw (skc_drawn cfg)) = Some sn"
proof -
  have "draw (skc_drawn cfg) \<notin> ends (skc_net cfg)"
    using assms by (auto simp: skc_ok_def inj_eq)
  then show ?thesis
    using assms(2) unfolding make_end_def randstring_def
    by (auto simp: MakeEnd_def Connect_def Enable_def skc_ok_def more_ends_def lessThan_Suc)
qed

lemma link_all_result:
  assumes "inj draw" "skc_ok draw cfg"
  shows "\<exists>names cfg'. link_all draw sns cfg = Some (names, cfg') \<and> skc_ok draw cfg' \<and> more_ends cfg cfg' \<and> length names = length sns"
  using assms(2)
proof (induction sns arbitrary: cfg)
  case (Cons sn sns)
  obtain c1 where c1: "make_end draw sn cfg = Some (draw (skc_drawn cfg), c1)" "skc_ok draw c1" "more_ends cfg c1"
    using make_end_result [OF assms(1) Cons.prems] by blast
  obtain names c2 where "link_all draw sns c1 = Some (names, c2)" "skc_ok draw c2" "more_ends c1 c2" "length names = length sns"
    using Cons.IH [OF c1(2)] by blast
  then show ?case using c1 more_ends_trans [OF c1(3)] by auto
qed simp

lemma clerk_ends_result:
  assumes "inj draw" "skc_ok draw cfg" "\<forall>j \<in> set js. j < length es"
  shows "\<exists>es' cfg'. clerk_ends draw js es cfg = Some (es', cfg') \<and> skc_ok draw cfg' \<and> more_ends cfg cfg' \<and> length es' = length es"
  using assms(2,3)
proof (induction js arbitrary: es cfg)
  case (Cons j js)
  obtain c1 where c1: "make_end draw (mastername j) cfg = Some (draw (skc_drawn cfg), c1)" "skc_ok draw c1" "more_ends cfg c1"
    using make_end_result [OF assms(1) Cons.prems(1)] by blast
  have g: "go_set es (int j) (draw (skc_drawn cfg)) = Some (es[j := draw (skc_drawn cfg)])"
    using Cons.prems(2) by (simp add: go_set_def)
  obtain es' c2 where "clerk_ends draw js (es[j := draw (skc_drawn cfg)]) c1 = Some (es', c2)" "skc_ok draw c2"
      "more_ends c1 c2" "length es' = length es"
    using Cons.IH [OF c1(2), of "es[j := draw (skc_drawn cfg)]"] Cons.prems(2) by auto
  then show ?case using c1 g more_ends_trans [OF c1(3)] by auto
qed simp

text \<open>An index beyond the array ends the loop in a panic.\<close>

lemma clerk_ends_panics: "length es \<le> j \<Longrightarrow> j \<in> set js \<Longrightarrow> clerk_ends draw js es cfg = None"
proof (induction js arbitrary: es cfg)
  case (Cons k js)
  show ?case
  proof (cases "make_end draw (mastername k) cfg")
    case (Some x)
    obtain name c1 where x: "x = (name, c1)" by fastforce
    show ?thesis
    proof (cases "go_set es (int k) name")
      case (Some es')
      then have "length es' = length es" "k < length es" by (auto simp: go_set_eq_Some)
      moreover then have "j \<in> set js" using Cons.prems by auto
      ultimately show ?thesis using Cons.IH [of es' c1] Cons.prems(1) \<open>make_end draw (mastername k) cfg = Some x\<close> x Some by simp
    qed (use \<open>make_end draw (mastername k) cfg = Some x\<close> x in simp)
  qed simp
qed simp

lemma makeClient_iff:
  assumes "inj draw" "skc_ok draw cfg"
  shows "(\<exists>ck cfg'. sk_makeClient draw rand a cfg = Some (ck, cfg')) \<longleftrightarrow> nmasters cfg \<le> skc_n cfg"
proof (cases "nmasters cfg \<le> skc_n cfg")
  case True
  then show ?thesis
    using clerk_ends_result [OF assms, of "[0..<nmasters cfg]" "replicate (skc_n cfg) []"] by (auto simp: sk_makeClient_def)
next
  case False
  then have "clerk_ends draw [0..<nmasters cfg] (replicate (skc_n cfg) []) cfg = None"
    by (intro clerk_ends_panics [of _ "skc_n cfg"]) simp_all
  then show ?thesis using False by (simp add: sk_makeClient_def)
qed

subsection \<open>Starting servers\<close>

definition group_sized :: "'b sk_config \<Rightarrow> 'b group \<Rightarrow> bool" where
  "group_sized cfg gg \<longleftrightarrow> length (g_servers gg) = skc_n cfg \<and> length (g_saved gg) = skc_n cfg \<and>
     length (g_endnames gg) = skc_n cfg \<and> length (g_mendnames gg) = nmasters cfg"

lemma add_server_ok:
  assumes "skc_ok draw cfg"
  shows "skc_ok draw (add_server sn cfg)"
proof -
  let ?m = "servers (skc_net cfg)"
  have below: "a < skc_fresh cfg" if "?m s = Some a" for s a using assms that by (auto simp: skc_ok_def)
  have one: "s = s'" if "?m s = Some a" "?m s' = Some a" for s s' a using assms that unfolding skc_ok_def by blast
  have "s = s'" if "(?m(sn \<mapsto> skc_fresh cfg)) s = Some a" "(?m(sn \<mapsto> skc_fresh cfg)) s' = Some a" for s s' a
    using that one [of s a s'] below [of s a] below [of s' a] by (cases "s = sn"; cases "s' = sn") auto
  moreover have "a < skc_fresh cfg + 1" if "(?m(sn \<mapsto> skc_fresh cfg)) s = Some a" for s a
    using that below [of s a] by (cases "s = sn") auto
  ultimately have "\<forall>s a. (?m(sn \<mapsto> skc_fresh cfg)) s = Some a \<longrightarrow> a < skc_fresh cfg + 1"
    "\<forall>s s' a. (?m(sn \<mapsto> skc_fresh cfg)) s = Some a \<longrightarrow> (?m(sn \<mapsto> skc_fresh cfg)) s' = Some a \<longrightarrow> s = s'"
    by blast+
  moreover have eq: "servers (skc_net (add_server sn cfg)) = ?m(sn \<mapsto> skc_fresh cfg)" "skc_fresh (add_server sn cfg) = skc_fresh cfg + 1"
    "ends (skc_net (add_server sn cfg)) = ends (skc_net cfg)" "skc_drawn (add_server sn cfg) = skc_drawn cfg"
    by (simp_all add: add_server_def AddServer_def)
  moreover have "ends (skc_net cfg) \<subseteq> draw ` {..<skc_drawn cfg}" using assms unfolding skc_ok_def by blast
  ultimately show ?thesis unfolding skc_ok_def eq by blast
qed

lemma StartServer_panics:
  assumes "gi < length (groups cfg)" "group_sized cfg (groups cfg ! gi)" "nmasters cfg \<le> i"
  shows "skc_StartServer draw nil gi i cfg = None"
proof -
  have "go_set (g_mendnames (groups cfg ! gi)) (int i) x = None" for x
    using assms(2,3) by (simp add: group_sized_def go_set_def)
  then show ?thesis using assms(1) unfolding skc_StartServer_def
    by (simp add: Let_def split: bind_split)
qed

lemma StartServer_result:
  assumes "inj draw" "skc_ok draw cfg" "gi < length (groups cfg)" "group_sized cfg (groups cfg ! gi)" "i < skc_n cfg" "i < nmasters cfg"
  shows "\<exists>cfg' gg' kv srv. skc_StartServer draw nil gi i cfg = Some cfg' \<and> skc_ok draw cfg' \<and> groups cfg' = (groups cfg)[gi := gg'] \<and>
    group_sized cfg gg' \<and> g_gid gg' = g_gid (groups cfg ! gi) \<and> g_servers gg' = (g_servers (groups cfg ! gi))[i := Some kv] \<and>
    servers (skc_net cfg') = (servers (skc_net cfg))(servername (g_gid (groups cfg ! gi)) i \<mapsto> srv) \<and>
    nmasters cfg' = nmasters cfg \<and> skc_n cfg' = skc_n cfg \<and> mck cfg' = mck cfg"
proof -
  let ?gg = "groups cfg ! gi"
  obtain names c1 where l1: "link_all draw (map (servername (g_gid ?gg)) [0..<skc_n cfg]) cfg = Some (names, c1)"
      "skc_ok draw c1" "more_ends cfg c1"
    using link_all_result [OF assms(1,2)] by blast
  obtain mnames c2 where l2: "link_all draw (master_names cfg) c1 = Some (mnames, c2)" "skc_ok draw c2" "more_ends c1 c2"
    using link_all_result [OF assms(1) l1(2)] by blast
  note k = more_ends_keeps [OF more_ends_trans [OF l1(3) l2(3)]]
  define a where "a = skc_fresh cfg"
  have idx: "go_index (groups cfg) (int gi) = Some ?gg" "go_set (g_endnames ?gg) (int i) x = Some ((g_endnames ?gg)[i := x])"
    "go_set (g_mendnames ?gg) (int i) x = Some ((g_mendnames ?gg)[i := x])"
    "go_index (g_saved ?gg) (int i) = Some (g_saved ?gg ! i)" "go_set (g_servers ?gg) (int i) y = Some ((g_servers ?gg)[i := y])" for x y
    using assms(3-6) by (simp_all add: group_sized_def go_set_def)
  define ps where "ps = (case g_saved ?gg ! i of None \<Rightarrow> MakePersister nil | Some a \<Rightarrow> Persister_Copy (skc_disk cfg a))"
  define kv where "kv = fst (sk_StartServer (skc_n cfg) (int i) ps (skc_maxraftstate cfg) (g_gid ?gg) (nmasters cfg))"
  define gg' where "gg' = ?gg\<lparr>g_endnames := (g_endnames ?gg)[i := Some names], g_mendnames := (g_mendnames ?gg)[i := Some mnames],
    g_saved := (g_saved ?gg)[i := Some a], g_servers := (g_servers ?gg)[i := Some kv]\<rparr>"
  define cfg' where "cfg' = add_server (servername (g_gid ?gg) i) (set_group gi gg' (snd (skc_alloc ps c2)))"
  have "skc_StartServer draw nil gi i cfg = Some cfg'"
    unfolding skc_StartServer_def using l1(1) l2(1) idx k
    by (simp add: skc_alloc_def case_prod_beta a_def ps_def kv_def gg'_def cfg'_def cong: option.case_cong)
  moreover have "skc_ok draw cfg'"
    using l2(2) unfolding cfg'_def by (intro add_server_ok) (simp add: set_group_def skc_alloc_def skc_ok_def less_Suc_eq)
  moreover have "groups cfg' = (groups cfg)[gi := gg']" "nmasters cfg' = nmasters cfg" "skc_n cfg' = skc_n cfg" "mck cfg' = mck cfg"
    "servers (skc_net cfg') = (servers (skc_net cfg))(servername (g_gid ?gg) i \<mapsto> skc_fresh cfg + 1)"
    using k by (simp_all add: cfg'_def add_server_def set_group_def skc_alloc_def AddServer_def)
  moreover have "group_sized cfg gg'" "g_gid gg' = g_gid ?gg" "g_servers gg' = (g_servers ?gg)[i := Some kv]"
    using assms(4) by (simp_all add: gg'_def group_sized_def)
  ultimately show ?thesis by blast
qed

lemma start_each_panics:
  assumes "inj draw" and "skc_ok draw cfg" "gi < length (groups cfg)" "group_sized cfg (groups cfg ! gi)"
    "\<forall>i \<in> set is. i < skc_n cfg" "k \<in> set is" "nmasters cfg \<le> k"
  shows "skc_start_each draw nil gi is cfg = None"
  using assms(2-7)
proof (induction "is" arbitrary: cfg)
  case (Cons i "is")
  show ?case
  proof (cases "nmasters cfg \<le> i")
    case True
    then show ?thesis using StartServer_panics [OF Cons.prems(2,3), of i] by simp
  next
    case False
    have i: "i < skc_n cfg" using Cons.prems(4) by simp
    obtain c1 gg' where c1: "skc_StartServer draw nil gi i cfg = Some c1" "skc_ok draw c1" "groups c1 = (groups cfg)[gi := gg']"
        "group_sized cfg gg'" "nmasters c1 = nmasters cfg" "skc_n c1 = skc_n cfg"
      using StartServer_result [OF assms(1) Cons.prems(1-3) i, where nil = nil] False by auto
    have "skc_start_each draw nil gi is c1 = None"
    proof (rule Cons.IH [OF c1(2)])
      show "gi < length (groups c1)" "\<forall>i \<in> set is. i < skc_n c1" "nmasters c1 \<le> k" using c1 Cons.prems(2,4,6) by simp_all
      show "group_sized c1 (groups c1 ! gi)" using c1 Cons.prems(2) by (simp add: group_sized_def)
      show "k \<in> set is" using Cons.prems(5,6) False by auto
    qed
    then show ?thesis using c1(1) by simp
  qed
qed simp

text \<open>What a loop that starts servers of group \<open>gi\<close> leaves as it was, and what it has started.\<close>

definition started_in :: "nat \<Rightarrow> nat set \<Rightarrow> 'b sk_config \<Rightarrow> 'b sk_config \<Rightarrow> bool" where
  "started_in gi I cfg cfg' \<longleftrightarrow> nmasters cfg' = nmasters cfg \<and> skc_n cfg' = skc_n cfg \<and> mck cfg' = mck cfg \<and>
     (\<exists>gg'. groups cfg' = (groups cfg)[gi := gg'] \<and> group_sized cfg gg' \<and> g_gid gg' = g_gid (groups cfg ! gi) \<and>
        (\<forall>i < skc_n cfg. g_servers gg' ! i = None \<longrightarrow> i \<notin> I \<and> g_servers (groups cfg ! gi) ! i = None)) \<and>
     (\<forall>i \<in> I. servers (skc_net cfg') (servername (g_gid (groups cfg ! gi)) i) \<noteq> None) \<and>
     dom (servers (skc_net cfg)) \<subseteq> dom (servers (skc_net cfg'))"

lemma started_in_group:
  assumes "started_in gi I cfg cfg'" "gi < length (groups cfg)"
  shows "group_sized cfg' (groups cfg' ! gi)" "g_gid (groups cfg' ! gi) = g_gid (groups cfg ! gi)"
    "length (groups cfg') = length (groups cfg)"
  using assms by (auto simp: started_in_def group_sized_def)

lemma started_in_trans:
  assumes "started_in gi I c1 c2" "started_in gi J c2 c3" "gi < length (groups c1)"
  shows "started_in gi (I \<union> J) c1 c3"
proof -
  obtain g2 where g2: "groups c2 = (groups c1)[gi := g2]" "group_sized c1 g2" "g_gid g2 = g_gid (groups c1 ! gi)"
      "\<forall>i < skc_n c1. g_servers g2 ! i = None \<longrightarrow> i \<notin> I \<and> g_servers (groups c1 ! gi) ! i = None"
    and n: "nmasters c2 = nmasters c1" "skc_n c2 = skc_n c1" "mck c2 = mck c1"
    using assms(1) unfolding started_in_def by blast
  obtain g3 where g3: "groups c3 = (groups c2)[gi := g3]" "group_sized c2 g3" "g_gid g3 = g_gid (groups c2 ! gi)"
      "\<forall>i < skc_n c2. g_servers g3 ! i = None \<longrightarrow> i \<notin> J \<and> g_servers (groups c2 ! gi) ! i = None"
    using assms(2) unfolding started_in_def by blast
  have at: "groups c2 ! gi = g2" using g2(1) assms(3) by simp
  have "groups c3 = (groups c1)[gi := g3] \<and> group_sized c1 g3 \<and> g_gid g3 = g_gid (groups c1 ! gi) \<and>
      (\<forall>i < skc_n c1. g_servers g3 ! i = None \<longrightarrow> i \<notin> I \<union> J \<and> g_servers (groups c1 ! gi) ! i = None)"
    using g2 g3 n at by (simp add: group_sized_def)
  moreover have "\<forall>i \<in> I \<union> J. servers (skc_net c3) (servername (g_gid (groups c1 ! gi)) i) \<noteq> None"
  proof
    fix i
    assume "i \<in> I \<union> J"
    then consider "i \<in> I" | "i \<in> J" by blast
    then show "servers (skc_net c3) (servername (g_gid (groups c1 ! gi)) i) \<noteq> None"
    proof cases
      case 1
      then have "servername (g_gid (groups c1 ! gi)) i \<in> dom (servers (skc_net c2))"
        using assms(1) by (auto simp: started_in_def)
      moreover have "dom (servers (skc_net c2)) \<subseteq> dom (servers (skc_net c3))" using assms(2) by (simp add: started_in_def)
      ultimately show ?thesis by blast
    next
      case 2
      then have "servers (skc_net c3) (servername (g_gid (groups c2 ! gi)) i) \<noteq> None"
        using assms(2) by (simp add: started_in_def)
      then show ?thesis using at g2(3) by simp
    qed
  qed
  moreover have "dom (servers (skc_net c1)) \<subseteq> dom (servers (skc_net c3))"
    "nmasters c3 = nmasters c1 \<and> skc_n c3 = skc_n c1 \<and> mck c3 = mck c1"
    using assms(1,2) n unfolding started_in_def by (blast, simp)
  ultimately show ?thesis unfolding started_in_def by blast
qed

lemma start_each_result:
  assumes "inj draw" and "skc_ok draw cfg" "gi < length (groups cfg)" "group_sized cfg (groups cfg ! gi)"
    "\<forall>i \<in> set is. i < skc_n cfg \<and> i < nmasters cfg"
  shows "\<exists>cfg'. skc_start_each draw nil gi is cfg = Some cfg' \<and> skc_ok draw cfg' \<and> started_in gi (set is) cfg cfg'"
  using assms(2-5)
proof (induction "is" arbitrary: cfg)
  case Nil
  then show ?case by (auto simp: started_in_def intro!: exI [of _ "groups cfg ! gi"])
next
  case (Cons i "is")
  have i: "i < skc_n cfg" "i < nmasters cfg" using Cons.prems(4) by simp_all
  obtain c1 gg' kv srv where c1: "skc_StartServer draw nil gi i cfg = Some c1" "skc_ok draw c1" "groups c1 = (groups cfg)[gi := gg']"
      "group_sized cfg gg'" "g_gid gg' = g_gid (groups cfg ! gi)" "g_servers gg' = (g_servers (groups cfg ! gi))[i := Some kv]"
      "servers (skc_net c1) = (servers (skc_net cfg))(servername (g_gid (groups cfg ! gi)) i \<mapsto> srv)"
      "nmasters c1 = nmasters cfg" "skc_n c1 = skc_n cfg" "mck c1 = mck cfg"
    using StartServer_result [OF assms(1) Cons.prems(1-3) i, where nil = nil] by blast
  have len: "length (g_servers (groups cfg ! gi)) = skc_n cfg" using Cons.prems(3) by (simp add: group_sized_def)
  have "\<forall>j < skc_n cfg. g_servers gg' ! j = None \<longrightarrow> j \<notin> {i} \<and> g_servers (groups cfg ! gi) ! j = None"
    using c1(6) i(1) len by (simp add: nth_list_update)
  then have "started_in gi {i} cfg c1"
    using c1 unfolding started_in_def by (auto intro!: exI [of _ gg'])
  moreover have "\<exists>cfg'. skc_start_each draw nil gi is c1 = Some cfg' \<and> skc_ok draw cfg' \<and> started_in gi (set is) c1 cfg'"
    using c1 Cons.prems(2,4) by (intro Cons.IH) (simp_all add: group_sized_def)
  ultimately show ?case using c1(1) started_in_trans [of gi "{i}" cfg c1 "set is"] Cons.prems(2) by auto
qed

subsection \<open>Groups and masters\<close>

definition built :: "nat \<Rightarrow> 'b sk_config \<Rightarrow> bool" where
  "built k cfg \<longleftrightarrow> length (groups cfg) = k \<and>
     (\<forall>gi < k. group_sized cfg (groups cfg ! gi) \<and> g_gid (groups cfg ! gi) = 100 + int gi \<and>
        (\<forall>i < skc_n cfg. g_servers (groups cfg ! gi) ! i \<noteq> None \<and> servers (skc_net cfg) (servername (100 + int gi) i) \<noteq> None))"

definition grown :: "'b sk_config \<Rightarrow> 'b sk_config \<Rightarrow> bool" where
  "grown cfg cfg' \<longleftrightarrow> nmasters cfg' = nmasters cfg \<and> skc_n cfg' = skc_n cfg \<and> mck cfg' = mck cfg \<and>
     dom (servers (skc_net cfg)) \<subseteq> dom (servers (skc_net cfg'))"

lemma new_group_sized: "group_sized (cfg\<lparr>groups := gs\<rparr>) (new_group (skc_n cfg) (nmasters cfg) gi)"
  by (simp add: group_sized_def new_group_def)

lemma new_group_at:
  assumes "built k cfg" and "c0 = cfg\<lparr>groups := groups cfg @ [new_group (skc_n cfg) (nmasters cfg) k]\<rparr>"
  shows "k < length (groups c0)" "group_sized c0 (groups c0 ! k)" "g_gid (groups c0 ! k) = 100 + int k"
  using assms by (simp_all add: built_def new_group_sized nth_append) (simp add: new_group_def)

lemma StartGroup_result:
  assumes "inj draw" "skc_ok draw cfg" "built k cfg" "skc_n cfg \<le> nmasters cfg"
    and c0: "c0 = cfg\<lparr>groups := groups cfg @ [new_group (skc_n cfg) (nmasters cfg) k]\<rparr>"
  shows "\<exists>cfg'. StartGroup draw nil k c0 = Some cfg' \<and> skc_ok draw cfg' \<and> built (Suc k) cfg' \<and> grown cfg cfg'"
proof -
  note at = new_group_at [OF assms(3) c0]
  have ok: "skc_ok draw c0" using assms(2) by (simp add: c0 skc_ok_def)
  obtain cfg' where s: "skc_start_each draw nil k [0..<skc_n c0] c0 = Some cfg'" "skc_ok draw cfg'" "started_in k {0..<skc_n c0} c0 cfg'"
    using start_each_result [OF assms(1) ok at(1,2), of "[0..<skc_n c0]" nil] assms(4) by (auto simp: c0)
  obtain gg' where gg': "groups cfg' = (groups c0)[k := gg']" "group_sized c0 gg'" "g_gid gg' = 100 + int k"
      "\<forall>i < skc_n cfg. g_servers gg' ! i \<noteq> None"
    using s(3) at(3) unfolding started_in_def by (auto simp: c0)
  have len: "length (groups cfg) = k" using assms(3) by (simp add: built_def)
  then have g: "groups cfg' = groups cfg @ [gg']" using gg'(1) by (auto simp: c0)
  have f: "nmasters cfg' = nmasters cfg" "skc_n cfg' = skc_n cfg" "mck cfg' = mck cfg"
      "dom (servers (skc_net cfg)) \<subseteq> dom (servers (skc_net cfg'))"
    using s(3) by (simp_all add: started_in_def c0)
  have new: "\<forall>i < skc_n cfg. servers (skc_net cfg') (servername (100 + int k) i) \<noteq> None"
    using s(3) at(3) by (simp add: started_in_def c0)
  have "group_sized cfg' (groups cfg' ! gi) \<and> g_gid (groups cfg' ! gi) = 100 + int gi \<and>
      (\<forall>i < skc_n cfg'. g_servers (groups cfg' ! gi) ! i \<noteq> None \<and> servers (skc_net cfg') (servername (100 + int gi) i) \<noteq> None)"
    if "gi < Suc k" for gi
  proof (cases "gi = k")
    case True
    then show ?thesis using g gg' f new len by (simp add: nth_append group_sized_def c0)
  next
    case False
    then have "gi < k" using that by simp
    then have "group_sized cfg (groups cfg ! gi) \<and> g_gid (groups cfg ! gi) = 100 + int gi \<and>
        (\<forall>i < skc_n cfg. g_servers (groups cfg ! gi) ! i \<noteq> None \<and> servername (100 + int gi) i \<in> dom (servers (skc_net cfg)))"
      using assms(3) unfolding built_def by blast
    moreover from this have "\<forall>i < skc_n cfg. servers (skc_net cfg') (servername (100 + int gi) i) \<noteq> None"
      using f(4) by blast
    ultimately show ?thesis using \<open>gi < k\<close> g f(1,2) len by (simp add: nth_append group_sized_def)
  qed
  then have "built (Suc k) cfg'" using g len by (simp add: built_def)
  then show ?thesis using s f by (simp add: StartGroup_def grown_def c0)
qed

lemma start_groups_result:
  assumes "inj draw" "skc_ok draw cfg" "built k cfg" "skc_n cfg \<le> nmasters cfg"
  shows "\<exists>cfg'. start_groups draw nil [k..<k + d] cfg = Some cfg' \<and> skc_ok draw cfg' \<and> built (k + d) cfg' \<and> grown cfg cfg'"
  using assms(2-4)
proof (induction d arbitrary: k cfg)
  case (Suc d)
  obtain c1 where c1: "StartGroup draw nil k (cfg\<lparr>groups := groups cfg @ [new_group (skc_n cfg) (nmasters cfg) k]\<rparr>) = Some c1"
      "skc_ok draw c1" "built (Suc k) c1" "grown cfg c1"
    using StartGroup_result [OF assms(1) Suc.prems refl] by blast
  then have "skc_n c1 \<le> nmasters c1" using Suc.prems(3) by (simp add: grown_def)
  from Suc.IH [OF c1(2,3) this] obtain c2 where c2: "start_groups draw nil [Suc k..<Suc k + d] c1 = Some c2" "skc_ok draw c2"
      "built (Suc k + d) c2" "grown c1 c2" by blast
  have "grown cfg c2" using c1(4) c2(4) by (auto simp: grown_def)
  moreover have "[k..<k + Suc d] = k # [Suc k..<Suc k + d]" by (simp add: upt_conv_Cons)
  ultimately show ?case using c1(1) c2 by simp
qed (simp add: grown_def)

lemma start_groups_panics:
  assumes "inj draw" "skc_ok draw cfg" "built k cfg" "nmasters cfg < skc_n cfg" "0 < d"
  shows "start_groups draw nil [k..<k + d] cfg = None"
proof -
  let ?c0 = "cfg\<lparr>groups := groups cfg @ [new_group (skc_n cfg) (nmasters cfg) k]\<rparr>"
  have ok: "skc_ok draw ?c0" using assms(2) by (simp add: skc_ok_def)
  have "skc_start_each draw nil k [0..<skc_n ?c0] ?c0 = None"
    using new_group_at [OF assms(3) refl] assms(4)
    by (intro start_each_panics [OF assms(1) ok, where k = "nmasters cfg"]) simp_all
  then have "StartGroup draw nil k ?c0 = None" by (simp add: StartGroup_def)
  then show ?thesis using assms(5) by (simp add: upt_conv_Cons)
qed

lemma StartMasterServer_result:
  assumes "inj draw" "skc_ok draw cfg" "i < length (masterservers cfg)"
  shows "\<exists>cfg'. StartMasterServer draw i cfg = Some cfg' \<and> skc_ok draw cfg' \<and> grown cfg cfg' \<and> groups cfg' = groups cfg \<and>
    length (masterservers cfg') = length (masterservers cfg) \<and> mastername i \<in> dom (servers (skc_net cfg'))"
proof -
  obtain names c1 where l: "link_all draw (master_names cfg) cfg = Some (names, c1)" "skc_ok draw c1" "more_ends cfg c1"
    using link_all_result [OF assms(1,2)] by blast
  note k = more_ends_keeps [OF l(3)]
  define sm where "sm = fst (sm_StartServer (nmasters cfg) (int i) (MakePersister ()))"
  define cfg' where "cfg' = add_server (mastername i) (c1\<lparr>masterservers := (masterservers c1)[i := Some sm]\<rparr>)"
  have "StartMasterServer draw i cfg = Some cfg'"
    using l(1) assms(3) k(2) by (simp add: StartMasterServer_def case_prod_beta go_set_def sm_def cfg'_def)
  moreover have "skc_ok draw cfg'" using l(2) unfolding cfg'_def by (intro add_server_ok) (simp add: skc_ok_def)
  moreover have "grown cfg cfg'" "groups cfg' = groups cfg" "length (masterservers cfg') = length (masterservers cfg)"
      "mastername i \<in> dom (servers (skc_net cfg'))"
    using k by (auto simp: grown_def cfg'_def add_server_def AddServer_def)
  ultimately show ?thesis by blast
qed

lemma start_masters_result:
  assumes "inj draw" "skc_ok draw cfg" "\<forall>i \<in> set is. i < length (masterservers cfg)"
  shows "\<exists>cfg'. start_masters draw is cfg = Some cfg' \<and> skc_ok draw cfg' \<and> grown cfg cfg' \<and> groups cfg' = groups cfg \<and>
    mastername ` set is \<subseteq> dom (servers (skc_net cfg'))"
  using assms(2,3)
proof (induction "is" arbitrary: cfg)
  case (Cons i "is")
  obtain c1 where c1: "StartMasterServer draw i cfg = Some c1" "skc_ok draw c1" "grown cfg c1" "groups c1 = groups cfg"
      "length (masterservers c1) = length (masterservers cfg)" "mastername i \<in> dom (servers (skc_net c1))"
    using StartMasterServer_result [OF assms(1) Cons.prems(1), of i] Cons.prems(2) by auto
  then obtain c2 where c2: "start_masters draw is c1 = Some c2" "skc_ok draw c2" "grown c1 c2" "groups c2 = groups c1"
      "mastername ` set is \<subseteq> dom (servers (skc_net c2))"
    using Cons.IH [OF c1(2)] Cons.prems(2) by auto
  have "mastername ` set (i # is) \<subseteq> dom (servers (skc_net c2))" using c1(6) c2(3,5) by (auto simp: grown_def)
  moreover have "grown cfg c2" using c1(3) c2(3) by (auto simp: grown_def)
  ultimately show ?case using c1(1,4) c2(1,2,4) by simp
qed (simp add: grown_def)

text \<open>The configuration before the groups are made.\<close>

lemma masters_ready:
  assumes "inj draw"
  obtains cfg where "sk_make_config draw nil rand n unreliable maxsize =
      map_option (\<lambda>c. c\<lparr>skc_nextClientId := int n + 1000, skc_net := Reliable (\<not> unreliable) (skc_net c)\<rparr>)
        (start_groups draw nil [0..<3] cfg)"
    "skc_ok draw cfg" "built 0 cfg" "nmasters cfg = 3" "skc_n cfg = n" "mck cfg = Some (sm_MakeClerk 3 rand)"
    "mastername ` {0..<3} \<subseteq> dom (servers (skc_net cfg))"
proof -
  let ?c0 = "\<lparr>skc_net = MakeNetwork, nmasters = 3, masterservers = replicate 3 None, mck = None, ngroups = 0, skc_n = 0,
             groups = [], skc_clerks = Map.empty, skc_nextClientId = 0, skc_maxraftstate = maxsize,
             skc_disk = (\<lambda>_. MakePersister nil), skc_fresh = 0, skc_drawn = 0\<rparr>"
  have "skc_ok draw ?c0" by (simp add: skc_ok_def MakeNetwork_def)
  then obtain c1 where c1: "start_masters draw [0..<3] ?c0 = Some c1" "skc_ok draw c1" "grown ?c0 c1" "groups c1 = []"
      "mastername ` {0..<3} \<subseteq> dom (servers (skc_net c1))"
    using start_masters_result [OF assms, of ?c0 "[0..<3]"] by auto
  obtain names c2 where c2: "link_all draw (master_names c1) c1 = Some (names, c2)" "skc_ok draw c2" "more_ends c1 c2"
    using link_all_result [OF assms c1(2)] by blast
  note k = more_ends_keeps [OF c2(3)]
  have m: "nmasters c1 = 3" using c1(3) by (simp add: grown_def)
  let ?c3 = "c2\<lparr>mck := Some (sm_MakeClerk 3 rand), ngroups := 3, skc_n := n\<rparr>"
  have "sk_make_config draw nil rand n unreliable maxsize =
      map_option (\<lambda>c. c\<lparr>skc_nextClientId := int n + 1000, skc_net := Reliable (\<not> unreliable) (skc_net c)\<rparr>)
        (start_groups draw nil [0..<3] ?c3)"
    using c1(1) c2(1) m by (simp add: sk_make_config_def shardclerk_def map_option_case split: option.split bind_split)
  moreover have "skc_ok draw ?c3" using c2(2) by (simp add: skc_ok_def)
  moreover have "built 0 ?c3" using k(6) c1(4) by (simp add: built_def)
  moreover have "mastername ` {0..<3} \<subseteq> dom (servers (skc_net ?c3))" using c1(5) k(11) by simp
  ultimately show ?thesis using that k(1) m by auto
qed

subsection \<open>Theorems\<close>

lemma make_config_iff:
  assumes "inj draw"
  shows "(\<exists>cfg. sk_make_config draw nil rand n unreliable maxsize = Some cfg) \<longleftrightarrow> n \<le> 3"
    and "sk_make_config draw nil rand n unreliable maxsize = Some cfg \<Longrightarrow>
      skc_ok draw cfg \<and> built 3 cfg \<and> nmasters cfg = 3 \<and> skc_n cfg = n \<and> mck cfg = Some (sm_MakeClerk 3 rand)"
proof -
  obtain c where c: "sk_make_config draw nil rand n unreliable maxsize =
      map_option (\<lambda>c. c\<lparr>skc_nextClientId := int n + 1000, skc_net := Reliable (\<not> unreliable) (skc_net c)\<rparr>)
        (start_groups draw nil [0..<3] c)"
    "skc_ok draw c" "built 0 c" "nmasters c = 3" "skc_n c = n" "mck c = Some (sm_MakeClerk 3 rand)"
    by (rule masters_ready [OF assms, of nil rand n unreliable maxsize])
  have up: "\<exists>c'. start_groups draw nil [0..<3] c = Some c' \<and> skc_ok draw c' \<and> built 3 c' \<and> grown c c'" if "n \<le> 3"
    using start_groups_result [OF assms c(2,3), of nil 3] that c(4,5) by simp
  have down: "start_groups draw nil [0..<3] c = None" if "3 < n"
    using start_groups_panics [OF assms c(2,3), of 3 nil] that c(4,5) by simp
  show "(\<exists>cfg. sk_make_config draw nil rand n unreliable maxsize = Some cfg) \<longleftrightarrow> n \<le> 3"
    using up down by (cases "n \<le> 3") (auto simp: c(1))
  assume cfg: "sk_make_config draw nil rand n unreliable maxsize = Some cfg"
  then have n: "n \<le> 3" using down c(1) by (cases "n \<le> 3") auto
  obtain c' where "start_groups draw nil [0..<3] c = Some c'" "skc_ok draw c'" "built 3 c'" "grown c c'" using up [OF n] by blast
  moreover from this have "cfg = c'\<lparr>skc_nextClientId := int n + 1000, skc_net := Reliable (\<not> unreliable) (skc_net c')\<rparr>"
    using cfg c(1) by simp
  ultimately show "skc_ok draw cfg \<and> built 3 cfg \<and> nmasters cfg = 3 \<and> skc_n cfg = n \<and> mck cfg = Some (sm_MakeClerk 3 rand)"
    using c(4-6) by (simp add: skc_ok_def built_def group_sized_def grown_def Reliable_def)
qed

text \<open>
  The sharded harness works for groups of three servers only. \<^verbatim>\<open>make_config\<close> returns exactly for at most three
  servers per group, because the array for the names of a server's ends to the masters has a place per
  master where it needs one per server; and in a configuration it returned \<^verbatim>\<open>makeClient\<close> returns exactly
  for at least three, because its array has a place per server where it needs one per master.
\<close>

lemma shard_harness_size:
  assumes "inj draw"
  shows "((\<exists>cfg. sk_make_config draw nil rand n unreliable maxsize = Some cfg) \<longleftrightarrow> n \<le> 3) \<and>
    (\<forall>cfg. sk_make_config draw nil rand n unreliable maxsize = Some cfg \<longrightarrow>
       ((\<exists>ck cfg'. sk_makeClient draw rand' a cfg = Some (ck, cfg')) \<longleftrightarrow> 3 \<le> n))"
proof -
  have "(\<exists>ck cfg'. sk_makeClient draw rand' a cfg = Some (ck, cfg')) \<longleftrightarrow> 3 \<le> n"
    if "sk_make_config draw nil rand n unreliable maxsize = Some cfg" for cfg
  proof -
    have "skc_ok draw cfg" "nmasters cfg = 3" "skc_n cfg = n" using make_config_iff(2) [OF assms that] by simp_all
    then show ?thesis using makeClient_iff [OF assms, of cfg] by simp
  qed
  then show ?thesis using make_config_iff(1) [OF assms, of nil rand n unreliable maxsize] by simp
qed

definition count_draws :: "nat \<Rightarrow> string" where
  "count_draws k = replicate k (CHR ''x'')"

lemma inj_count_draws: "inj count_draws"
  by (rule injI) (metis count_draws_def length_replicate)

text \<open>
  Joining. In a configuration that \<^verbatim>\<open>make_config\<close> returned, \<^verbatim>\<open>join\<close> of a group sends the shard master the
  group's identifier with the names of its servers, and every one of these names leads to its server:
  an end made for it the way clerks do is enabled and connected to that name, the name is in the
  network's table, and no other server of any group has the object it stands for.
\<close>

lemma join_reaches_servers:
  assumes "inj draw" and "sk_make_config draw nil rand n unreliable maxsize = Some cfg" and "gi < 3"
  shows "\<exists>args res cfg'. join gi outs cfg = Some (args, res, cfg') \<and>
    join_Servers args = [(100 + int gi, map (servername (100 + int gi)) [0..<n])] \<and> join_Id args = 1 \<and> join_Me args = rand \<and>
    (\<forall>i < n. \<exists>e c srv rel lre. make_end draw (servername (100 + int gi) i) cfg' = Some (e, c) \<and>
       ReadEndnameInfo e (skc_net c) = (True, Some (servername (100 + int gi) i), Some srv, rel, lre) \<and>
       (\<forall>gi' i'. servers (skc_net c) (servername (100 + int gi') i') = Some srv \<longrightarrow> gi' = gi \<and> i' = i))"
proof -
  have b: "skc_ok draw cfg" "built 3 cfg" "skc_n cfg = n" "mck cfg = Some (sm_MakeClerk 3 rand)"
    using make_config_iff(2) [OF assms(1,2)] by simp_all
  have gg: "length (groups cfg) = 3" "g_gid (groups cfg ! gi) = 100 + int gi"
      "\<forall>i < n. servers (skc_net cfg) (servername (100 + int gi) i) \<noteq> None"
    using b(2,3) assms(3) by (simp_all add: built_def)
  obtain args ck' res where j: "Clerk_Join [(100 + int gi, map (servername (100 + int gi)) [0..<n])] (sm_MakeClerk 3 rand) outs = (args, ck', res)"
    by (metis prod_cases3)
  define cfg' where "cfg' = cfg\<lparr>mck := Some ck'\<rparr>"
  have "join gi outs cfg = Some (args, res, cfg')"
    using gg(1,2) assms(3) b(3,4) j by (simp add: join_def joinm_def cfg'_def)
  moreover have "join_Servers args = [(100 + int gi, map (servername (100 + int gi)) [0..<n])]" "join_Id args = 1" "join_Me args = rand"
    using j by (auto simp: Clerk_Join_def Let_def sm_next_def sm_MakeClerk_def)
  moreover have "\<exists>e c srv rel lre. make_end draw (servername (100 + int gi) i) cfg' = Some (e, c) \<and>
       ReadEndnameInfo e (skc_net c) = (True, Some (servername (100 + int gi) i), Some srv, rel, lre) \<and>
       (\<forall>gi' i'. servers (skc_net c) (servername (100 + int gi') i') = Some srv \<longrightarrow> gi' = gi \<and> i' = i)" if "i < n" for i
  proof -
    have ok: "skc_ok draw cfg'" using b(1) by (simp add: cfg'_def skc_ok_def)
    obtain c where c: "make_end draw (servername (100 + int gi) i) cfg' = Some (draw (skc_drawn cfg'), c)" "skc_ok draw c"
        "more_ends cfg' c" "enabled (skc_net c) (draw (skc_drawn cfg'))"
        "connections (skc_net c) (draw (skc_drawn cfg')) = Some (servername (100 + int gi) i)"
      using make_end_result [OF assms(1) ok] by blast
    have s: "servers (skc_net c) = servers (skc_net cfg)" using more_ends_keeps(11) [OF c(3)] by (simp add: cfg'_def)
    have "servers (skc_net c) (servername (100 + int gi) i) \<noteq> None" using gg(3) \<open>i < n\<close> s by simp
    then obtain srv where srv: "servers (skc_net c) (servername (100 + int gi) i) = Some srv" by blast
    have one: "\<forall>sn sn' a. servers (skc_net c) sn = Some a \<longrightarrow> servers (skc_net c) sn' = Some a \<longrightarrow> sn = sn'"
      using c(2) unfolding skc_ok_def by (elim conjE)
    have "gi' = gi \<and> i' = i" if "servers (skc_net c) (servername (100 + int gi') i') = Some srv" for gi' i'
    proof -
      have "servername (100 + int gi') i' = servername (100 + int gi) i" using one [rule_format, OF that srv] .
      then show ?thesis by simp
    qed
    moreover have "ReadEndnameInfo (draw (skc_drawn cfg')) (skc_net c) = (True, Some (servername (100 + int gi) i), Some srv,
        reliable (skc_net c), longReordering (skc_net c))"
      using c(4,5) srv by (simp add: ReadEndnameInfo_def)
    ultimately show ?thesis using c(1) by blast
  qed
  ultimately show ?thesis by blast
qed

end
