(* ===== verification/Spec2Isabelle.thy ===== *)
theory Spec2Isabelle
  imports Raft_Theorems Raft_Network_Log Raft_Apply_Panic Raft_Progress Raft_Stuck Raft_Ticker Raft_Types Replicas Shard_KV
    Map_Reduce_Schedule Drivers Raft_Tester_Proofs KV_Tester_Proofs SM_Tester Shard_Tester_Proofs
begin

text \<open>
  \<^bold>\<open>The program.\<close> The repository holds the five labs of a distributed systems course in Go, under
  \<^verbatim>\<open>src/src\<close>:

  \<^item> \<^verbatim>\<open>mapreduce\<close>: a MapReduce library with a sequential and a distributed master;
  \<^item> \<^verbatim>\<open>labrpc\<close>: a simulated network that loses, delays and reorders calls;
  \<^item> \<^verbatim>\<open>raft\<close>: the Raft consensus protocol with persistence and snapshots, and the harness of its tests;
  \<^item> \<^verbatim>\<open>kvraft\<close>: a replicated key/value server on Raft, with its clerk;
  \<^item> \<^verbatim>\<open>shardmaster\<close>: a replicated configuration service on Raft, with its clerk;
  \<^item> \<^verbatim>\<open>shardkv\<close>: the clerk of a sharded key/value service; its server is still empty.

  Peers of Raft call each other through \<^verbatim>\<open>labrpc\<close>. A service hands operations to \<^verbatim>\<open>Start\<close> of its Raft peer
  and applies what comes out of the apply channel; the key/value server also hands snapshots down and
  takes snapshots back. A clerk calls the servers of a service until one answers as leader. The sharded
  clerk asks the shard master which group is responsible for a key.

  \<^bold>\<open>How code is represented.\<close> A struct is a record, a section that runs under a mutex (or between two points
  where it waits) is one function on the record, a goroutine that is started is a value in the result, a
  loop is a recursive function. Go \<^verbatim>\<open>int\<close> is \<open>int\<close>; the 32 bit hash of MapReduce is a word. Slices are
  lists, and an index out of range, a nil dereference and \<^verbatim>\<open>log.Fatal\<close> are \<open>None\<close> or an error value
  (\<open>Go_Prelude\<close>). A Go map is a function or, where the order of iteration matters, an association list.
  Time, random numbers, results of remote calls and the encoders of gob and json are arguments; what is
  used of an encoder (that it decodes what it encoded) is a hypothesis with a concrete instance in the
  witness. Where the program is concurrent, the sections are the steps of an inductive relation, in any
  order.

  \<^bold>\<open>Raft\<close> (\<^verbatim>\<open>raft/raft.go\<close>, \<^verbatim>\<open>raft/persister.go\<close>).
  \<open>Raft_Node\<close> has the records of the file, the persister and every section: \<^verbatim>\<open>RequestVote\<close>, \<^verbatim>\<open>doElection\<close> and
  the goroutine that counts a vote (\<open>handleVoteReply\<close>), \<^verbatim>\<open>Start\<close>, the heartbeat part of \<^verbatim>\<open>ticker\<close>
  (\<open>ticker_leader\<close>; the whole loop with its pacing is \<open>Raft_Ticker\<close>), \<^verbatim>\<open>AppendEntries\<close>, \<^verbatim>\<open>processAppendEntriesReply\<close>, \<^verbatim>\<open>advanceCommit\<close>, \<^verbatim>\<open>InstallSnapshot\<close>,
  \<^verbatim>\<open>handleSendInstallSnapshot\<close> before and after its call, \<^verbatim>\<open>Snapshot\<close>, \<^verbatim>\<open>BackgroundApplyRoutine\<close>,
  \<^verbatim>\<open>readPersist\<close>, \<^verbatim>\<open>persist\<close>, \<^verbatim>\<open>Make\<close>, \<^verbatim>\<open>Kill\<close>. \<open>Raft_Cluster\<close> composes peers and calls under way into a step
  relation with loss, delay, reordering, crashes and restarts. \<open>Raft_Handlers\<close> has what each section
  keeps; \<open>Raft_Election\<close> and \<open>Raft_Log_Matching\<close> have the cluster invariants; \<open>Raft_Invariants\<close> states the
  contract of an invariant of single peers as a locale, with an optional guard on the snapshots that keep it,
  and interprets it for the order of the indices and the shape of the arrays, \<open>Raft_Types\<close> for the types
  of what the persister holds, \<open>Raft_Apply_Panic\<close> for the committed entries being in the log; \<open>Raft_Panic\<close>
  bounds the replies under way. \<open>Raft_Local\<close> has the functional behaviour of the sections. Shown: election
  safety, log matching, that from every state some run elects a new leader (\<open>Raft_Progress\<close>), no lost vote
  or log after a crash, that handlers do not panic, nor does the heartbeat section of a peer that still leads when
  it runs, the order of the indices, the voting rule, the commit rule and the behaviour of each RPC on every branch. Shown too is what fails, with runs
  that are scripts of steps (\<open>Raft_Loss\<close>) evaluated by the kernel:

  \<^item> a delayed heartbeat makes a committed entry disappear and two peers apply different commands at one
    index (\<open>Raft_Loss\<close>), so state machine safety is not a theorem of this code;
  \<^item> a snapshot installed behind the commit index makes the apply routine panic, and it is the only cause
    of that (\<open>Raft_Apply_Panic\<close>); it makes a later \<^verbatim>\<open>Snapshot\<close> panic too (\<open>Raft_Local\<close>);
  \<^item> a ticker that read its state before the peer stepped down sends requests in the name of a term that
    another peer leads, or panics (\<open>Raft_Ticker\<close>);
  \<^item> a follower that compacted its log after a reply was lost gets no further entries from a leader that did
    not compact (\<open>Raft_Stuck\<close>);
  \<^item> a cluster of one server never elects a leader (\<open>Raft_Theorems\<close>).

  \<open>Raft_Sample\<close> is the run the witnesses use.

  \<^bold>\<open>Raft over the network\<close> (\<^verbatim>\<open>raft/raft.go\<close> with \<^verbatim>\<open>labrpc/labrpc.go\<close>). \<open>Raft_Network\<close> puts the peers on the simulated
  network: the service through which \<^verbatim>\<open>labrpc\<close> reaches a peer, the calls of its goroutines
  (\<^verbatim>\<open>sendRequestVote\<close> and the others), instances that are replaced on a restart and go on as objects of their
  own, and the network's life of every call. \<open>Raft_Network_Proofs\<close> shows, through the locale
  \<open>forward_simulation\<close>, that every run of this system is matched by a run of the cluster of \<open>Raft_Cluster\<close>, so
  that what is shown of the cluster holds of the running instances; \<open>Raft_Network_Theorems\<close> states this and
  election safety over the network, with an election between two peers as the witness, and \<open>Raft_Network_Log\<close>
  log matching, with an entry that the network carries from one to the other. What is used of
  the harness is that it connects every end once, to the server it is named for, and adds a server only
  when it starts one; what is used of gob is that it decodes what it encoded.

  \<^bold>\<open>Services\<close> (\<^verbatim>\<open>kvraft\<close>, \<^verbatim>\<open>shardmaster\<close>). \<open>Service_Prelude\<close> has what both share, the table of waiting requests,
  and two locales: a machine that ignores repeated requests, and a machine whose state can be replaced by
  a snapshot of a longer run. \<open>KV_Raft\<close> and \<open>Shard_Master\<close> are the models: state, apply routine, handlers
  split where they wait, clerks as loops over the outcomes of their calls. \<open>KV_Machine\<close> and
  \<open>Shard_Machine\<close> interpret the locales. Shown: the store is the fold of the operations that took effect;
  snapshots and restarts agree with the log; at most once; replicas agree; a read that registers before its
  entry is applied is answered with the state at its index, whatever the server does in between, but one that
  registers after its entry was applied waits in vain; when clerks return. \<open>Replicas\<close> puts the services on the cluster: the messages a peer's apply routine hands over are
  the entries of its log, and by log matching two servers whose logs agree at an index stay in step up to
  it; the contract of a service is a locale, interpreted for both. \<open>Shard_Rebalance\<close> shows that \<^verbatim>\<open>Rebalance\<close> balances, moves as few
  shards as possible and does not depend on the order of the map.

  \<^bold>\<open>Sharded clerk\<close> (\<^verbatim>\<open>shardkv\<close>). \<open>Shard_KV\<close>: the clerk's loops, and that they do not end against the empty
  handlers.

  \<^bold>\<open>MapReduce\<close>. \<open>Map_Reduce\<close> has file names, hash, tasks, merge and the sequential master on an explicit file
  system; \<open>Map_Reduce_Proofs\<close> that the result is right and that \<^verbatim>\<open>CleanupFiles\<close> restores the file system.
  \<open>Map_Reduce_Distributed\<close> has workers, registrations and \<^verbatim>\<open>schedule\<close> as a step relation with calls that are
  lost before or after execution and workers that register any number of times, die and start again;
  \<open>Map_Reduce_Schedule\<close> states a phase as a locale, interprets it for map and reduce tasks, and shows that the
  distributed master produces the file of the sequential one, that a phase can always be finished while one
  worker lives, and that a worker that registered once is never called twice at once, but one that registered twice
  is, and ends its process. \<open>Map_Reduce_Rpc\<close> has the accept loops of the master's and the workers' RPC servers:
  the master's stops on \<^verbatim>\<open>Shutdown\<close>, a worker's only after one more connection. \<open>Drivers\<close> has what the programs
  of \<^verbatim>\<open>main\<close> do with their arguments, with the packages that are not in the repository as parameters.

  \<^bold>\<open>The network\<close> (\<^verbatim>\<open>labrpc\<close>). \<open>Lab_Rpc\<close> has services, servers, the network's tables and the life of a request;
  \<open>Lab_Rpc_Proofs\<close> at most one execution per call, the exact outcomes and delays of requests and replies over all
  random numbers, and dispatch.

  \<^bold>\<open>The Raft test harness\<close> (\<^verbatim>\<open>raft/config.go\<close>). \<open>Raft_Tester\<close> has its state, connections, crashes and restarts,
  the reader of the apply channel and the checks. \<open>Raft_Tester_Net\<close> ties its tables to the network's: who
  can reach whom after any sequence of calls, that a server that was crashed and connected again without a
  restart can still send, and that a restarted server is out of reach of all its predecessors for good.
  \<open>Raft_Tester_Proofs\<close> puts the leader check on a running cluster, with servers that are detached or were
  crashed, and shows what the agreement check establishes.

  \<^bold>\<open>The harnesses of the services\<close> (\<^verbatim>\<open>kvraft/config.go\<close>, \<^verbatim>\<open>shardmaster/config.go\<close>). The two files differ only in the kind
  of server; \<open>Service_Tester\<close> has the connections, partitions, clerks and servers of both, \<open>KV_Tester\<close> and
  \<open>SM_Tester\<close> the operations of each. \<open>Service_Tester_Proofs\<close> shows how \<^verbatim>\<open>make_partition\<close> splits the servers
  (rightly for an odd number only), who can reach whom after \<^verbatim>\<open>partition\<close>, and that a clerk's shuffled list
  has every server once; \<open>KV_Tester_Proofs\<close> and \<open>SM_Tester\<close> state it of the two harnesses.

  \<^bold>\<open>The sharded test harness\<close> (\<^verbatim>\<open>shardkv/config.go\<close>). \<open>Shard_Tester\<close> has its masters, groups and clerks.
  \<open>Shard_Tester_Proofs\<close> shows that it can be built and used for groups of three servers only, and that the
  names it tells the shard master lead to the servers of the group.

  \<^bold>\<open>Bounds.\<close> No function takes fuel. Loops that retry forever run over the list of the outcomes of their calls
  and the theorems say for which lists they return; loops bounded by time run over the list of what they
  read. The other loops are structural or have a measure. The bounds of the code (ten shards, ten passes
  of the leader check, thirty turns of \<^verbatim>\<open>wait\<close>, the delays of the network) are the code's own.

  \<^bold>\<open>What the theorems assume.\<close> In the cluster every call is executed at most once and replies at most once;
  that the simulated network gives no more is \<open>raft_net_refines\<close>. Persisting is atomic. The function \<^verbatim>\<open>call\<close> of
  MapReduce sets no deadline, so a call returns when its reply arrives or its connection breaks, and a worker is
  started again at an address only when its old process has ended and the master's calls to it have returned. Because a committed
  entry can be lost in Raft, agreement between replicas of a service is stated up to an index at which
  their logs hold an entry of the same term.

  \<^bold>\<open>Not modelled.\<close> The packages \<^verbatim>\<open>diskv\<close>, \<^verbatim>\<open>lockservice\<close>, \<^verbatim>\<open>pbservice\<close> and \<^verbatim>\<open>viewservice\<close>, which are not in the
  repository and are parameters; the map and reduce functions of \<^verbatim>\<open>wc.go\<close> and \<^verbatim>\<open>ii.go\<close>, which are not written;
  \<^verbatim>\<open>raft/util.go\<close> and the debug output; \<^verbatim>\<open>nrand\<close> and \<^verbatim>\<open>randstring\<close>, whose results are arguments; the sockets and
  the encoding under \<^verbatim>\<open>net/rpc\<close>, whose outcomes are the steps a call can take; the order in which the Go
  scheduler runs goroutines, which is left open everywhere.
\<close>

end
